(* ===== verification/Cache_Prelude.thy ===== *)
theory Cache_Prelude
  imports Main "HOL-Library.Word"
begin

text \<open>
  Shared vocabulary of the development: the machine integer types of the C++ code, the lemma
  collections the component proofs use, the counting lemmas for vectors that are updated in
  place, and the arithmetic of positions in a cyclic array (the row index and the ring buffer).
\<close>

unbundle bit_operations_syntax

section \<open>Machine integers and lemma collections\<close>

type_synonym u8 = "8 word"
type_synonym u16 = "16 word"
type_synonym u32 = "32 word"
type_synonym u64 = "64 word"

text \<open>\<open>std::byte\<close> and raw memory: a byte is an 8-bit word, a span's contents are a list.\<close>

type_synonym bytes = "u8 list"

text \<open>
  \<open>cache_defs\<close> collects the defining equations that unfold one step of the table's operations,
  \<open>frame_simps\<close> the facts that an operation leaves a field alone.
\<close>

named_theorems cache_defs \<open>defining equations of the operations\<close>
named_theorems frame_simps \<open>fields an operation does not change\<close>

section \<open>Sums over a vector updated at one position\<close>

text \<open>
  \<open>tally f xs\<close> adds up \<open>f\<close> over a vector. The counters of the table (fills in flight, pins,
  tickets held) are tallies of its slots; an update of one slot changes a tally by the
  difference of the two values.
\<close>

definition tally :: "('a \<Rightarrow> nat) \<Rightarrow> 'a list \<Rightarrow> nat" where
  "tally f xs = sum_list (map f xs)"

lemma tally_update:
  "i < length xs \<Longrightarrow> tally f (xs[i := y]) + f (xs ! i) = tally f xs + f y"
  by (induction xs arbitrary: i) (auto simp: tally_def nth_Cons split: nat.splits)

lemma tally_update_same:
  assumes "f y = f (xs ! i)"
  shows "tally f (xs[i := y]) = tally f xs"
proof (cases "i < length xs")
  case True
  with tally_update [of i xs f y] assms show ?thesis by simp
qed (simp add: list_update_beyond)

lemma tally_update_inc:
  assumes "i < length xs" and "f y = f (xs ! i) + k"
  shows "tally f (xs[i := y]) = tally f xs + k"
  using tally_update [OF assms(1), of f y] assms(2) by simp

lemma tally_ge: "i < length xs \<Longrightarrow> f (xs ! i) \<le> tally f xs"
  by (induction xs arbitrary: i) (auto simp: tally_def nth_Cons trans_le_add2 split: nat.splits)

lemma tally_update_dec:
  assumes "i < length xs" and "f (xs ! i) = f y + k"
  shows "tally f (xs[i := y]) = tally f xs - k"
  using tally_update [OF assms(1), of f y] assms(2) tally_ge [OF assms(1), of f] by simp

lemma tally_eq_0: "tally f xs = 0 \<longleftrightarrow> (\<forall>i < length xs. f (xs ! i) = 0)"
  by (simp add: tally_def all_set_conv_all_nth)

lemma tally_le_length: "(\<And>x. f x \<le> 1) \<Longrightarrow> tally f xs \<le> length xs"
  by (induction xs) (auto simp: tally_def intro: order_trans add_mono)

lemma tally_replicate [simp]: "tally f (replicate n x) = n * f x"
  by (induction n) (auto simp: tally_def)

section \<open>Positions in a cyclic array\<close>

text \<open>
  \<open>cyc_dist n a b\<close> is the number of steps \<open>pos = (pos + 1) mod n\<close> from \<open>a\<close> to \<open>b\<close>: the C++
  expression \<open>(b - a) & mask\<close> for a table of \<open>n = mask + 1\<close> cells.
\<close>

definition cyc_dist :: "nat \<Rightarrow> nat \<Rightarrow> nat \<Rightarrow> nat" where
  "cyc_dist n a b = (b + n - a) mod n"

lemma cyc_dist_if:
  "a < n \<Longrightarrow> b < n \<Longrightarrow> cyc_dist n a b = (if a \<le> b then b - a else b + n - a)"
  by (auto simp: cyc_dist_def not_le mod_if)

lemma cyc_dist_less: "0 < n \<Longrightarrow> cyc_dist n a b < n"
  by (simp add: cyc_dist_def)

lemma cyc_dist_self [simp]: "a < n \<Longrightarrow> cyc_dist n a a = 0"
  by (simp add: cyc_dist_if)

lemma cyc_dist_step: "a < n \<Longrightarrow> i < n \<Longrightarrow> cyc_dist n a ((a + i) mod n) = i"
  by (subst cyc_dist_if) (auto simp: mod_if)

lemma cyc_step_dist: "a < n \<Longrightarrow> b < n \<Longrightarrow> (a + cyc_dist n a b) mod n = b"
  by (auto simp: cyc_dist_if mod_if)

lemma cyc_dist_0: "a < n \<Longrightarrow> b < n \<Longrightarrow> cyc_dist n a b = 0 \<longleftrightarrow> a = b"
  by (auto simp: cyc_dist_if)

lemma cyc_dist_Suc:
  assumes "a < n" and "b < n" and "b \<noteq> a"
  shows "cyc_dist n a b = Suc (cyc_dist n ((a + 1) mod n) b)"
  using assms by (auto simp: cyc_dist_if mod_if split: if_splits)

text \<open>A point \<open>h\<close> lies on the walk from \<open>a\<close> to \<open>p\<close> exactly when it is not farther from \<open>p\<close>.\<close>

lemma cyc_on_path:
  assumes "a < n" and "h < n" and "p < n" and "h \<noteq> p"
  shows "cyc_dist n a h < cyc_dist n a p \<longleftrightarrow> cyc_dist n h p \<le> cyc_dist n a p"
  using assms by (auto simp: cyc_dist_if split: if_splits)

lemma cyc_between:
  assumes "a < n" and "h < n" and "x < n" and "p < n"
    and "cyc_dist n a h < cyc_dist n a p" and "cyc_dist n h x < cyc_dist n h p"
  shows "cyc_dist n a x < cyc_dist n a p"
  using assms by (auto simp: cyc_dist_if split: if_splits)

lemma cyc_dist_inj:
  "a < n \<Longrightarrow> b < n \<Longrightarrow> c < n \<Longrightarrow> cyc_dist n a b = cyc_dist n a c \<longleftrightarrow> b = c"
  by (metis cyc_step_dist)

lemma cyc_dist_pred: "p < n \<Longrightarrow> cyc_dist n ((p + 1) mod n) p = n - 1"
  by (cases "p + 1 = n") (auto simp: cyc_dist_if)

text \<open>
  The code masks with \<open>size - 1\<close> where the size is a power of two; on unsigned 64-bit values
  that is the remainder.
\<close>

lemma and_mask_is_mod: "(x :: u64) AND mask k = x mod 2 ^ k"
  by (simp add: take_bit_eq_mod flip: take_bit_eq_mask)

section \<open>Spans of bytes\<close>

text \<open>
  \<open>slice xs off len\<close> is \<open>std::span::subspan(off, len)\<close>; \<open>put_at xs off ys\<close> is a \<open>memcpy\<close> of \<open>ys\<close>
  into \<open>xs\<close> at offset \<open>off\<close>. The code calls both inside the bounds of the span only.
\<close>

definition slice :: "'a list \<Rightarrow> nat \<Rightarrow> nat \<Rightarrow> 'a list" where
  "slice xs off len = take len (drop off xs)"

definition put_at :: "'a list \<Rightarrow> nat \<Rightarrow> 'a list \<Rightarrow> 'a list" where
  "put_at xs off ys = take off xs @ ys @ drop (off + length ys) xs"

lemma length_slice [simp]: "length (slice xs off len) = min len (length xs - off)"
  by (simp add: slice_def)

lemma nth_slice: "i < len \<Longrightarrow> off + len \<le> length xs \<Longrightarrow> slice xs off len ! i = xs ! (off + i)"
  by (simp add: slice_def)

lemma length_put_at [simp]:
  "off + length ys \<le> length xs \<Longrightarrow> length (put_at xs off ys) = length xs"
  by (simp add: put_at_def)

lemma nth_put_at:
  assumes "off + length ys \<le> length xs" and "i < length xs"
  shows "put_at xs off ys ! i
       = (if off \<le> i \<and> i < off + length ys then ys ! (i - off) else xs ! i)"
  using assms by (auto simp: put_at_def nth_append)

lemma put_at_Nil [simp]: "put_at xs off [] = xs"
  by (simp add: put_at_def)

lemma slice_put_at_same:
  "off + length ys \<le> length xs \<Longrightarrow> slice (put_at xs off ys) off (length ys) = ys"
  by (simp add: slice_def put_at_def)

lemma slice_put_at_disjoint:
  assumes "off + length ys \<le> length xs" and "o2 + len \<le> off \<or> off + length ys \<le> o2"
  shows "slice (put_at xs off ys) o2 len = slice xs o2 len"
proof (rule nth_equalityI)
  show "length (slice (put_at xs off ys) o2 len) = length (slice xs o2 len)"
    using assms by simp
  fix i assume "i < length (slice (put_at xs off ys) o2 len)"
  with assms show "slice (put_at xs off ys) o2 len ! i = slice xs o2 len ! i"
    by (auto simp: slice_def nth_put_at)
qed

lemma slice_full [simp]: "slice xs 0 (length xs) = xs"
  by (simp add: slice_def)

lemma slice_append:
  "slice xs off (m + n) = slice xs off m @ slice xs (off + m) n"
  by (simp add: slice_def take_add add.commute)

section \<open>Standard integer functions of <bit>\<close>

text \<open>\<open>std::bit_ceil\<close>, \<open>std::countr_zero\<close> and \<open>std::has_single_bit\<close>, as the table's constructor uses them.\<close>

fun bit_ceil :: "nat \<Rightarrow> nat" where
  "bit_ceil x = (if x \<le> 1 then 1 else 2 * bit_ceil ((x + 1) div 2))"

declare bit_ceil.simps [simp del]

fun countr_zero :: "nat \<Rightarrow> nat" where
  "countr_zero x = (if x = 0 then 64 else if odd x then 0 else Suc (countr_zero (x div 2)))"

declare countr_zero.simps [simp del]

definition has_single_bit :: "u64 \<Rightarrow> bool" where
  "has_single_bit x \<longleftrightarrow> x \<noteq> 0 \<and> x AND (x - 1) = 0"

lemma bit_ceil_power: "\<exists>k. bit_ceil x = 2 ^ k \<and> x \<le> 2 ^ k \<and> (1 < x \<longrightarrow> 2 ^ k < 2 * x)"
proof (induction x rule: bit_ceil.induct)
  case (1 x)
  show ?case
  proof (cases "x \<le> 1")
    case True
    then show ?thesis by (intro exI [of _ 0]) (simp add: bit_ceil.simps)
  next
    case False
    with "1.IH" obtain k where k: "bit_ceil ((x + 1) div 2) = 2 ^ k" "(x + 1) div 2 \<le> 2 ^ k"
      "1 < (x + 1) div 2 \<longrightarrow> 2 ^ k < 2 * ((x + 1) div 2)" by auto
    have "2 * 2 ^ k < 2 * x"
    proof (cases "1 < (x + 1) div 2")
      case True
      then have x: "2 < x" by linarith
      have "2 ^ k < 2 * ((x + 1) div 2)" using k(3) True by simp
      then have lt: "2 ^ k < x + 1" by linarith
      show ?thesis
      proof (cases "2 ^ k = x")
        case True
        with k(3) \<open>1 < (x + 1) div 2\<close> x have "odd x \<or> False" by (auto elim!: evenE)
        with True x show ?thesis by (cases k) auto
      qed (use lt in simp)
    next
      case F: False
      with False have "x = 2" by linarith
      with k show ?thesis by (simp add: bit_ceil.simps)
    qed
    with k False show ?thesis
      by (intro exI [of _ "Suc k"]) (auto simp: bit_ceil.simps [of x])
  qed
qed

lemma countr_zero_power: "countr_zero (2 ^ k) = k"
  by (induction k) (simp_all add: countr_zero.simps)

section \<open>Machine words\<close>

lemma unat_u64: "unat (x :: u64) < 2 ^ 64"
  by (rule less_le_trans [OF unsigned_less]) simp

lemma unat_u32: "unat (x :: u32) < 2 ^ 32"
  by (rule less_le_trans [OF unsigned_less]) simp

lemma unat_of_nat32: "n < 2 ^ 32 \<Longrightarrow> unat (of_nat n :: u32) = n"
  by (simp add: unat_of_nat take_bit_nat_eq_self)

lemma unat_of_nat64: "n < 2 ^ 64 \<Longrightarrow> unat (of_nat n :: u64) = n"
  by (simp add: unat_of_nat take_bit_nat_eq_self)

end
