(* ===== verification/Codec.thy ===== *)
theory Codec
  imports Cache_Prelude
begin

text \<open>
  The codec interface and the built-in bf16 to f32 widening (codec.hpp). A codec is a function
  of the source bytes and of the destination's previous contents, returning whether it
  succeeded and the destination's contents afterwards. Multi-byte integers go through
  \<open>memcpy\<close>, so their byte order is the machine's: little-endian here.
\<close>

section \<open>Definitions\<close>

type_synonym codec = "bytes \<Rightarrow> bytes \<Rightarrow> bool \<times> bytes"

definition bf16_bits_to_f32_bits :: "u16 \<Rightarrow> u32" where
  "bf16_bits_to_f32_bits bits = push_bit 16 (ucast bits)"

definition u16_of_bytes :: "u8 \<Rightarrow> u8 \<Rightarrow> u16" where
  "u16_of_bytes b0 b1 = ucast b0 OR push_bit 8 (ucast b1)"

definition bytes_of_u32 :: "u32 \<Rightarrow> bytes" where
  "bytes_of_u32 w = [ucast w, ucast (drop_bit 8 w), ucast (drop_bit 16 w), ucast (drop_bit 24 w)]"

definition u32_of_bytes :: "bytes \<Rightarrow> u32" where
  "u32_of_bytes bs = ucast (bs ! 0) OR push_bit 8 (ucast (bs ! 1)) OR push_bit 16 (ucast (bs ! 2))
     OR push_bit 24 (ucast (bs ! 3))"

text \<open>The loop of \<open>Bf16ToF32Codec::convert\<close>: elements \<open>i, i+1, ..., elements - 1\<close>.\<close>

fun convert_elements :: "nat \<Rightarrow> nat \<Rightarrow> bytes \<Rightarrow> bytes \<Rightarrow> bytes" where
  "convert_elements 0 i source destination = destination"
| "convert_elements (Suc todo) i source destination =
     (let bf16_bits = u16_of_bytes (source ! (2 * i)) (source ! (2 * i + 1));
          f32_bits = bf16_bits_to_f32_bits bf16_bits
      in convert_elements todo (i + 1) source
           (put_at destination (4 * i) (bytes_of_u32 f32_bits)))"

definition bf16_to_f32_convert :: codec where
  "bf16_to_f32_convert source destination =
     (if length destination \<noteq> length source * 2 \<or> length source mod 2 \<noteq> 0
      then (False, destination)
      else (True, convert_elements (length source div 2) 0 source destination))"

section \<open>Byte order\<close>

lemma length_bytes_of_u32 [simp]: "length (bytes_of_u32 w) = 4"
  by (simp add: bytes_of_u32_def)

lemma bf16_bytes:
  "bytes_of_u32 (bf16_bits_to_f32_bits (u16_of_bytes b0 b1)) = [0, 0, b0, b1]"
  unfolding bytes_of_u32_def bf16_bits_to_f32_bits_def u16_of_bytes_def
  by (simp, intro conjI; rule bit_word_eqI) (auto simp: bit_simps dest: bit_imp_le_length)

section \<open>The contract of a codec and the built-in instance\<close>

text \<open>
  What the fill path relies on: \<open>convert\<close> writes only inside the destination (the span keeps
  its size), and on success what it produced depends on the source row alone, so that no
  previous contents of the slot leak into a published row.
\<close>

locale row_codec =
  fixes convert :: codec
    and width_ok :: "nat \<Rightarrow> nat \<Rightarrow> bool"
  assumes convert_length: "length (snd (convert source destination)) = length destination"
    and convert_source_only:
      "fst (convert source d1) \<Longrightarrow> fst (convert source d2) \<Longrightarrow> length d1 = length d2 \<Longrightarrow>
         snd (convert source d1) = snd (convert source d2)"
    and convert_accepts: "width_ok (length source) (length destination) \<Longrightarrow>
         fst (convert source destination)"
begin

text \<open>The row a codec publishes is a function of the encoded row.\<close>

definition decoded :: "nat \<Rightarrow> bytes \<Rightarrow> bytes" where
  "decoded width source = snd (convert source (replicate width 0))"

lemma convert_decoded:
  assumes "width_ok (length source) (length destination)"
  shows "convert source destination = (True, decoded (length destination) source)"
proof -
  have ok: "fst (convert source d)" if "length d = length destination" for d
    using convert_accepts [of source d] assms that by simp
  have "snd (convert source destination) = decoded (length destination) source"
    unfolding decoded_def by (rule convert_source_only) (auto intro: ok)
  with ok [of destination] show ?thesis by (metis prod.collapse)
qed

end

text \<open>The whole destination after the loop: every element widened in place.\<close>

definition widen :: "bytes \<Rightarrow> bytes" where
  "widen source = concat (map (\<lambda>i. [0, 0, source ! (2 * i), source ! (2 * i + 1)])
                            [0..<length source div 2])"

lemma length_widen: "length (widen source) = 4 * (length source div 2)"
proof -
  have "length (concat (map (\<lambda>i. [0, 0, source ! (2 * i), source ! (2 * i + 1)]) [0..<n])) = 4 * n"
    for n by (induction n) auto
  then show ?thesis by (simp add: widen_def)
qed

lemma convert_elements_from:
  assumes "length destination = 4 * (i + todo)"
  shows "convert_elements todo i source destination
       = take (4 * i) destination
         @ concat (map (\<lambda>i. [0, 0, source ! (2 * i), source ! (2 * i + 1)]) [i..<i + todo])"
  using assms
proof (induction todo arbitrary: i destination)
  case (Suc todo)
  let ?b = "[0, 0, source ! (2 * i), source ! (2 * i + 1)]"
  let ?d = "put_at destination (4 * i) ?b"
  have len: "length ?d = 4 * ((i + 1) + todo)" using Suc.prems by simp
  have "take (4 * (i + 1)) ?d = take (4 * i) destination @ ?b"
    using Suc.prems by (simp add: put_at_def)
  moreover have "[i..<i + Suc todo] = i # [i + 1..<i + 1 + todo]"
    by (simp add: upt_conv_Cons del: upt_Suc)
  ultimately show ?case
    using Suc.IH [OF len] by (simp only: convert_elements.simps Let_def bf16_bytes) simp
qed simp

lemma bf16_convert_eq:
  assumes "even (length source)" and "length destination = 2 * length source"
  shows "bf16_to_f32_convert source destination = (True, widen source)"
proof -
  obtain n where n: "length source = 2 * n" using assms(1) by (elim evenE)
  with assms(2) convert_elements_from [of destination 0 n source] show ?thesis
    by (simp add: bf16_to_f32_convert_def widen_def)
qed

interpretation bf16: row_codec bf16_to_f32_convert
    "\<lambda>source_bytes output_bytes. even source_bytes \<and> output_bytes = 2 * source_bytes"
proof
  fix source destination d1 d2 :: bytes
  show "length (snd (bf16_to_f32_convert source destination)) = length destination"
  proof (cases "even (length source) \<and> length destination = 2 * length source")
    case True
    then show ?thesis by (auto simp: bf16_convert_eq length_widen elim!: evenE)
  next
    case False
    then show ?thesis by (auto simp: bf16_to_f32_convert_def odd_iff_mod_2_eq_one)
  qed
  show "snd (bf16_to_f32_convert source d1) = snd (bf16_to_f32_convert source d2)"
    if "fst (bf16_to_f32_convert source d1)" "fst (bf16_to_f32_convert source d2)"
  proof -
    from that have "even (length source)" "length d1 = 2 * length source" "length d2 = 2 * length source"
      by (auto simp: bf16_to_f32_convert_def split: if_splits)
    then show ?thesis by (simp add: bf16_convert_eq)
  qed
  show "fst (bf16_to_f32_convert source destination)"
    if "even (length source) \<and> length destination = 2 * length source"
    using that by (simp add: bf16_convert_eq)
qed


end
