(* ===== verification/Cache_Status.thy ===== *)
theory Cache_Status
  imports Cache_Prelude
begin

text \<open>
  The three status vocabularies: the cache's own (\<open>status.hpp\<close>), Sub0MemPage's as the code
  names its values (the cases of \<open>detail::from_mempage\<close>) and the remote mirror's
  (\<open>remote/status.hpp\<close>), with the translation between the first two and the classification
  of transient remote failures.
\<close>

section \<open>sub0tieredcache::Status\<close>

datatype status =
    Ok | Pending | Not_resident | Pool_exhausted | Batch_too_large | Ticket_exhausted
  | Out_of_range | Empty_range | Invalid_argument | Busy | Short_read | Io_error
  | Cancelled | Timeout | Codec_failed | Unsupported_conversion | Declined

text \<open>The values of \<open>sub0mempage::Status\<close> that the translation names.\<close>

datatype mp_status =
    MP_Ok | MP_Pending | MP_Not_resident | MP_Pool_exhausted | MP_Batch_too_large
  | MP_Queue_exhausted | MP_Ticket_exhausted | MP_Out_of_range | MP_Empty_range
  | MP_Invalid_argument | MP_Busy | MP_Short_read | MP_Io_error | MP_Cancelled
  | MP_Timeout | MP_Declined

fun from_mempage :: "mp_status \<Rightarrow> status" where
  "from_mempage MP_Ok = Ok"
| "from_mempage MP_Pending = Pending"
| "from_mempage MP_Not_resident = Not_resident"
| "from_mempage MP_Pool_exhausted = Pool_exhausted"
| "from_mempage MP_Batch_too_large = Batch_too_large"
| "from_mempage MP_Queue_exhausted = Pool_exhausted"
| "from_mempage MP_Ticket_exhausted = Ticket_exhausted"
| "from_mempage MP_Out_of_range = Out_of_range"
| "from_mempage MP_Empty_range = Empty_range"
| "from_mempage MP_Invalid_argument = Invalid_argument"
| "from_mempage MP_Busy = Busy"
| "from_mempage MP_Short_read = Short_read"
| "from_mempage MP_Io_error = Io_error"
| "from_mempage MP_Cancelled = Cancelled"
| "from_mempage MP_Timeout = Timeout"
| "from_mempage MP_Declined = Declined"

lemma from_mempage_Ok [simp]: "from_mempage m = Ok \<longleftrightarrow> m = MP_Ok"
  by (cases m) auto

lemma from_mempage_Timeout [simp]: "from_mempage m = Timeout \<longleftrightarrow> m = MP_Timeout"
  by (cases m) auto

lemma from_mempage_not_codec [simp]: "from_mempage m \<noteq> Codec_failed"
  by (cases m) auto

section \<open>sub0tieredcache::remote::Status\<close>

datatype remote_status =
    R_Ok
  | R_Invalid_argument | R_Out_of_range
  | R_Connect_failed | R_Send_failed | R_Timeout | R_Truncated | R_Server_error
  | R_Unexpected_status | R_Bad_content_range | R_Unsupported_response
  | R_Source_changed | R_Size_mismatch
  | R_Retries_exhausted
  | R_Not_found | R_Corrupt | R_Publish_failed | R_Io_error

fun is_transient :: "remote_status \<Rightarrow> bool" where
  "is_transient R_Connect_failed = True"
| "is_transient R_Send_failed = True"
| "is_transient R_Timeout = True"
| "is_transient R_Truncated = True"
| "is_transient R_Server_error = True"
| "is_transient _ = False"

lemma ok_not_transient [simp]: "is_transient s \<Longrightarrow> s \<noteq> R_Ok"
  by auto

end
