(* ===== verification/Table_Config.thy ===== *)
theory Table_Config
  imports Codec Cache_Status
begin

text \<open>
  Registration (row_cache.hpp): \<open>TableConfig\<close> with its enums, the checks of \<open>Table::create\<close>, the
  slot width for aligned fills, the location a row resolves to and the window and the chunks a
  fill reads. Widths, counts and offsets keep their C++ widths, so every wrap-around of the
  source is present. \<open>size_t\<close> and \<open>uintptr_t\<close> are 64 bits wide.
\<close>

section \<open>Data\<close>

datatype representation = Identity | Bf16_to_f32 | Custom

datatype row_extent = Exact | Bounded

text \<open>\<open>sub0mempage::SourceId\<close> and \<open>sub0mempage::ByteRange\<close>, as the code uses them.\<close>

type_synonym source_id = u64

record byte_range =
  br_offset :: u64
  br_length :: u64

record shard_source =
  sh_source :: source_id
  sh_bytes :: u64

record row_location =
  loc_shard :: u32
  loc_range :: byte_range

text \<open>\<open>RowExtentResolverRef\<close>: the caller's function; a default-constructed one is \<open>None\<close>.\<close>

type_synonym resolver = "u64 \<Rightarrow> status + row_location"

definition single_source :: "source_id \<Rightarrow> u64 \<Rightarrow> shard_source list" where
  "single_source source bytes = [\<lparr>sh_source = source, sh_bytes = bytes\<rparr>]"

text \<open>
  The storage spans are caller memory: the address (for the alignment check) and the size are
  configuration, the contents belong to the state of the running table.
\<close>

record table_config =
  c_row_count :: u64
  c_source_row_bytes :: u64
  c_row_extent :: row_extent
  c_fill_chunk_bytes :: u64
  c_fill_alignment :: u64
  c_output_row_bytes :: u64
  c_representation :: representation
  c_codec :: "codec option"
  c_sources :: "shard_source list"
  c_generation :: u64
  c_resolve_extent :: "resolver option"
  c_output_addr :: u64
  c_output_size :: u64
  c_budget_rows :: u32
  c_scratch_size :: u64
  c_scratch_rows :: u32
  c_max_tickets :: u32
  c_max_batch_rows :: u32

text \<open>\<open>Table::NONE\<close>, \<open>UINT32_MAX\<close>; and \<open>SIZE_MAX\<close>.\<close>

definition NONE :: u32 where "NONE = 0xFFFFFFFF"
definition SIZE_MAX :: u64 where "SIZE_MAX = 0xFFFFFFFFFFFFFFFF"

section \<open>Registration checks\<close>

definition aligned_slot_bytes :: "u64 \<Rightarrow> u64 \<Rightarrow> u64" where
  "aligned_slot_bytes row_bytes alignment =
     (row_bytes + 2 * alignment - 2) div alignment * alignment"

text \<open>The representation switch of \<open>create\<close>; \<open>None\<close> means the pairing is supported.\<close>

definition representation_check :: "table_config \<Rightarrow> status option" where
  "representation_check config =
     (case c_representation config of
        Identity \<Rightarrow>
          (if c_output_row_bytes config \<noteq>
              (if c_fill_alignment config \<noteq> 0
               then aligned_slot_bytes (c_source_row_bytes config) (c_fill_alignment config)
               else c_source_row_bytes config)
           then Some Unsupported_conversion else None)
      | Bf16_to_f32 \<Rightarrow>
          (if c_source_row_bytes config mod 2 \<noteq> 0 \<or>
              c_output_row_bytes config \<noteq> c_source_row_bytes config * 2
           then Some Unsupported_conversion else None)
      | Custom \<Rightarrow> (if c_codec config = None then Some Invalid_argument else None))"

text \<open>
  The checks of \<open>Table::create\<close> in the order the code makes them, up to the construction of the
  table: the status it refuses with, or \<open>None\<close>.
\<close>

definition create_check :: "table_config \<Rightarrow> status option" where
  "create_check config =
     (if c_row_count config = 0 \<or> c_source_row_bytes config = 0 \<or> c_output_row_bytes config = 0 \<or>
         c_sources config = [] \<or> c_budget_rows config = 0 \<or> c_max_tickets config = 0 \<or>
         c_max_batch_rows config = 0 \<or> c_budget_rows config \<ge> NONE \<or> c_max_tickets config \<ge> NONE \<or>
         c_resolve_extent config = None
      then Some Invalid_argument
      else if (\<exists>shard \<in> set (c_sources config). sh_bytes shard = 0) then Some Invalid_argument
      else if (ucast (c_max_batch_rows config) :: u64) > SIZE_MAX div ucast (c_max_tickets config) \<or>
              (ucast (c_max_batch_rows config) :: u64) * ucast (c_max_tickets config) \<ge> ucast NONE
      then Some Invalid_argument
      else case representation_check config of
        Some error \<Rightarrow> Some error
      | None \<Rightarrow>
          if c_output_row_bytes config > SIZE_MAX div ucast (c_budget_rows config) \<or>
             c_output_size config \<noteq> c_output_row_bytes config * ucast (c_budget_rows config)
          then Some Invalid_argument
          else if c_row_extent config = Bounded \<and> c_representation config \<noteq> Identity
          then Some Unsupported_conversion
          else if c_fill_chunk_bytes config \<noteq> 0 \<and> c_representation config \<noteq> Identity
          then Some Unsupported_conversion
          else if c_fill_alignment config \<noteq> 0 \<and> c_representation config \<noteq> Identity
          then Some Unsupported_conversion
          else if c_fill_alignment config \<noteq> 0 \<and>
                  (\<not> has_single_bit (c_fill_alignment config) \<or>
                   c_output_addr config mod c_fill_alignment config \<noteq> 0 \<or>
                   c_fill_chunk_bytes config mod c_fill_alignment config \<noteq> 0)
          then Some Invalid_argument
          else if c_representation config \<noteq> Identity \<and>
                  (c_scratch_rows config = 0 \<or>
                   c_source_row_bytes config > SIZE_MAX div ucast (c_scratch_rows config) \<or>
                   c_scratch_size config \<noteq> c_source_row_bytes config * ucast (c_scratch_rows config))
          then Some Invalid_argument
          else None)"

lemma refuse_None: "(if c then Some e else r) = None \<longleftrightarrow> \<not> c \<and> r = None"
  by simp

lemma create_check_None:
  "create_check config = None \<longleftrightarrow>
     (c_row_count config \<noteq> 0 \<and> c_source_row_bytes config \<noteq> 0 \<and> c_output_row_bytes config \<noteq> 0 \<and>
      c_sources config \<noteq> [] \<and> c_budget_rows config \<noteq> 0 \<and> c_max_tickets config \<noteq> 0 \<and>
      c_max_batch_rows config \<noteq> 0 \<and> c_budget_rows config < NONE \<and> c_max_tickets config < NONE \<and>
      c_resolve_extent config \<noteq> None) \<and>
     (\<forall>shard \<in> set (c_sources config). sh_bytes shard \<noteq> 0) \<and>
     ((ucast (c_max_batch_rows config) :: u64) \<le> SIZE_MAX div ucast (c_max_tickets config) \<and>
      (ucast (c_max_batch_rows config) :: u64) * ucast (c_max_tickets config) < ucast NONE) \<and>
     representation_check config = None \<and>
     (c_output_row_bytes config \<le> SIZE_MAX div ucast (c_budget_rows config) \<and>
      c_output_size config = c_output_row_bytes config * ucast (c_budget_rows config)) \<and>
     (c_representation config \<noteq> Identity \<longrightarrow>
        c_row_extent config = Exact \<and> c_fill_chunk_bytes config = 0 \<and> c_fill_alignment config = 0 \<and>
        c_scratch_rows config \<noteq> 0 \<and>
        c_source_row_bytes config \<le> SIZE_MAX div ucast (c_scratch_rows config) \<and>
        c_scratch_size config = c_source_row_bytes config * ucast (c_scratch_rows config)) \<and>
     (c_fill_alignment config \<noteq> 0 \<longrightarrow>
        has_single_bit (c_fill_alignment config) \<and> c_output_addr config mod c_fill_alignment config = 0 \<and>
        c_fill_chunk_bytes config mod c_fill_alignment config = 0)"
proof (cases "representation_check config")
  case None
  have extent: "c_row_extent config = Bounded \<longleftrightarrow> c_row_extent config \<noteq> Exact"
    by (cases "c_row_extent config") simp_all
  show ?thesis
    unfolding create_check_def None option.case refuse_None de_Morgan_disj de_Morgan_conj not_le not_less
      not_not bex_simps extent
    by blast
qed (simp add: create_check_def)

lemma create_checkD:
  assumes "create_check config = None"
  shows "c_budget_rows config \<noteq> 0" and "c_budget_rows config < NONE" and "c_row_count config \<noteq> 0"
    and "c_source_row_bytes config \<noteq> 0" and "c_output_row_bytes config \<noteq> 0"
    and "c_max_tickets config \<noteq> 0" and "c_max_batch_rows config \<noteq> 0"
    and "representation_check config = None"
  using assms unfolding create_check_None by blast+

text \<open>\<open>chunks_per_row_\<close> as the constructor computes it, truncated to 32 bits by the cast.\<close>

definition chunks_per_row_of :: "table_config \<Rightarrow> u32" where
  "chunks_per_row_of config =
     (let fill_bytes = (if c_fill_alignment config \<noteq> 0 then c_output_row_bytes config
                        else c_source_row_bytes config)
      in if c_fill_chunk_bytes config \<noteq> 0 \<and> c_fill_chunk_bytes config < fill_bytes
         then ucast ((fill_bytes + c_fill_chunk_bytes config - 1) div c_fill_chunk_bytes config)
         else 1)"

definition active_codec_of :: "table_config \<Rightarrow> codec option" where
  "active_codec_of config =
     (case c_representation config of
        Identity \<Rightarrow> None
      | Bf16_to_f32 \<Rightarrow> Some bf16_to_f32_convert
      | Custom \<Rightarrow> c_codec config)"

section \<open>Where a row lives and what a fill reads\<close>

text \<open>The checks \<open>start_fill_locked\<close> makes of the resolver's answer (its four refusals).\<close>

definition resolve_location :: "table_config \<Rightarrow> shard_source list \<Rightarrow> resolver \<Rightarrow> u64 \<Rightarrow>
    status + row_location" where
  "resolve_location config sources resolve row_index =
     (case resolve row_index of
        Inl error \<Rightarrow> Inl error
      | Inr location \<Rightarrow>
          let shard = unat (loc_shard location); rng = loc_range location in
          if shard \<ge> length sources then Inl Out_of_range
          else if \<not> (if c_row_extent config = Bounded
                     then br_length rng \<noteq> 0 \<and> br_length rng \<le> c_source_row_bytes config
                     else br_length rng = c_source_row_bytes config)
          then Inl Invalid_argument
          else if br_offset rng > sh_bytes (sources ! shard) \<or>
                  br_length rng > sh_bytes (sources ! shard) - br_offset rng
          then Inl Out_of_range
          else Inr location)"

text \<open>The window that is read into the slot, and \<open>head\<close>, where the row starts in it.\<close>

definition fill_window :: "u64 \<Rightarrow> u64 \<Rightarrow> byte_range \<Rightarrow> byte_range \<times> u64" where
  "fill_window alignment source_bytes rng =
     (if alignment \<noteq> 0 then
        let start = br_offset rng div alignment * alignment;
            end' = min ((br_offset rng + br_length rng + alignment - 1) div alignment * alignment)
                       source_bytes
        in (\<lparr>br_offset = start, br_length = end' - start\<rparr>, br_offset rng - start)
      else (rng, 0))"

text \<open>
  The chunk loop \<open>for (at = 0; at < fill.length; at += fill_chunk_bytes)\<close>: the offset and the
  length of each read.
\<close>

function chunk_reads :: "nat \<Rightarrow> nat \<Rightarrow> nat \<Rightarrow> (nat \<times> nat) list" where
  "chunk_reads chunk at len =
     (if chunk = 0 \<or> len \<le> at then [] else (at, min chunk (len - at)) # chunk_reads chunk (at + chunk) len)"
  by pat_completeness auto
termination
  by (relation "measure (\<lambda>(chunk, at, len). len - at)") auto

declare chunk_reads.simps [simp del]

lemma chunk_reads_Nil: "chunk_reads chunk at len = [] \<longleftrightarrow> chunk = 0 \<or> len \<le> at"
  by (subst chunk_reads.simps) simp

lemma chunk_reads_Cons:
  "0 < chunk \<Longrightarrow> at < len \<Longrightarrow>
     chunk_reads chunk at len = (at, min chunk (len - at)) # chunk_reads chunk (at + chunk) len"
  by (subst chunk_reads.simps) simp

text \<open>The reads cover the window exactly, in order, without gap or overlap.\<close>

lemma chunk_reads_tile:
  "0 < chunk \<Longrightarrow> concat (map (\<lambda>(at, len). [at ..< at + len]) (chunk_reads chunk at len)) = [at ..< len]"
proof (induction chunk at len rule: chunk_reads.induct)
  case (1 chunk at len)
  show ?case
  proof (cases "at < len")
    case True
    have "[at ..< at + min chunk (len - at)] @ [at + chunk ..< len] = [at ..< len]"
    proof (cases "chunk \<le> len - at")
      case True
      then show ?thesis using \<open>at < len\<close> upt_add_eq_append [of at "at + chunk" "len - (at + chunk)"] by simp
    next
      case False
      then show ?thesis using \<open>at < len\<close> by simp
    qed
    then show ?thesis using 1 True by (simp add: chunk_reads_Cons)
  qed (simp add: chunk_reads.simps [of chunk at len])
qed

lemma chunk_reads_bound: "(a, n) \<in> set (chunk_reads chunk at len) \<Longrightarrow> 0 < n \<and> n \<le> chunk"
proof (induction chunk at len rule: chunk_reads.induct)
  case (1 chunk at len)
  show ?case
  proof (cases "chunk = 0 \<or> len \<le> at")
    case True
    then show ?thesis using "1.prems" by (simp add: chunk_reads.simps [of chunk at len])
  next
    case False
    then show ?thesis using 1 by (auto simp: chunk_reads_Cons)
  qed
qed

lemma chunk_reads_length:
  "0 < chunk \<Longrightarrow> length (chunk_reads chunk at len) = (len - at + chunk - 1) div chunk"
proof (induction chunk at len rule: chunk_reads.induct)
  case (1 chunk at len)
  show ?case
  proof (cases "at < len")
    case True
    have "length (chunk_reads chunk at len) = Suc ((len - (at + chunk) + chunk - 1) div chunk)"
      using 1 True by (simp add: chunk_reads_Cons)
    also have "\<dots> = (len - at + chunk - 1) div chunk"
    proof (cases "at + chunk \<le> len")
      case True
      then have "len - at + chunk - 1 = (len - (at + chunk) + chunk - 1) + chunk" using 1(2) by linarith
      then show ?thesis using 1(2) by (simp only: div_add_self2)
    next
      case False
      then have "len - (at + chunk) + chunk - 1 = chunk - 1" by simp
      moreover have "(len - at + chunk - 1) div chunk = (len - at - 1 + chunk) div chunk" using \<open>at < len\<close> by simp
      moreover have "len - at - 1 < chunk" using False \<open>at < len\<close> by linarith
      ultimately show ?thesis using 1(2) by (simp only: div_add_self2) simp
    qed
    finally show ?thesis .
  next
    case False
    then show ?thesis using 1(2) by (simp add: chunk_reads.simps [of chunk at len])
  qed
qed

section \<open>Sizes\<close>

lemma unat_SIZE_MAX: "unat SIZE_MAX = 2 ^ 64 - 1"
  by (simp add: SIZE_MAX_def)

text \<open>The guard \<open>a > SIZE_MAX / b\<close> keeps the product \<open>a * b\<close> below the wrap-around.\<close>

lemma size_guard:
  assumes "(a :: u64) \<le> SIZE_MAX div b" and "b \<noteq> 0"
  shows "unat (a * b) = unat a * unat b"
proof -
  have b: "0 < unat b" using assms(2) by (simp add: unat_gt_0)
  have "unat a \<le> (2 ^ 64 - 1) div unat b"
    using assms(1) unat_SIZE_MAX by (simp add: word_le_nat_alt unat_div_distrib)
  then have "unat a * unat b \<le> 2 ^ 64 - 1"
    using b by (metis div_times_less_eq_dividend le_trans mult_le_mono1)
  then show ?thesis by (simp add: unat_word_ariths(2))
qed

lemma unat_ucast_budget [simp]: "unat (ucast (x :: u32) :: u64) = unat x"
  using unat_u32 [of x] by (simp add: unsigned_ucast_eq take_bit_nat_eq_self)

lemma create_check_sizes:
  assumes "create_check cfg = None"
  shows "unat (c_output_size cfg) = unat (c_output_row_bytes cfg) * unat (c_budget_rows cfg)"
    and "c_representation cfg \<noteq> Identity \<Longrightarrow>
           unat (c_scratch_size cfg) = unat (c_source_row_bytes cfg) * unat (c_scratch_rows cfg)"
    and "unat (c_max_batch_rows cfg) * unat (c_max_tickets cfg) < unat NONE"
proof -
  note c = assms [unfolded create_check_None]
  have ne: "(ucast x :: u64) \<noteq> 0" if "x \<noteq> 0" for x :: u32
    using that by (metis unat_ucast_budget unat_eq_0)
  show "unat (c_output_size cfg) = unat (c_output_row_bytes cfg) * unat (c_budget_rows cfg)"
    using size_guard [of "c_output_row_bytes cfg" "ucast (c_budget_rows cfg)"] c ne by simp
  show "unat (c_scratch_size cfg) = unat (c_source_row_bytes cfg) * unat (c_scratch_rows cfg)"
    if "c_representation cfg \<noteq> Identity"
    using size_guard [of "c_source_row_bytes cfg" "ucast (c_scratch_rows cfg)"] c ne that by simp
  show "unat (c_max_batch_rows cfg) * unat (c_max_tickets cfg) < unat NONE"
    using size_guard [of "ucast (c_max_batch_rows cfg)" "ucast (c_max_tickets cfg)"] c ne
    by (simp add: word_less_nat_alt)
qed

section \<open>The aligned window\<close>

lemma round_up_ge: "0 < (a :: nat) \<Longrightarrow> x \<le> (x + a - 1) div a * a"
proof -
  assume a: "0 < a"
  have "(x + a - 1) div a * a + (x + a - 1) mod a = x + a - 1" by simp
  moreover have "(x + a - 1) mod a \<le> a - 1" using a mod_less_divisor [OF a, of "x + a - 1"] by linarith
  ultimately show ?thesis using a by linarith
qed

lemma unat_round_down: "unat ((x :: u64) div a * a) = unat x div unat a * unat a"
proof -
  have "unat x div unat a * unat a < 2 ^ 64"
    using div_times_less_eq_dividend [of "unat x" "unat a"] unat_u64 [of x] by (rule le_less_trans)
  then show ?thesis by (simp add: unat_word_ariths(2) unat_div_distrib)
qed

lemma unat_round_up:
  assumes "unat x + unat a \<le> 2 ^ 64" and "a \<noteq> (0 :: u64)"
  shows "unat ((x + a - 1) div a * a) = (unat x + unat a - 1) div unat a * unat a"
proof -
  have a: "0 < unat a" using assms(2) by (simp add: unat_gt_0)
  have assoc: "x + a - 1 = x + (a - 1)" by (rule add_diff_eq [symmetric])
  have "unat (a - 1) = unat a - 1" using assms(2) by (simp add: unat_minus_one)
  moreover have "unat (x + (a - 1)) = (unat x + unat (a - 1)) mod 2 ^ 64"
    by (simp add: unat_word_ariths(1))
  ultimately have "unat (x + a - 1) = unat x + unat a - 1"
    unfolding assoc using assms(1) a by simp
  then show ?thesis by (simp add: unat_round_down)
qed

lemma fill_window_covers:
  assumes win: "fill_window alignment source_bytes rng = (w, head)" and "alignment \<noteq> 0"
    and inside: "unat (br_offset rng) + unat (br_length rng) \<le> unat source_bytes"
    and room: "unat source_bytes + unat alignment \<le> 2 ^ 64"
  shows "unat (br_offset w) + unat head = unat (br_offset rng)" and "unat head < unat alignment"
    and "unat (br_offset w) mod unat alignment = 0"
    and "unat head + unat (br_length rng) \<le> unat (br_length w)"
    and "unat (br_offset w) + unat (br_length w) \<le> unat source_bytes"
    and "unat (br_length w) \<le> (unat (br_length rng) + 2 * unat alignment - 2) div unat alignment * unat alignment"
proof -
  let ?o = "unat (br_offset rng)" and ?l = "unat (br_length rng)" and ?a = "unat alignment"
  define start where "start = br_offset rng div alignment * alignment"
  define stop where "stop = min ((br_offset rng + br_length rng + alignment - 1) div alignment * alignment) source_bytes"
  have a: "0 < ?a" using assms(2) by (simp add: unat_gt_0)
  have sum: "unat (br_offset rng + br_length rng) = ?o + ?l"
    using le_less_trans [OF inside unat_u64] by (simp add: unat_word_ariths(1))
  have up: "unat ((br_offset rng + br_length rng + alignment - 1) div alignment * alignment) = (?o + ?l + ?a - 1) div ?a * ?a"
    using unat_round_up [of "br_offset rng + br_length rng" alignment] assms(2) inside room sum by simp
  have st: "unat start = ?o div ?a * ?a" by (simp add: start_def unat_round_down)
  have sp: "unat stop = min ((?o + ?l + ?a - 1) div ?a * ?a) (unat source_bytes)"
    unfolding stop_def up [symmetric] by (simp add: min_def word_le_nat_alt)
  have le: "unat start \<le> ?o" "?o + ?l \<le> unat stop" "unat stop \<le> unat source_bytes"
    using inside round_up_ge [OF a, of "?o + ?l"] by (simp_all add: st sp)
  have w: "w = \<lparr>br_offset = start, br_length = stop - start\<rparr>" "head = br_offset rng - start"
    using win assms(2) by (auto simp: fill_window_def Let_def start_def stop_def)
  have d1: "unat head = ?o - unat start" using le by (simp add: w word_le_nat_alt unat_sub)
  have d2: "unat (stop - start) = unat stop - unat start" using le by (simp add: word_le_nat_alt unat_sub)
  have rem: "?o - unat start < ?a" using a by (simp add: st minus_div_mult_eq_mod)
  show "unat (br_offset w) + unat head = ?o" using le d1 by (simp add: w(1))
  show "unat head < ?a" using rem d1 by simp
  show "unat (br_offset w) mod ?a = 0" by (simp add: w(1) st)
  show "unat head + ?l \<le> unat (br_length w)" using le d1 d2 by (simp add: w(1))
  show "unat (br_offset w) + unat (br_length w) \<le> unat source_bytes" using le d2 by (simp add: w(1))
  define k where "k = (?o + ?l + ?a - 1) div ?a - ?o div ?a"
  have "k * ?a = (?o + ?l + ?a - 1) div ?a * ?a - ?o div ?a * ?a" by (simp add: k_def diff_mult_distrib)
  moreover have "(?o + ?l + ?a - 1) div ?a * ?a \<le> ?o + ?l + ?a - 1" by (rule div_times_less_eq_dividend)
  ultimately have k: "k * ?a \<le> ?l + 2 * ?a - 2" using rem [unfolded st] a by linarith
  have "unat stop - unat start \<le> k * ?a" by (simp add: st sp k_def diff_mult_distrib min.coboundedI1 diff_le_mono)
  also have "\<dots> \<le> (?l + 2 * ?a - 2) div ?a * ?a"
    by (rule mult_le_mono1) (use k less_eq_div_iff_mult_less_eq [OF a] in blast)
  finally show "unat (br_length w) \<le> (?l + 2 * ?a - 2) div ?a * ?a" using d2 by (simp add: w(1))
qed

section \<open>What registration and the fill plan guarantee\<close>

text \<open>
  A configuration that \<open>create\<close> accepts has storage of exactly the right size, computed without wrap-around: every
  slot of the output storage lies inside it, and so does every scratch row when the representation converts.
\<close>

theorem create_check_storage:
  assumes "create_check cfg = None"
  shows "(\<forall>i < unat (c_budget_rows cfg).
        i * unat (c_output_row_bytes cfg) + unat (c_output_row_bytes cfg) \<le> unat (c_output_size cfg)) \<and>
     (c_representation cfg \<noteq> Identity \<longrightarrow> (\<forall>i < unat (c_scratch_rows cfg).
        i * unat (c_source_row_bytes cfg) + unat (c_source_row_bytes cfg) \<le> unat (c_scratch_size cfg)))"
proof -
  have fits: "i * w + w \<le> w * n" if "i < n" for i w n :: nat
  proof -
    have "(i + 1) * w \<le> n * w" using that by (intro mult_right_mono) simp_all
    then show ?thesis by (simp add: mult.commute)
  qed
  show ?thesis using create_check_sizes [OF assms] fits by simp
qed

definition plain_config :: table_config where
  "plain_config = \<lparr>c_row_count = 4, c_source_row_bytes = 4, c_row_extent = Exact, c_fill_chunk_bytes = 0,
     c_fill_alignment = 0, c_output_row_bytes = 4, c_representation = Identity, c_codec = None,
     c_sources = single_source 7 16, c_generation = 1, c_resolve_extent = Some (\<lambda>row. Inl Out_of_range),
     c_output_addr = 0, c_output_size = 8, c_budget_rows = 2, c_scratch_size = 0, c_scratch_rows = 0,
     c_max_tickets = 2, c_max_batch_rows = 2\<rparr>"

theorem create_check_storage_witness:
  "create_check plain_config = None \<and> 1 * unat (c_output_row_bytes plain_config) + 4 \<le> unat (c_output_size plain_config)"
proof -
  have ok: "create_check plain_config = None"
    by (simp add: create_check_def plain_config_def representation_check_def single_source_def SIZE_MAX_def NONE_def)
  have "1 < unat (c_budget_rows plain_config)" "unat (c_output_row_bytes plain_config) = 4"
    by (simp_all add: plain_config_def)
  with create_check_storage [OF ok] ok show ?thesis by auto
qed

text \<open>
  C21. The aligned window of a fill contains the row and nothing outside the source: it starts at a multiple of the alignment,
  the row lies \<open>head\<close> bytes into it, it ends inside the source, and it is no longer than the slot width \<open>create\<close> demands for the
  row, computed without wrap-around. This holds for sources that leave room for one more alignment below \<open>2 ^ 64\<close>.
\<close>

theorem fill_window_contains_row:
  assumes "fill_window alignment source_bytes rng = (w, head)" and "alignment \<noteq> 0"
    and "unat (br_offset rng) + unat (br_length rng) \<le> unat source_bytes"
    and "unat source_bytes + unat alignment \<le> 2 ^ 64"
  shows "unat (br_offset w) + unat head = unat (br_offset rng) \<and>
     unat (br_offset w) mod unat alignment = 0 \<and>
     unat head + unat (br_length rng) \<le> unat (br_length w) \<and>
     unat (br_offset w) + unat (br_length w) \<le> unat source_bytes \<and>
     unat (br_length w) \<le> (unat (br_length rng) + 2 * unat alignment - 2) div unat alignment * unat alignment"
  using fill_window_covers [OF assms] by blast

theorem fill_window_contains_row_witness:
  "fill_window 4096 10000 \<lparr>br_offset = 5000, br_length = 100\<rparr> = (\<lparr>br_offset = 4096, br_length = 4096\<rparr>, 904) \<and>
   unat (4096 :: u64) + unat (904 :: u64) = 5000"
proof -
  have w: "fill_window 4096 10000 \<lparr>br_offset = 5000, br_length = 100\<rparr> = (\<lparr>br_offset = 4096, br_length = 4096\<rparr>, 904)"
    by (simp add: fill_window_def)
  from fill_window_contains_row [OF w] w show ?thesis by simp
qed

text \<open>
  The chunked reads of one row tile its window: in order, without gap or overlap, each of at most the chunk size, and
  their number is the rounded-up quotient that sizes \<open>chunk_claims\<close>.
\<close>

lemma chunk_reads_exact:
  assumes "0 < chunk"
  shows "concat (map (\<lambda>(at, n). [at ..< at + n]) (chunk_reads chunk 0 len)) = [0 ..< len] \<and>
     (\<forall>(at, n) \<in> set (chunk_reads chunk 0 len). 0 < n \<and> n \<le> chunk) \<and>
     length (chunk_reads chunk 0 len) = (len + chunk - 1) div chunk"
  using chunk_reads_tile [OF assms, of 0 len] chunk_reads_length [OF assms, of 0 len]
    chunk_reads_bound [of _ _ chunk 0 len] by auto

lemma chunk_reads_exact_sample:
  "concat (map (\<lambda>(at, n). [at ..< at + n]) (chunk_reads 4 0 10)) = [0 ..< 10] \<and> length (chunk_reads 4 0 10) = 3"
  using chunk_reads_exact [of 4 10] by simp

end
