(* ===== verification/Row_Index.thy ===== *)
theory Row_Index
  imports Cache_Prelude
begin

text \<open>
  The row index of \<open>Table\<close> (row_cache.hpp, \<open>index_home\<close>, \<open>index_find\<close>, \<open>index_insert\<close>,
  \<open>index_erase\<close>): open addressing over \<open>(row_index, generation)\<close> with linear probing and
  backward-shift deletion. A cell is \<open>None\<close> where the code has \<open>NONE\<close>, else the slot number;
  the key of a cell is read through the slot, so the operations take the key of every slot as a
  function. The interface \<open>index_map\<close> states the map laws the slot lifecycle relies on; it is
  interpreted on the code's definitions at the end.
\<close>

type_synonym row_key = "u64 \<times> u64"
type_synonym index_vec = "nat option list"

section \<open>Definitions\<close>

text \<open>The splitmix64-style hash of \<open>index_home\<close>, before the final shift.\<close>

definition index_hash :: "u64 \<Rightarrow> u64 \<Rightarrow> u64" where
  "index_hash row_index generation =
     (let h = row_index + 0x9E3779B97F4A7C15;
          h = (h XOR drop_bit 30 h) * 0xBF58476D1CE4E5B9;
          h = h XOR (generation + 0x9E3779B97F4A7C15);
          h = (h XOR drop_bit 27 h) * 0x94D049BB133111EB
      in h XOR drop_bit 31 h)"

definition index_home :: "nat \<Rightarrow> row_key \<Rightarrow> nat" where
  "index_home index_shift k = unat (drop_bit index_shift (index_hash (fst k) (snd k)))"

text \<open>
  The probing loops \<open>pos = (pos + 1) & mask\<close>. \<open>probe\<close> returns the first position at which the
  loop's exit condition holds; \<open>None\<close> is a loop that made a full round without exit, which
  \<open>probe_find_exits\<close> and its companions exclude for the table's own calls.
\<close>

fun probe :: "nat \<Rightarrow> (nat option \<Rightarrow> bool) \<Rightarrow> index_vec \<Rightarrow> nat \<Rightarrow> nat option" where
  "probe 0 stop index pos = None"
| "probe (Suc fuel) stop index pos =
     (if stop (index ! pos) then Some pos
      else probe fuel stop index ((pos + 1) mod length index))"

definition find_stop :: "(nat \<Rightarrow> row_key) \<Rightarrow> row_key \<Rightarrow> nat option \<Rightarrow> bool" where
  "find_stop keys k c = (case c of None \<Rightarrow> True | Some slot \<Rightarrow> keys slot = k)"

definition index_find :: "nat \<Rightarrow> (nat \<Rightarrow> row_key) \<Rightarrow> index_vec \<Rightarrow> row_key \<Rightarrow> nat option" where
  "index_find index_shift keys index k =
     (case probe (length index) (find_stop keys k) index (index_home index_shift k) of
        None \<Rightarrow> None
      | Some pos \<Rightarrow> index ! pos)"

definition index_insert :: "nat \<Rightarrow> index_vec \<Rightarrow> row_key \<Rightarrow> nat \<Rightarrow> index_vec" where
  "index_insert index_shift index k slot =
     (case probe (length index) (\<lambda>c. c = None) index (index_home index_shift k) of
        None \<Rightarrow> index
      | Some pos \<Rightarrow> index[pos := Some slot])"

text \<open>The second loop of \<open>index_erase\<close>: later members of the cluster move into the hole.\<close>

fun erase_shift :: "nat \<Rightarrow> (nat \<Rightarrow> nat) \<Rightarrow> index_vec \<Rightarrow> nat \<Rightarrow> nat \<Rightarrow> index_vec option" where
  "erase_shift 0 home index hole pos = None"
| "erase_shift (Suc fuel) home index hole pos =
     (case index ! pos of
        None \<Rightarrow> Some (index[hole := None])
      | Some slot \<Rightarrow>
          (if cyc_dist (length index) hole pos \<le> cyc_dist (length index) (home slot) pos
           then erase_shift fuel home (index[hole := Some slot]) pos ((pos + 1) mod length index)
           else erase_shift fuel home index hole ((pos + 1) mod length index)))"

definition key_stop :: "(nat \<Rightarrow> row_key) \<Rightarrow> row_key \<Rightarrow> nat option \<Rightarrow> bool" where
  "key_stop keys k c = (case c of None \<Rightarrow> False | Some slot \<Rightarrow> keys slot = k)"

definition index_erase :: "nat \<Rightarrow> (nat \<Rightarrow> row_key) \<Rightarrow> index_vec \<Rightarrow> row_key \<Rightarrow> index_vec" where
  "index_erase index_shift keys index k =
     (case probe (length index) (key_stop keys k) index (index_home index_shift k) of
        None \<Rightarrow> index
      | Some hole \<Rightarrow>
          (case erase_shift (length index) (\<lambda>slot. index_home index_shift (keys slot)) index hole
                  ((hole + 1) mod length index) of
             None \<Rightarrow> index
           | Some index' \<Rightarrow> index'))"

section \<open>The abstraction: the slots an index holds, and its invariant\<close>

definition entries :: "index_vec \<Rightarrow> nat set" where
  "entries index = {s. Some s \<in> set index}"

text \<open>
  \<open>probe_path home index p s\<close>: the cells from the home of \<open>s\<close> up to \<open>p\<close> are all occupied, so
  a probe for the key of \<open>s\<close> reaches \<open>p\<close>.
\<close>

definition probe_path :: "(nat \<Rightarrow> nat) \<Rightarrow> index_vec \<Rightarrow> nat \<Rightarrow> nat \<Rightarrow> bool" where
  "probe_path home index p s \<longleftrightarrow>
     (\<forall>q < length index. cyc_dist (length index) (home s) q < cyc_dist (length index) (home s) p
        \<longrightarrow> index ! q \<noteq> None)"

definition index_invar :: "nat \<Rightarrow> (nat \<Rightarrow> row_key) \<Rightarrow> index_vec \<Rightarrow> bool" where
  "index_invar index_shift keys index \<longleftrightarrow>
     index_shift < 64 \<and> length index = 2 ^ (64 - index_shift) \<and> None \<in> set index \<and>
     (\<forall>p < length index. \<forall>q < length index. \<forall>s.
        index ! p = Some s \<longrightarrow> index ! q = Some s \<longrightarrow> p = q) \<and>
     inj_on keys (entries index) \<and>
     (\<forall>p < length index. \<forall>s. index ! p = Some s \<longrightarrow>
        probe_path (\<lambda>s. index_home index_shift (keys s)) index p s)"

section \<open>Probing\<close>

lemma index_home_bound: "index_shift < 64 \<Longrightarrow> index_home index_shift k < 2 ^ (64 - index_shift)"
proof -
  assume sh: "index_shift < 64"
  let ?h = "index_hash (fst k) (snd k)"
  have "unat ?h < 2 ^ (64 - index_shift) * 2 ^ index_shift"
    using unsigned_less [of ?h] sh by (simp flip: power_add)
  then have "unat ?h div 2 ^ index_shift < 2 ^ (64 - index_shift)"
    by (simp add: less_mult_imp_div_less)
  then show ?thesis
    unfolding index_home_def unat_drop_bit_eq by (simp add: drop_bit_eq_div)
qed

lemma probe_hits:
  assumes "pos < length index" and "i < fuel" and "i < length index"
    and "stop (index ! ((pos + i) mod length index))"
    and "\<And>j. j < i \<Longrightarrow> \<not> stop (index ! ((pos + j) mod length index))"
  shows "probe fuel stop index pos = Some ((pos + i) mod length index)"
  using assms
proof (induction fuel arbitrary: i pos)
  case (Suc fuel)
  show ?case
  proof (cases i)
    case 0
    with Suc.prems show ?thesis by simp
  next
    case (Suc i')
    let ?pos = "(pos + 1) mod length index"
    have shift: "(?pos + j) mod length index = (pos + Suc j) mod length index" for j
      by (simp add: mod_simps)
    have "\<not> stop (index ! pos)"
      using Suc.prems(1) Suc.prems(5) [of 0] Suc by simp
    moreover have "probe fuel stop index ?pos = Some ((?pos + i') mod length index)"
    proof (rule Suc.IH)
      show "?pos < length index" using Suc.prems(1) by (intro mod_less_divisor) auto
      show "i' < fuel" "i' < length index" using Suc.prems Suc by auto
      show "stop (index ! ((?pos + i') mod length index))"
        using Suc.prems(4) Suc by (simp only: shift)
      show "\<not> stop (index ! ((?pos + j) mod length index))" if "j < i'" for j
        unfolding shift by (rule Suc.prems(5)) (use that Suc in simp)
    qed
    ultimately show ?thesis by (simp only: probe.simps shift Suc) simp
  qed
qed simp

text \<open>A walk from \<open>pos\<close> meets every cell within one round; the first hit is what \<open>probe\<close> returns.\<close>

lemma probe_first:
  assumes "pos < length index" and "q < length index" and "stop (index ! q)"
    and "\<And>r. r < length index \<Longrightarrow> cyc_dist (length index) pos r < cyc_dist (length index) pos q \<Longrightarrow>
           \<not> stop (index ! r)"
  shows "probe (length index) stop index pos = Some q"
proof -
  let ?n = "length index" and ?i = "cyc_dist (length index) pos q"
  have q: "(pos + ?i) mod ?n = q" using assms(1,2) by (rule cyc_step_dist)
  have i: "?i < ?n" using assms(1) by (intro cyc_dist_less) auto
  have "probe ?n stop index pos = Some ((pos + ?i) mod ?n)"
  proof (rule probe_hits)
    show "stop (index ! ((pos + ?i) mod ?n))" using assms(3) by (simp only: q)
    show "\<not> stop (index ! ((pos + j) mod ?n))" if "j < ?i" for j
    proof (rule assms(4))
      show "(pos + j) mod ?n < ?n" using assms(1) by (intro mod_less_divisor) auto
      show "cyc_dist ?n pos ((pos + j) mod ?n) < ?i"
        using that i assms(1) by (simp add: cyc_dist_step)
    qed
  qed (use assms(1) i in auto)
  then show ?thesis by (simp only: q)
qed

text \<open>If any cell satisfies the exit condition, the walk exits, at the nearest such cell.\<close>

lemma probe_exits:
  assumes "pos < length index" and "q < length index" and "stop (index ! q)"
  obtains p where "probe (length index) stop index pos = Some p" and "p < length index"
    and "stop (index ! p)"
    and "\<And>r. r < length index \<Longrightarrow> cyc_dist (length index) pos r < cyc_dist (length index) pos p \<Longrightarrow>
           \<not> stop (index ! r)"
proof -
  let ?n = "length index"
  let ?P = "\<lambda>p. p < ?n \<and> stop (index ! p)"
  obtain p where p: "?P p" and least: "\<And>r. ?P r \<Longrightarrow> cyc_dist ?n pos p \<le> cyc_dist ?n pos r"
    using exists_least_iff [of "\<lambda>m. \<exists>p. ?P p \<and> cyc_dist ?n pos p = m"] assms(2,3)
    by (metis linorder_not_le)
  have none: "\<not> stop (index ! r)" if "r < ?n" "cyc_dist ?n pos r < cyc_dist ?n pos p" for r
    using least [of r] that by auto
  from p have "probe ?n stop index pos = Some p"
    by (intro probe_first assms(1) none) auto
  with p none show ?thesis by (intro that) auto
qed

section \<open>Facts of the invariant\<close>

lemma invar_home:
  "index_invar sh keys index \<Longrightarrow> index_home sh k < length index"
  using index_home_bound by (auto simp: index_invar_def)

lemma invar_unique:
  "index_invar sh keys index \<Longrightarrow> p < length index \<Longrightarrow> q < length index \<Longrightarrow>
     index ! p = Some s \<Longrightarrow> index ! q = Some s \<Longrightarrow> p = q"
  by (auto simp: index_invar_def)

lemma invar_inj:
  "index_invar sh keys index \<Longrightarrow> s \<in> entries index \<Longrightarrow> s' \<in> entries index \<Longrightarrow>
     keys s = keys s' \<Longrightarrow> s = s'"
  by (auto simp: index_invar_def dest: inj_onD)

lemma invar_path:
  "index_invar sh keys index \<Longrightarrow> p < length index \<Longrightarrow> index ! p = Some s \<Longrightarrow>
     q < length index \<Longrightarrow>
     cyc_dist (length index) (index_home sh (keys s)) q
       < cyc_dist (length index) (index_home sh (keys s)) p \<Longrightarrow> index ! q \<noteq> None"
  by (auto simp: index_invar_def probe_path_def)

lemma invar_None:
  assumes "index_invar sh keys index"
  obtains q where "q < length index" and "index ! q = None"
  using assms by (auto simp: index_invar_def in_set_conv_nth)

lemma entries_cell: "s \<in> entries index \<longleftrightarrow> (\<exists>p < length index. index ! p = Some s)"
  by (auto simp: entries_def in_set_conv_nth)

lemma finite_entries [simp]: "finite (entries index)"
proof -
  have "entries index \<subseteq> the ` set index"
    by (force simp: entries_def)
  then show ?thesis by (rule finite_subset) simp
qed

text \<open>An index with pairwise different cells and no free cell holds as many slots as cells.\<close>

lemma full_index_card:
  assumes "None \<notin> set index"
    and "\<And>p q s. p < length index \<Longrightarrow> q < length index \<Longrightarrow> index ! p = Some s \<Longrightarrow>
           index ! q = Some s \<Longrightarrow> p = q"
  shows "card (entries index) = length index"
proof -
  have "distinct index"
    unfolding distinct_conv_nth using assms by (metis not_Some_eq nth_mem)
  moreover have "entries index = the ` set index"
    using assms(1) unfolding entries_def image_def
    by auto (metis option.sel, metis option.exhaust_sel)
  moreover have "inj_on the (set index)"
    using assms(1) by (intro inj_onI) (metis option.expand)
  ultimately show ?thesis
    by (simp add: card_image distinct_card)
qed

section \<open>index_find\<close>

lemma probe_find_exits:
  assumes "index_invar sh keys index"
  obtains p where
    "probe (length index) (find_stop keys k) index (index_home sh k) = Some p"
    "p < length index" "find_stop keys k (index ! p)"
proof -
  obtain q where q: "q < length index" "index ! q = None" using invar_None [OF assms] .
  have "find_stop keys k (index ! q)" by (simp add: q(2) find_stop_def)
  from probe_exits [where stop = "find_stop keys k", OF invar_home [OF assms] q(1) this] that
  show thesis by blast
qed

lemma index_find_cell:
  assumes inv: "index_invar sh keys index" and p: "p < length index" "index ! p = Some s"
  shows "index_find sh keys index (keys s) = Some s"
proof -
  have "probe (length index) (find_stop keys (keys s)) index (index_home sh (keys s)) = Some p"
  proof (rule probe_first [OF invar_home [OF inv] p(1)])
    show "find_stop keys (keys s) (index ! p)" by (simp add: find_stop_def p(2))
    fix r assume r: "r < length index"
      and d: "cyc_dist (length index) (index_home sh (keys s)) r
                < cyc_dist (length index) (index_home sh (keys s)) p"
    obtain s' where s': "index ! r = Some s'"
      using invar_path [OF inv p r d] by auto
    have "keys s' \<noteq> keys s"
    proof
      assume "keys s' = keys s"
      with s' r p have "s' = s" by (intro invar_inj [OF inv]) (auto simp: entries_cell)
      with s' r p have "r = p" by (intro invar_unique [OF inv]) auto
      with d show False by simp
    qed
    then show "\<not> find_stop keys (keys s) (index ! r)" by (simp add: find_stop_def s')
  qed
  then show ?thesis by (simp add: index_find_def p(2))
qed

lemma index_find_iff:
  assumes "index_invar sh keys index"
  shows "index_find sh keys index k = Some s \<longleftrightarrow> s \<in> entries index \<and> keys s = k"
proof
  assume "s \<in> entries index \<and> keys s = k"
  then show "index_find sh keys index k = Some s"
    using index_find_cell [OF assms] by (auto simp: entries_cell)
next
  assume f: "index_find sh keys index k = Some s"
  obtain p where "probe (length index) (find_stop keys k) index (index_home sh k) = Some p"
    "p < length index" "find_stop keys k (index ! p)"
    using probe_find_exits [OF assms] .
  with f show "s \<in> entries index \<and> keys s = k"
    by (auto simp: index_find_def find_stop_def entries_cell)
qed

section \<open>index_insert\<close>

lemma entries_update_None:
  "p < length index \<Longrightarrow> index ! p = None \<Longrightarrow> entries (index[p := Some s]) = insert s (entries index)"
  by (auto simp: entries_cell nth_list_update split: if_splits) (metis option.distinct(1))+

lemma index_insert_result:
  assumes inv: "index_invar sh keys index" and s: "s \<notin> entries index"
    and fresh: "\<And>s'. s' \<in> entries index \<Longrightarrow> keys s' \<noteq> keys s"
    and room: "Suc (card (entries index)) < length index"
  shows "entries (index_insert sh index (keys s) s) = insert s (entries index)
       \<and> index_invar sh keys (index_insert sh index (keys s) s)"
proof -
  obtain q where q: "q < length index" "index ! q = None" using invar_None [OF inv] .
  obtain p where pr: "probe (length index) (\<lambda>c. c = None) index (index_home sh (keys s)) = Some p"
    and p: "p < length index" "index ! p = None"
    and before: "\<And>r. r < length index \<Longrightarrow>
        cyc_dist (length index) (index_home sh (keys s)) r
          < cyc_dist (length index) (index_home sh (keys s)) p \<Longrightarrow> index ! r \<noteq> None"
    using probe_exits [OF invar_home [OF inv] q(1), where stop = "\<lambda>c. c = None"] q(2) by metis
  let ?index = "index[p := Some s]"
  have ins: "index_insert sh index (keys s) s = ?index" by (simp add: index_insert_def pr)
  have ent: "entries ?index = insert s (entries index)" by (rule entries_update_None [OF p])
  have uniq: "a = b"
    if "a < length index" "b < length index" "?index ! a = Some x" "?index ! b = Some x" for a b x
    using that s p(1) invar_unique [OF inv, of a b x]
    by (auto simp: nth_list_update entries_cell split: if_splits)
  have "None \<in> set ?index"
  proof (rule ccontr)
    assume "None \<notin> set ?index"
    from full_index_card [OF this] uniq have "card (entries ?index) = length index" by auto
    with room s show False by (simp add: ent)
  qed
  moreover have "inj_on keys (entries ?index)"
    unfolding ent using inv fresh [symmetric] fresh
    by (simp add: index_invar_def inj_on_insert image_iff)
  moreover have "probe_path (\<lambda>s. index_home sh (keys s)) ?index a x"
    if a: "a < length index" "?index ! a = Some x" for a x
  proof (cases "a = p")
    case True
    with a p before show ?thesis by (auto simp: probe_path_def nth_list_update)
  next
    case False
    with a have "index ! a = Some x" by simp
    with invar_path [OF inv a(1)] p(1) show ?thesis
      by (auto simp: probe_path_def nth_list_update)
  qed
  ultimately have "index_invar sh keys ?index"
    using inv uniq by (auto simp: index_invar_def)
  with ent ins show ?thesis by simp
qed

section \<open>index_erase: backward-shift deletion\<close>

text \<open>
  The state of the shifting loop: \<open>hole\<close> still physically holds the entry that is being erased
  (or was just copied forward); \<open>pos\<close> is the cell under inspection. Every other entry keeps its
  probe path, where the hole counts as occupied, and the entries strictly between the hole and
  \<open>pos\<close> do not need the hole on their path.
\<close>

definition shift_inv :: "(nat \<Rightarrow> nat) \<Rightarrow> index_vec \<Rightarrow> nat \<Rightarrow> nat \<Rightarrow> bool" where
  "shift_inv home A hole pos \<longleftrightarrow>
     hole < length A \<and> pos < length A \<and> hole \<noteq> pos \<and> A ! hole \<noteq> None \<and>
     (\<forall>p < length A. \<forall>q < length A. \<forall>s. p \<noteq> hole \<longrightarrow> q \<noteq> hole \<longrightarrow>
        A ! p = Some s \<longrightarrow> A ! q = Some s \<longrightarrow> p = q) \<and>
     (\<forall>p < length A. \<forall>s. p \<noteq> hole \<longrightarrow> A ! p = Some s \<longrightarrow> probe_path home A p s) \<and>
     (\<forall>r < length A. 0 < cyc_dist (length A) hole r \<longrightarrow>
        cyc_dist (length A) hole r < cyc_dist (length A) hole pos \<longrightarrow>
        (\<exists>s. A ! r = Some s \<and> cyc_dist (length A) (home s) r < cyc_dist (length A) hole r))"

lemma shift_inv_bounds:
  assumes "shift_inv home A hole pos"
  shows "hole < length A" and "pos < length A" and "hole \<noteq> pos" and "A ! hole \<noteq> None"
  using assms by (simp_all add: shift_inv_def)

lemma shift_inv_unique:
  assumes "shift_inv home A hole pos" and "p < length A" and "q < length A"
    and "p \<noteq> hole" and "q \<noteq> hole" and "A ! p = Some s" and "A ! q = Some s"
  shows "p = q"
  using assms unfolding shift_inv_def by blast

lemma shift_inv_path:
  assumes "shift_inv home A hole pos" and "p < length A" and "p \<noteq> hole" and "A ! p = Some s"
    and "q < length A" and "cyc_dist (length A) (home s) q < cyc_dist (length A) (home s) p"
  shows "A ! q \<noteq> None"
  using assms unfolding shift_inv_def probe_path_def by blast

lemma shift_inv_passed:
  assumes "shift_inv home A hole pos" and "r < length A" and "r \<noteq> hole"
    and "cyc_dist (length A) hole r < cyc_dist (length A) hole pos"
  obtains s where "A ! r = Some s"
    and "cyc_dist (length A) (home s) r < cyc_dist (length A) hole r"
proof -
  have "0 < cyc_dist (length A) hole r"
    using assms shift_inv_bounds [OF assms(1)] by (simp add: cyc_dist_0 zero_less_iff_neq_zero)
  with assms that show thesis unfolding shift_inv_def by blast
qed

definition outside :: "index_vec \<Rightarrow> nat \<Rightarrow> nat set" where
  "outside A hole = {s. \<exists>p < length A. p \<noteq> hole \<and> A ! p = Some s}"

lemma cyc_dist_next:
  assumes "h < n" and "p < n" and "(p + 1) mod n \<noteq> h"
  shows "cyc_dist n h ((p + 1) mod n) = Suc (cyc_dist n h p)"
proof -
  have "(p + 1) mod n < n" using assms by (intro mod_less_divisor) auto
  with assms show ?thesis by (auto simp: cyc_dist_if mod_if split: if_splits)
qed

lemma shift_inv_next_neq_hole:
  assumes inv: "shift_inv home A hole pos" and "A ! pos \<noteq> None"
    and q: "q < length A" "A ! q = None"
  shows "(pos + 1) mod length A \<noteq> hole"
proof
  assume wrap: "(pos + 1) mod length A = hole"
  note h = shift_inv_bounds [OF inv]
  have ne: "q \<noteq> pos" "q \<noteq> hole" using assms(2) q(2) h(4) by metis+
  have "cyc_dist (length A) hole q \<le> cyc_dist (length A) hole pos"
    using cyc_dist_pred [OF h(2)] cyc_dist_less [of "length A" hole q] h unfolding wrap by linarith
  moreover have "cyc_dist (length A) hole q \<noteq> cyc_dist (length A) hole pos"
    using h q(1) ne by (simp add: cyc_dist_inj)
  ultimately obtain s where "A ! q = Some s"
    using shift_inv_passed [OF inv q(1) ne(2)] by (metis le_neq_implies_less)
  with q(2) show False by simp
qed

lemma shift_inv_move:
  assumes inv: "shift_inv home A hole pos" and s: "A ! pos = Some s"
    and q: "q < length A" "A ! q = None" and hs: "home s < length A"
    and move: "cyc_dist (length A) hole pos \<le> cyc_dist (length A) (home s) pos"
  shows "shift_inv home (A[hole := Some s]) pos ((pos + 1) mod length A)"
    and "outside (A[hole := Some s]) pos = outside A hole"
proof -
  let ?n = "length A" and ?A = "A[hole := Some s]"
  note h = shift_inv_bounds [OF inv] and uniq = shift_inv_unique [OF inv]
    and path = shift_inv_path [OF inv]
  have on: "cyc_dist ?n (home s) hole < cyc_dist ?n (home s) pos"
    using cyc_on_path [OF hs h(1,2)] h(3) move by simp
  have pn: "(pos + 1) mod ?n < ?n" using h by (intro mod_less_divisor) auto
  have "pos \<noteq> (pos + 1) mod ?n"
    using h(1-3) by (auto simp: mod_if)
  moreover have "probe_path home ?A a x" if "a < ?n" "a \<noteq> pos" "?A ! a = Some x" for a x
  proof (cases "a = hole")
    case True
    with that h have [simp]: "x = s" by simp
    show ?thesis unfolding probe_path_def
      using True h(1-3) on path [OF h(2) _ s] by (auto simp: nth_list_update intro: less_trans)
  next
    case False
    with that have "A ! a = Some x" by simp
    from path [OF that(1) False this] h(1) show ?thesis
      by (auto simp: probe_path_def nth_list_update)
  qed
  moreover have "a = b"
    if "a < ?n" "b < ?n" "a \<noteq> pos" "b \<noteq> pos" "?A ! a = Some x" "?A ! b = Some x" for a b x
    using that h(1-3) s uniq [of a b x] uniq [of a pos x] uniq [of b pos x]
    by (auto simp: nth_list_update split: if_splits)
  moreover have "cyc_dist ?n pos ((pos + 1) mod ?n) \<le> 1"
    using h(1-3) by (subst cyc_dist_step) auto
  ultimately show "shift_inv home ?A pos ((pos + 1) mod ?n)"
    unfolding shift_inv_def using h s pn by (simp del: One_nat_def)
  show "outside ?A pos = outside A hole"
  proof (intro set_eqI iffI)
    fix x assume "x \<in> outside ?A pos"
    then obtain p where "p < ?n" "p \<noteq> pos" "?A ! p = Some x" by (auto simp: outside_def)
    then show "x \<in> outside A hole"
      using h(1-3) s by (cases "p = hole") (auto simp: outside_def)
  next
    fix x assume "x \<in> outside A hole"
    then obtain p where p: "p < ?n" "p \<noteq> hole" "A ! p = Some x" by (auto simp: outside_def)
    show "x \<in> outside ?A pos"
    proof (cases "p = pos")
      case True
      with p s h(1,3) show ?thesis unfolding outside_def by (auto intro!: exI [of _ hole])
    next
      case False
      with p show ?thesis unfolding outside_def by (auto intro!: exI [of _ p])
    qed
  qed
qed

lemma shift_inv_skip:
  assumes inv: "shift_inv home A hole pos" and s: "A ! pos = Some s"
    and q: "q < length A" "A ! q = None"
    and skip: "cyc_dist (length A) (home s) pos < cyc_dist (length A) hole pos"
  shows "shift_inv home A hole ((pos + 1) mod length A)"
proof -
  let ?n = "length A"
  note h = shift_inv_bounds(1,2) [OF inv]
  have ne: "(pos + 1) mod ?n \<noteq> hole"
    by (rule shift_inv_next_neq_hole [OF inv _ q]) (simp add: s)
  have "\<exists>x. A ! r = Some x \<and> cyc_dist ?n (home x) r < cyc_dist ?n hole r"
    if "r < ?n" "0 < cyc_dist ?n hole r" "cyc_dist ?n hole r < Suc (cyc_dist ?n hole pos)" for r
  proof (cases "r = pos")
    case True
    with s skip show ?thesis by simp
  next
    case False
    with that h have "cyc_dist ?n hole r < cyc_dist ?n hole pos"
      by (metis cyc_dist_inj less_SucE)
    with inv that show ?thesis unfolding shift_inv_def by blast
  qed
  moreover have "(pos + 1) mod ?n < ?n" using h by (intro mod_less_divisor) auto
  ultimately show ?thesis
    using inv ne unfolding shift_inv_def cyc_dist_next [OF h ne] by simp
qed

lemma shift_inv_done:
  assumes inv: "shift_inv home A hole pos" and None: "A ! pos = None"
    and home: "\<And>s. home s < length A" and p: "p < length A" "A[hole := None] ! p = Some s"
  shows "probe_path home (A[hole := None]) p s"
  unfolding probe_path_def length_list_update
proof (intro allI impI)
  let ?n = "length A"
  note h = shift_inv_bounds(1-3) [OF inv]
  from p h have ps: "p \<noteq> hole" "A ! p = Some s" by (auto simp: nth_list_update split: if_splits)
  note path = shift_inv_path [OF inv p(1) ps]
  fix q assume q: "q < ?n" "cyc_dist ?n (home s) q < cyc_dist ?n (home s) p"
  have "q \<noteq> hole"
  proof
    assume "q = hole"
    with q have on: "cyc_dist ?n (home s) hole < cyc_dist ?n (home s) p" by simp
    show False
    proof (cases "cyc_dist ?n hole p < cyc_dist ?n hole pos")
      case True
      with ps have "cyc_dist ?n (home s) p < cyc_dist ?n hole p"
        using shift_inv_passed [OF inv p(1)] by (metis option.inject)
      with cyc_on_path [OF home h(1) p(1)] ps(1) on show False by (metis not_le)
    next
      case False
      have "p \<noteq> pos" using None ps(2) by auto
      with False h p(1) have "cyc_dist ?n hole pos < cyc_dist ?n hole p"
        by (metis cyc_dist_inj linorder_neqE_nat)
      from cyc_between [OF home h(1,2) p(1) on this] path [OF h(2)] None show False by simp
    qed
  qed
  with path [OF q] show "A[hole := None] ! q \<noteq> None" by simp
qed

lemma outside_done: "hole < length A \<Longrightarrow> entries (A[hole := None]) = outside A hole"
  by (auto simp: outside_def entries_cell nth_list_update split: if_splits)

text \<open>The loop returns within the distance to a free cell, and what it returns is an index again.\<close>

lemma erase_shift_result:
  assumes "shift_inv home A hole pos" and "\<And>s. home s < length A"
    and "q < length A" and "A ! q = None" and "cyc_dist (length A) pos q < fuel"
  shows "\<exists>A'. erase_shift fuel home A hole pos = Some A' \<and> length A' = length A
           \<and> entries A' = outside A hole \<and> None \<in> set A'
           \<and> (\<forall>p < length A. \<forall>p' < length A. \<forall>s. A' ! p = Some s \<longrightarrow> A' ! p' = Some s \<longrightarrow> p = p')
           \<and> (\<forall>p < length A. \<forall>s. A' ! p = Some s \<longrightarrow> probe_path home A' p s)"
  using assms
proof (induction fuel arbitrary: A hole pos)
  case (Suc fuel)
  note inv = Suc.prems(1)
  let ?n = "length A" and ?next = "(pos + 1) mod length A"
  note h = shift_inv_bounds(1,2,4) [OF inv]
  show ?case
  proof (cases "A ! pos")
    case None
    have "p = p'" if "p < ?n" "p' < ?n" "A[hole := None] ! p = Some s" "A[hole := None] ! p' = Some s"
      for p p' s
      using shift_inv_unique [OF inv, of p p' s] that h(1) by (auto simp: nth_list_update split: if_splits)
    with None shift_inv_done [OF inv None Suc.prems(2)] h show ?thesis
      by (simp add: outside_done set_update_memI)
  next
    case (Some s)
    with Suc.prems(4) have ne: "q \<noteq> pos" by auto
    then have near: "cyc_dist ?n ?next q < fuel"
      using Suc.prems(3,5) cyc_dist_Suc [OF h(2) Suc.prems(3) ne] by simp
    show ?thesis
    proof (cases "cyc_dist ?n hole pos \<le> cyc_dist ?n (home s) pos")
      case True
      note step = shift_inv_move [OF inv Some Suc.prems(3,4,2) True]
      have "A[hole := Some s] ! q = None" using Suc.prems(4) h(3) by (cases "q = hole") auto
      with Suc.IH [OF step(1)] Suc.prems(2,3) near Some True show ?thesis
        by (simp add: step(2))
    next
      case False
      with shift_inv_skip [OF inv Some Suc.prems(3,4)]
      have "shift_inv home A hole ?next" by simp
      from Suc.IH [OF this Suc.prems(2-4) near] Some False show ?thesis by simp
    qed
  qed
qed simp

lemma index_erase_result:
  assumes inv: "index_invar sh keys index" and s: "s \<in> entries index"
  shows "entries (index_erase sh keys index (keys s)) = entries index - {s}
       \<and> index_invar sh keys (index_erase sh keys index (keys s))"
proof -
  let ?n = "length index" and ?home = "\<lambda>s. index_home sh (keys s)"
  obtain hole where hole: "hole < ?n" "index ! hole = Some s"
    using s by (auto simp: entries_cell)
  obtain q where q: "q < ?n" "index ! q = None" using invar_None [OF inv] .
  have home: "?home s < ?n" for s by (rule invar_home [OF inv])
  let ?next = "(hole + 1) mod ?n"
  have next_less: "?next < ?n" using hole by (intro mod_less_divisor) auto
  have "hole \<noteq> q" using hole(2) q(2) by auto
  then have "hole \<noteq> ?next" using hole(1) q(1) by (cases "hole + 1 = ?n") auto
  have pr: "probe ?n (key_stop keys (keys s)) index (?home s) = Some hole"
  proof (rule probe_first [OF home hole(1)])
    show "key_stop keys (keys s) (index ! hole)" by (simp add: key_stop_def hole(2))
    fix r assume r: "r < ?n" "cyc_dist ?n (?home s) r < cyc_dist ?n (?home s) hole"
    show "\<not> key_stop keys (keys s) (index ! r)"
    proof
      assume "key_stop keys (keys s) (index ! r)"
      then obtain s' where s': "index ! r = Some s'" "keys s' = keys s"
        by (auto simp: key_stop_def split: option.splits)
      with r hole have "s' = s" by (intro invar_inj [OF inv]) (auto simp: entries_cell)
      with s' r hole have "r = hole" by (intro invar_unique [OF inv]) auto
      with r show False by simp
    qed
  qed
  have "shift_inv ?home index hole ?next"
    unfolding shift_inv_def probe_path_def
    using hole next_less \<open>hole \<noteq> ?next\<close> invar_unique [OF inv] invar_path [OF inv]
      cyc_dist_step [OF hole(1), of 1] cyc_dist_less [of ?n hole ?next]
    by (simp add: cyc_dist_next)
  from erase_shift_result [OF this home q] cyc_dist_less [of ?n ?next q] hole
  obtain A' where A': "erase_shift ?n ?home index hole ?next = Some A'" "length A' = ?n"
    "entries A' = outside index hole" "None \<in> set A'"
    "\<forall>p < ?n. \<forall>p' < ?n. \<forall>s. A' ! p = Some s \<longrightarrow> A' ! p' = Some s \<longrightarrow> p = p'"
    "\<forall>p < ?n. \<forall>s. A' ! p = Some s \<longrightarrow> probe_path ?home A' p s"
    by (metis gr_zeroI less_nat_zero_code)
  have er: "index_erase sh keys index (keys s) = A'"
    using A'(1) by (simp add: index_erase_def pr)
  have out: "outside index hole = entries index - {s}"
    using hole invar_unique [OF inv] unfolding outside_def
    by (auto simp: entries_cell) (metis option.inject)
  have "inj_on keys (entries index - {s})"
    using inv by (auto simp: index_invar_def intro: inj_on_subset)
  with inv A' er out show ?thesis by (simp add: index_invar_def)
qed

lemma index_insert_length [simp]: "length (index_insert sh index k s) = length index"
  by (simp add: index_insert_def split: option.splits)

lemma index_invar_length: "index_invar sh keys index \<Longrightarrow> length index = 2 ^ (64 - sh)"
  by (simp add: index_invar_def)

lemma index_erase_length:
  "index_invar sh keys index \<Longrightarrow> s \<in> entries index \<Longrightarrow>
     length (index_erase sh keys index (keys s)) = length index"
  using index_erase_result [of sh keys index s] index_invar_length by metis

lemma index_invar_cong:
  assumes "\<And>s. s \<in> entries index \<Longrightarrow> keys s = keys' s"
  shows "index_invar sh keys index = index_invar sh keys' index"
proof -
  have "inj_on keys (entries index) = inj_on keys' (entries index)"
    using assms by (rule inj_on_cong)
  moreover have "probe_path (\<lambda>s. index_home sh (keys s)) index p s
               = probe_path (\<lambda>s. index_home sh (keys' s)) index p s"
    if "p < length index" "index ! p = Some s" for p s
  proof -
    have "keys s = keys' s" using that assms [of s] by (auto simp: entries_cell)
    then show ?thesis by (simp add: probe_path_def)
  qed
  ultimately show ?thesis unfolding index_invar_def by (simp cong: imp_cong)
qed

section \<open>The interface: a map from keys to slots\<close>

text \<open>
  What the slot lifecycle relies on, whatever the index's layout: \<open>find\<close> returns exactly the
  indexed slot with the key, insertion and erasure change the set of indexed slots by one, and
  the invariant looks at the keys of indexed slots only (a slot that is not indexed may be
  given a new key).
\<close>

locale index_map =
  fixes invar :: "(nat \<Rightarrow> 'k) \<Rightarrow> 'i \<Rightarrow> bool"
    and members :: "'i \<Rightarrow> nat set"
    and cells :: "'i \<Rightarrow> nat"
    and find :: "(nat \<Rightarrow> 'k) \<Rightarrow> 'i \<Rightarrow> 'k \<Rightarrow> nat option"
    and ins :: "'i \<Rightarrow> 'k \<Rightarrow> nat \<Rightarrow> 'i"
    and del :: "(nat \<Rightarrow> 'k) \<Rightarrow> 'i \<Rightarrow> 'k \<Rightarrow> 'i"
  assumes find_iff: "invar keys i \<Longrightarrow> find keys i k = Some s \<longleftrightarrow> s \<in> members i \<and> keys s = k"
    and ins_members: "invar keys i \<Longrightarrow> s \<notin> members i \<Longrightarrow> (\<And>s'. s' \<in> members i \<Longrightarrow> keys s' \<noteq> keys s)
          \<Longrightarrow> Suc (card (members i)) < cells i \<Longrightarrow> members (ins i (keys s) s) = insert s (members i)"
    and ins_invar: "invar keys i \<Longrightarrow> s \<notin> members i \<Longrightarrow> (\<And>s'. s' \<in> members i \<Longrightarrow> keys s' \<noteq> keys s)
          \<Longrightarrow> Suc (card (members i)) < cells i \<Longrightarrow> invar keys (ins i (keys s) s)"
    and del_members: "invar keys i \<Longrightarrow> s \<in> members i \<Longrightarrow> members (del keys i (keys s)) = members i - {s}"
    and del_invar: "invar keys i \<Longrightarrow> s \<in> members i \<Longrightarrow> invar keys (del keys i (keys s))"
    and invar_keys: "(\<And>s. s \<in> members i \<Longrightarrow> keys s = keys' s) \<Longrightarrow> invar keys i = invar keys' i"
begin

lemma find_None: "invar keys i \<Longrightarrow> find keys i k = None \<longleftrightarrow> (\<forall>s \<in> members i. keys s \<noteq> k)"
  using find_iff [of keys i k] by (metis option.exhaust option.distinct(1))

lemma find_after_ins:
  assumes "invar keys i" and "find keys i (keys s) = None" and "s \<notin> members i"
    and "Suc (card (members i)) < cells i"
  shows "find keys (ins i (keys s) s) = (find keys i)(keys s \<mapsto> s)"
proof
  fix k
  have fresh: "s' \<in> members i \<Longrightarrow> keys s' \<noteq> keys s" for s'
    using assms(1,2) find_None by auto
  note inv' = ins_invar [OF assms(1,3) fresh assms(4)]
    and mem' = ins_members [OF assms(1,3) fresh assms(4)]
  show "find keys (ins i (keys s) s) k = ((find keys i)(keys s \<mapsto> s)) k"
  proof (cases "k = keys s")
    case True
    then show ?thesis using find_iff [OF inv'] mem' by simp
  next
    case False
    then have "find keys (ins i (keys s) s) k = Some x \<longleftrightarrow> find keys i k = Some x" for x
      using find_iff [OF inv'] find_iff [OF assms(1)] mem' by auto
    with False show ?thesis by (metis fun_upd_other option.exhaust)
  qed
qed

lemma find_after_del:
  assumes "invar keys i" and "s \<in> members i"
  shows "find keys (del keys i (keys s)) = (find keys i)(keys s := None)"
proof
  fix k
  note inv' = del_invar [OF assms] and mem' = del_members [OF assms]
  have "find keys (del keys i (keys s)) k = Some x \<longleftrightarrow> k \<noteq> keys s \<and> find keys i k = Some x" for x
    using find_iff [OF inv'] find_iff [OF assms(1)] mem' assms
    by (metis DiffD1 DiffD2 DiffI insertI1 option.inject singletonD)
  then show "find keys (del keys i (keys s)) k = ((find keys i)(keys s := None)) k"
    by (metis fun_upd_apply option.exhaust)
qed

text \<open>Giving an unindexed slot a new key changes neither the invariant nor any lookup.\<close>

lemma rekey_invar: "s \<notin> members i \<Longrightarrow> invar (keys(s := k)) i = invar keys i"
  by (rule invar_keys) auto

lemma rekey_find:
  assumes "invar keys i" and "s \<notin> members i"
  shows "find (keys(s := k)) i k' = find keys i k'"
proof -
  have "invar (keys(s := k)) i" using assms by (simp add: rekey_invar)
  then have "find (keys(s := k)) i k' = Some x \<longleftrightarrow> find keys i k' = Some x" for x
    using find_iff assms by auto
  then show ?thesis by (metis option.exhaust)
qed

end

interpretation ri: index_map "index_invar sh" entries length "index_find sh" "index_insert sh"
    "index_erase sh" for sh
proof
  show "index_find sh keys i k = Some s \<longleftrightarrow> s \<in> entries i \<and> keys s = k"
    if "index_invar sh keys i" for keys i k s
    using that by (rule index_find_iff)
  show "entries (index_insert sh i (keys s) s) = insert s (entries i)"
    "index_invar sh keys (index_insert sh i (keys s) s)"
    if "index_invar sh keys i" "s \<notin> entries i" "\<And>s'. s' \<in> entries i \<Longrightarrow> keys s' \<noteq> keys s"
      "Suc (card (entries i)) < length i" for keys i s
    using index_insert_result [OF that(1,2) _ that(4)] that(3) by blast+
  show "entries (index_erase sh keys i (keys s)) = entries i - {s}"
    "index_invar sh keys (index_erase sh keys i (keys s))"
    if "index_invar sh keys i" "s \<in> entries i" for keys i s
    using index_erase_result [OF that] by blast+
  show "index_invar sh keys i = index_invar sh keys' i"
    if "\<And>s. s \<in> entries i \<Longrightarrow> keys s = keys' s" for keys keys' i
    using that by (rule index_invar_cong)
qed

text \<open>A fresh index: \<open>index_\<close> as the constructor builds it, all cells \<open>NONE\<close>.\<close>

lemma entries_fresh [simp]: "entries (replicate n None) = {}"
  by (simp add: entries_def)

lemma index_invar_fresh:
  "sh < 64 \<Longrightarrow> index_invar sh keys (replicate (2 ^ (64 - sh)) None)"
  by (simp add: index_invar_def)

section \<open>The index is a map\<close>

lemma fresh_invar: "index_invar 62 keys (replicate 4 None)"
  using index_invar_fresh [of 62 keys] by simp

text \<open>
  C16. Insertion into the open-addressed index is a map update: for an absent key and a table with room the probe finds
  a cell, the invariant is kept, the new key maps to its slot and every other key maps to what it did before.
\<close>

theorem index_insert_is_update:
  assumes "index_invar sh keys index" and "index_find sh keys index (keys s) = None" and "s \<notin> entries index"
    and "Suc (card (entries index)) < length index"
  shows "index_invar sh keys (index_insert sh index (keys s) s) \<and>
     index_find sh keys (index_insert sh index (keys s) s) = (index_find sh keys index)(keys s \<mapsto> s)"
proof -
  have "\<And>s'. s' \<in> entries index \<Longrightarrow> keys s' \<noteq> keys s" using ri.find_None [OF assms(1)] assms(2) by blast
  then show ?thesis using ri.ins_invar [OF assms(1,3) _ assms(4)] ri.find_after_ins [OF assms] by blast
qed

theorem index_insert_is_update_witness:
  "index_find 62 (\<lambda>s. (of_nat s, 1)) (index_insert 62 (replicate 4 None) (of_nat 1, 1) 1) (1, 1) = Some 1"
proof -
  have "index_find 62 (\<lambda>s. (of_nat s, 1)) (replicate 4 None) (of_nat 1, 1) = None"
    using ri.find_None [OF fresh_invar] by simp
  from index_insert_is_update [OF fresh_invar this] show ?thesis by simp
qed

text \<open>
  C17. Backward-shift deletion is a map deletion: erasing the key of an indexed slot ends, keeps the invariant (so no
  probe sequence is broken and no tombstone is left), removes that key and leaves every other lookup as it was.
\<close>

theorem index_erase_is_delete:
  assumes "index_invar sh keys index" and "s \<in> entries index"
  shows "index_invar sh keys (index_erase sh keys index (keys s)) \<and>
     entries (index_erase sh keys index (keys s)) = entries index - {s} \<and>
     index_find sh keys (index_erase sh keys index (keys s)) = (index_find sh keys index)(keys s := None)"
  using ri.del_invar [OF assms] ri.del_members [OF assms] ri.find_after_del [OF assms] by blast

theorem index_erase_is_delete_witness:
  "entries (index_erase 62 (\<lambda>s. (of_nat s, 1)) (index_insert 62 (replicate 4 None) (of_nat 1, 1) 1) (of_nat 1, 1)) = {}"
proof -
  let ?keys = "\<lambda>s. (of_nat s, 1) :: row_key" and ?ix = "index_insert 62 (replicate 4 None) (of_nat 1, 1) 1"
  have "index_invar 62 ?keys ?ix \<and> entries ?ix = insert 1 (entries (replicate 4 None))"
    using ri.ins_invar [OF fresh_invar, of 1 ?keys] ri.ins_members [OF fresh_invar, of 1 ?keys] by simp
  then show ?thesis using index_erase_is_delete [of 62 ?keys ?ix 1] by simp
qed

text \<open>
  C18. A lookup always ends: within one round over the table the probe meets the key or a free cell, and what it returns is
  exactly the slot that is indexed under the key, if there is one.
\<close>

theorem index_find_ends:
  assumes "index_invar sh keys index"
  shows "(\<exists>p < length index. probe (length index) (find_stop keys k) index (index_home sh k) = Some p) \<and>
     (\<forall>s. index_find sh keys index k = Some s \<longleftrightarrow> s \<in> entries index \<and> keys s = k)"
  using probe_find_exits [OF assms, of k] ri.find_iff [OF assms] by metis

theorem index_find_ends_witness:
  "\<exists>p < length (replicate 4 None :: index_vec).
     probe 4 (find_stop (\<lambda>s. (of_nat s, 1)) (3, 1)) (replicate 4 None) (index_home 62 (3, 1)) = Some p"
  using index_find_ends [OF fresh_invar, of "\<lambda>s. (of_nat s, 1)" "(3, 1)"] by simp

end
