(* ===== verification/Table_Model.thy ===== *)
theory Table_Model
  imports Table_Config Row_Index
begin

text \<open>
  \<open>Table\<close> of row_cache.hpp: its state and its operations. Everything that runs under \<open>lock_\<close> is a
  function from table to table; what runs outside the lock is split off so that other threads'
  steps can be put in between (\<open>Table_System\<close>). Slot numbers are naturals and \<open>NONE\<close> is \<open>None\<close>
  (\<open>create\<close> refuses a budget of \<open>NONE\<close> rows or more). Epochs, ticket generations, row indices,
  generations and widths keep their C++ width; reference counts and statistics are naturals.
\<close>

section \<open>The world outside: transport and memory\<close>

text \<open>
  \<open>sub0mempage::TransferSet\<close> and \<open>sub0mempage::Claim\<close> are not part of this repository: they are a
  parameter. \<open>'m\<close> is the state of the transport together with the memory it writes into; transfer
  sets and claims are handles. \<open>tp_output\<close> reads the table's output storage, \<open>tp_put\<close> is a store
  into it (by a codec).
\<close>

type_synonym transfer_set = nat
type_synonym claim = nat
type_synonym deadline = "nat option"

datatype storage = Output_storage | Scratch_storage

record 'm transport =
  tp_create :: "source_id \<Rightarrow> u64 \<Rightarrow> storage \<Rightarrow> u32 \<Rightarrow> 'm \<Rightarrow> (mp_status + transfer_set) \<times> 'm"
  tp_submit :: "transfer_set \<Rightarrow> byte_range \<Rightarrow> u64 \<Rightarrow> 'm \<Rightarrow> (mp_status + claim) \<times> 'm"
  tp_wait :: "claim \<Rightarrow> deadline \<Rightarrow> 'm \<Rightarrow> mp_status \<times> 'm"
  tp_bytes :: "claim \<Rightarrow> 'm \<Rightarrow> bytes"
  tp_reset :: "claim \<Rightarrow> 'm \<Rightarrow> 'm"
  tp_output :: "'m \<Rightarrow> bytes"
  tp_put :: "nat \<Rightarrow> bytes \<Rightarrow> 'm \<Rightarrow> 'm"

section \<open>State\<close>

datatype slot_state = Free | Filling | Ready | Failed

text \<open>
  A \<open>Binding*\<close> is the number of the binding: bindings are heap objects that never move, and
  \<open>next_binding\<close> numbers them in the order of their construction.
\<close>

record binding =
  b_id :: nat
  b_sources :: "shard_source list"
  b_resolver :: resolver
  b_row_transfers :: "transfer_set list"
  b_scratch_transfers :: "transfer_set list"
  b_in_flight :: nat

record slot =
  s_row_index :: u64
  s_row_generation :: u64
  s_epoch :: u32
  s_pins :: nat
  s_state :: slot_state
  s_failure :: status
  s_referenced :: bool
  s_finishing :: bool
  s_indexed :: bool
  s_fill_binding :: "nat option"
  s_claim :: "claim option"
  s_scratch_slot :: "nat option"
  s_chunk_claims :: "claim list"
  s_published_bytes :: u64
  s_published_offset :: u64

record ticket_record =
  tr_generation :: u32
  tr_count :: nat
  tr_held :: bool
  tr_in_use :: bool

type_synonym waiter_entry = "nat option \<times> u32"

record table_stats =
  hits :: nat
  misses :: nat
  fetches :: nat
  coalesced :: nat
  conversions :: nat
  codec_failures :: nat
  evictions :: nat
  resident :: nat
  leased :: nat
  failed :: nat

record 'm table =
  config :: table_config
  active_codec :: "codec option"
  chunks_per_row :: u32
  current_binding :: binding
  retiring_binding :: "binding option"
  slots :: "slot list"
  index :: index_vec
  index_shift :: nat
  tickets :: "ticket_record list"
  waiters :: "waiter_entry list"
  clock_hand :: nat
  current_generation :: u64
  pins_total :: nat
  tickets_held :: nat
  in_flight :: nat
  non_free :: nat
  counters :: table_stats
  scratch_used :: "bool list"
  worker_stopping :: bool
  next_binding :: nat
  mem :: 'm

text \<open>\<open>RowLease\<close>: a pin on a slot; \<open>l_bytes\<close> is the span, as offset and length in the output storage.\<close>

record lease =
  l_slot :: nat
  l_epoch :: u32
  l_bytes :: "nat \<times> nat"
  l_row_index :: u64
  l_generation :: u64

record prefetch_ticket =
  pt_record :: nat
  pt_generation :: u32

record wait_outcome =
  wo_status :: status
  wo_filled :: nat
  wo_failed :: nat
  wo_pending :: nat
  wo_evicted :: nat

text \<open>Access to one slot, and an update of one slot in place.\<close>

definition slot_at :: "'m table \<Rightarrow> nat \<Rightarrow> slot" where
  "slot_at t i = slots t ! i"

definition upd_slot :: "nat \<Rightarrow> (slot \<Rightarrow> slot) \<Rightarrow> 'm table \<Rightarrow> 'm table" where
  "upd_slot i f t = t\<lparr>slots := (slots t)[i := f (slots t ! i)]\<rparr>"

definition slot_key :: "slot \<Rightarrow> row_key" where
  "slot_key s = (s_row_index s, s_row_generation s)"

definition slot_keys :: "'m table \<Rightarrow> nat \<Rightarrow> row_key" where
  "slot_keys t i = slot_key (slots t ! i)"

definition count :: "(table_stats \<Rightarrow> table_stats) \<Rightarrow> 'm table \<Rightarrow> 'm table" where
  "count f t = t\<lparr>counters := f (counters t)\<rparr>"

abbreviation table_find :: "'m table \<Rightarrow> u64 \<Rightarrow> u64 \<Rightarrow> nat option" where
  "table_find t row_index generation \<equiv>
     index_find (index_shift t) (slot_keys t) (index t) (row_index, generation)"

text \<open>\<open>output_span\<close> and \<open>published_span\<close>, as offset and length in the output storage.\<close>

definition output_span :: "'m table \<Rightarrow> nat \<Rightarrow> nat \<times> nat" where
  "output_span t slot = (slot * unat (c_output_row_bytes (config t)), unat (c_output_row_bytes (config t)))"

definition published_span :: "'m table \<Rightarrow> nat \<Rightarrow> nat \<times> nat" where
  "published_span t slot =
     (fst (output_span t slot) + unat (s_published_offset (slots t ! slot)),
      unat (s_published_bytes (slots t ! slot)))"

section \<open>Construction\<close>

text \<open>The loop of \<open>make_binding\<close> over the shards: one transfer set per shard, two when converting.\<close>

fun make_transfers :: "'m transport \<Rightarrow> u32 \<Rightarrow> u32 \<Rightarrow> bool \<Rightarrow> shard_source list \<Rightarrow> 'm \<Rightarrow>
    (mp_status + transfer_set list \<times> transfer_set list) \<times> 'm" where
  "make_transfers tp max_claims scratch_rows converting [] m = (Inr ([], []), m)"
| "make_transfers tp max_claims scratch_rows converting (shard # shards) m =
     (case tp_create tp (sh_source shard) (sh_bytes shard) Output_storage max_claims m of
        (Inl error, m1) \<Rightarrow> (Inl error, m1)
      | (Inr row_transfer, m1) \<Rightarrow>
          (if converting then
             (case tp_create tp (sh_source shard) (sh_bytes shard) Scratch_storage scratch_rows m1 of
                (Inl error, m2) \<Rightarrow> (Inl error, m2)
              | (Inr scratch_transfer, m2) \<Rightarrow>
                  (case make_transfers tp max_claims scratch_rows converting shards m2 of
                     (Inl error, m3) \<Rightarrow> (Inl error, m3)
                   | (Inr (rows, scratches), m3) \<Rightarrow>
                       (Inr (row_transfer # rows, scratch_transfer # scratches), m3)))
           else
             (case make_transfers tp max_claims scratch_rows converting shards m1 of
                (Inl error, m2) \<Rightarrow> (Inl error, m2)
              | (Inr (rows, scratches), m2) \<Rightarrow> (Inr (row_transfer # rows, scratches), m2))))"

definition make_binding :: "'m transport \<Rightarrow> table_config \<Rightarrow> u32 \<Rightarrow> codec option \<Rightarrow> nat \<Rightarrow>
    shard_source list \<Rightarrow> resolver \<Rightarrow> 'm \<Rightarrow> (status + binding) \<times> 'm" where
  "make_binding tp cfg chunks codec ident sources resolve m =
     (if sources = [] then (Inl Invalid_argument, m)
      else if (\<exists>shard \<in> set sources. sh_bytes shard = 0) then (Inl Invalid_argument, m)
      else case make_transfers tp (c_budget_rows cfg * chunks) (c_scratch_rows cfg)
                  (codec \<noteq> None) sources m of
        (Inl error, m') \<Rightarrow> (Inl (from_mempage error), m')
      | (Inr (rows, scratches), m') \<Rightarrow>
          (Inr \<lparr>b_id = ident, b_sources = sources, b_resolver = resolve, b_row_transfers = rows,
                b_scratch_transfers = scratches, b_in_flight = 0\<rparr>, m'))"

definition fresh_slot :: slot where
  "fresh_slot = \<lparr>s_row_index = 0, s_row_generation = 0, s_epoch = 0, s_pins = 0, s_state = Free,
     s_failure = Ok, s_referenced = False, s_finishing = False, s_indexed = False,
     s_fill_binding = None, s_claim = None, s_scratch_slot = None, s_chunk_claims = [],
     s_published_bytes = 0, s_published_offset = 0\<rparr>"

definition fresh_ticket :: ticket_record where
  "fresh_ticket = \<lparr>tr_generation = 0, tr_count = 0, tr_held = False, tr_in_use = False\<rparr>"

definition zero_stats :: table_stats where
  "zero_stats = \<lparr>hits = 0, misses = 0, fetches = 0, coalesced = 0, conversions = 0,
     codec_failures = 0, evictions = 0, resident = 0, leased = 0, failed = 0\<rparr>"

text \<open>The constructor, given the initial binding it built.\<close>

definition new_table :: "table_config \<Rightarrow> binding \<Rightarrow> 'm \<Rightarrow> 'm table" where
  "new_table cfg b m =
     (let n = unat (c_budget_rows cfg); cells = bit_ceil (n * 2) in
      \<lparr>config = cfg, active_codec = active_codec_of cfg, chunks_per_row = chunks_per_row_of cfg,
       current_binding = b, retiring_binding = None, slots = replicate n fresh_slot,
       index = replicate cells None, index_shift = 64 - countr_zero cells,
       tickets = replicate (unat (c_max_tickets cfg)) fresh_ticket,
       waiters = replicate (unat (c_max_tickets cfg) * unat (c_max_batch_rows cfg)) (None, 0),
       clock_hand = 0, current_generation = c_generation cfg, pins_total = 0, tickets_held = 0,
       in_flight = 0, non_free = 0, counters = zero_stats,
       scratch_used = replicate (unat (c_scratch_rows cfg)) False, worker_stopping = False,
       next_binding = 1, mem = m\<rparr>)"

definition create :: "'m transport \<Rightarrow> table_config \<Rightarrow> 'm \<Rightarrow> status + 'm table" where
  "create tp cfg m =
     (case create_check cfg of
        Some error \<Rightarrow> Inl error
      | None \<Rightarrow>
          (case c_resolve_extent cfg of
             None \<Rightarrow> Inl Invalid_argument
           | Some resolve \<Rightarrow>
               (case make_binding tp cfg (chunks_per_row_of cfg) (active_codec_of cfg) 0
                       (c_sources cfg) resolve m of
                  (Inl _, m') \<Rightarrow> Inl Invalid_argument
                | (Inr b, m') \<Rightarrow> Inr (new_table cfg b m'))))"

section \<open>Slot lifecycle\<close>

definition unindex_locked :: "nat \<Rightarrow> 'm table \<Rightarrow> 'm table" where
  "unindex_locked slot t =
     (if s_indexed (slots t ! slot) then
        upd_slot slot (\<lambda>s. s\<lparr>s_indexed := False\<rparr>)
          (t\<lparr>index := index_erase (index_shift t) (slot_keys t) (index t) (slot_key (slots t ! slot))\<rparr>)
      else t)"

text \<open>Dropping the claims a slot holds: \<open>s.claim.reset()\<close> and the loop over \<open>s.chunk_claims\<close>.\<close>

definition reset_claims :: "'m transport \<Rightarrow> slot \<Rightarrow> 'm \<Rightarrow> 'm" where
  "reset_claims tp s m =
     foldl (\<lambda>m c. tp_reset tp c m) (case s_claim s of None \<Rightarrow> m | Some c \<Rightarrow> tp_reset tp c m)
       (s_chunk_claims s)"

definition make_free :: "'m transport \<Rightarrow> nat \<Rightarrow> 'm table \<Rightarrow> 'm table" where
  "make_free tp slot t0 =
     (let t = unindex_locked slot t0;
          t = (if s_state (slots t ! slot) \<noteq> Free then t\<lparr>non_free := non_free t - 1\<rparr> else t);
          t = t\<lparr>mem := reset_claims tp (slots t ! slot) (mem t)\<rparr>
      in upd_slot slot (\<lambda>s. s\<lparr>s_state := Free, s_referenced := False, s_claim := None,
           s_chunk_claims := [], s_scratch_slot := None, s_fill_binding := None\<rparr>) t)"

text \<open>\<open>claim_victim\<close>: the clock hand makes at most \<open>2 * n\<close> steps, a product of 32 bits.\<close>

fun claim_victim_loop :: "'m transport \<Rightarrow> nat \<Rightarrow> 'm table \<Rightarrow> nat option \<times> 'm table" where
  "claim_victim_loop tp 0 t = (None, t)"
| "claim_victim_loop tp (Suc steps) t0 =
     (let n = length (slots t0);
          slot = clock_hand t0;
          t = t0\<lparr>clock_hand := (if clock_hand t0 + 1 = n then 0 else clock_hand t0 + 1)\<rparr>;
          candidate = slots t ! slot
      in if s_state candidate = Free then (Some slot, t)
         else if s_pins candidate \<noteq> 0 \<or> s_state candidate = Filling
         then claim_victim_loop tp steps t
         else if s_state candidate = Failed then (Some slot, make_free tp slot t)
         else if s_referenced candidate
         then claim_victim_loop tp steps (upd_slot slot (\<lambda>s. s\<lparr>s_referenced := False\<rparr>) t)
         else (Some slot, make_free tp slot (count (\<lambda>c. c\<lparr>evictions := evictions c + 1\<rparr>) t)))"

definition claim_victim :: "'m transport \<Rightarrow> 'm table \<Rightarrow> nat option \<times> 'm table" where
  "claim_victim tp t = claim_victim_loop tp (unat (2 * of_nat (length (slots t)) :: u32)) t"

section \<open>Scratch slots\<close>

fun first_free :: "bool list \<Rightarrow> nat option" where
  "first_free [] = None"
| "first_free (used # rest) = (if \<not> used then Some 0 else map_option Suc (first_free rest))"

definition acquire_scratch :: "'m table \<Rightarrow> nat option \<times> 'm table" where
  "acquire_scratch t =
     (case first_free (scratch_used t) of
        None \<Rightarrow> (None, t)
      | Some i \<Rightarrow> (Some i, t\<lparr>scratch_used := (scratch_used t)[i := True]\<rparr>))"

definition release_scratch :: "nat option \<Rightarrow> 'm table \<Rightarrow> 'm table" where
  "release_scratch i t =
     (case i of None \<Rightarrow> t | Some i \<Rightarrow> t\<lparr>scratch_used := (scratch_used t)[i := False]\<rparr>)"

section \<open>Starting a fill\<close>

text \<open>The first part of \<open>start_fill_locked\<close>: the slot becomes Filling and is indexed.\<close>

definition admit_slot :: "nat \<Rightarrow> u64 \<Rightarrow> 'm table \<Rightarrow> 'm table" where
  "admit_slot slot row_index t0 =
     (let t = upd_slot slot (\<lambda>s. s\<lparr>s_row_index := row_index, s_row_generation := current_generation t0,
                s_epoch := s_epoch s + 1, s_state := Filling, s_failure := Ok, s_finishing := False,
                s_scratch_slot := None, s_fill_binding := Some (b_id (current_binding t0))\<rparr>) t0;
          t = t\<lparr>index := index_insert (index_shift t) (index t) (row_index, current_generation t) slot\<rparr>;
          t = upd_slot slot (\<lambda>s. s\<lparr>s_indexed := True\<rparr>) t
      in t\<lparr>non_free := min (length (slots t)) (non_free t + 1)\<rparr>)"

text \<open>The local function \<open>fail\<close> of \<open>start_fill_locked\<close>.\<close>

definition fail_fill :: "nat \<Rightarrow> status \<Rightarrow> 'm table \<Rightarrow> status \<times> 'm table" where
  "fail_fill slot st t0 =
     (let t = upd_slot slot (\<lambda>s. s\<lparr>s_state := Failed, s_failure := st\<rparr>) t0;
          t = unindex_locked slot t;
          t = upd_slot slot (\<lambda>s. s\<lparr>s_fill_binding := None\<rparr>) t
      in (st, t))"

text \<open>Submitting the chunk reads one by one: the claims accepted, and the error that stopped it.\<close>

fun submit_chunks :: "'m transport \<Rightarrow> transfer_set \<Rightarrow> u64 \<Rightarrow> u64 \<Rightarrow> (nat \<times> nat) list \<Rightarrow> 'm \<Rightarrow>
    mp_status option \<times> claim list \<times> 'm" where
  "submit_chunks tp ts offset base [] m = (None, [], m)"
| "submit_chunks tp ts offset base ((at, len) # reads) m =
     (case tp_submit tp ts \<lparr>br_offset = offset + of_nat at, br_length = of_nat len\<rparr> (base + of_nat at) m of
        (Inl error, m1) \<Rightarrow> (Some error, [], m1)
      | (Inr c, m1) \<Rightarrow>
          (case submit_chunks tp ts offset base reads m1 of
             (error, claims, m2) \<Rightarrow> (error, c # claims, m2)))"

text \<open>
  The three submission branches: chunked identity, plain identity, through a scratch slot. The first
  component is the status \<open>fail\<close> returned, when the branch ended in \<open>return fail(...)\<close>.
\<close>

definition submit_fill :: "'m transport \<Rightarrow> nat \<Rightarrow> row_location \<Rightarrow> byte_range \<Rightarrow> 'm table \<Rightarrow>
    status option \<times> 'm table" where
  "submit_fill tp slot location fill t =
     (let shard = unat (loc_shard location);
          base = of_nat slot * c_output_row_bytes (config t);
          failing = (\<lambda>error t. map_prod Some id (fail_fill slot error t))
      in if active_codec t = None \<and> chunks_per_row t > 1 then
           (case submit_chunks tp (b_row_transfers (current_binding t) ! shard) (br_offset fill) base
                   (chunk_reads (unat (c_fill_chunk_bytes (config t))) 0 (unat (br_length fill))) (mem t) of
              (Some error, claims, m) \<Rightarrow>
                failing (from_mempage error) (t\<lparr>mem := foldl (\<lambda>m c. tp_reset tp c m) m claims\<rparr>)
            | (None, claims, m) \<Rightarrow>
                (None, upd_slot slot (\<lambda>s. s\<lparr>s_chunk_claims := claims\<rparr>) (t\<lparr>mem := m\<rparr>)))
         else if active_codec t = None then
           (case tp_submit tp (b_row_transfers (current_binding t) ! shard) fill base (mem t) of
              (Inl error, m) \<Rightarrow> failing (from_mempage error) (t\<lparr>mem := m\<rparr>)
            | (Inr c, m) \<Rightarrow> (None, upd_slot slot (\<lambda>s. s\<lparr>s_claim := Some c\<rparr>) (t\<lparr>mem := m\<rparr>)))
         else
           (case acquire_scratch t of
              (None, t) \<Rightarrow> failing Pool_exhausted t
            | (Some scratch, t) \<Rightarrow>
                (case tp_submit tp (b_scratch_transfers (current_binding t) ! shard) (loc_range location)
                        (of_nat scratch * c_source_row_bytes (config t)) (mem t) of
                   (Inl error, m) \<Rightarrow>
                     failing (from_mempage error) (release_scratch (Some scratch) (t\<lparr>mem := m\<rparr>))
                 | (Inr c, m) \<Rightarrow>
                     (None, upd_slot slot (\<lambda>s. s\<lparr>s_scratch_slot := Some scratch, s_claim := Some c\<rparr>)
                              (t\<lparr>mem := m\<rparr>)))))"

text \<open>The tail of \<open>start_fill_locked\<close>, once every read is submitted.\<close>

definition fill_started :: "nat \<Rightarrow> row_location \<Rightarrow> u64 \<Rightarrow> 'm table \<Rightarrow> 'm table" where
  "fill_started slot location head t =
     upd_slot slot (\<lambda>s. s\<lparr>s_published_bytes :=
         (if active_codec t = None then br_length (loc_range location) else c_output_row_bytes (config t)),
         s_published_offset := head\<rparr>)
       (count (\<lambda>c. c\<lparr>fetches := fetches c + 1\<rparr>)
         (t\<lparr>in_flight := in_flight t + 1,
            current_binding := (current_binding t)
              \<lparr>b_in_flight := b_in_flight (current_binding t) + 1\<rparr>\<rparr>))"

definition start_fill_locked :: "'m transport \<Rightarrow> nat \<Rightarrow> u64 \<Rightarrow> 'm table \<Rightarrow> status \<times> 'm table" where
  "start_fill_locked tp slot row_index t0 =
     (let t = admit_slot slot row_index t0 in
      case resolve_location (config t) (b_sources (current_binding t)) (b_resolver (current_binding t))
             row_index of
        Inl error \<Rightarrow> fail_fill slot error t
      | Inr location \<Rightarrow>
          let (fill, head) = fill_window (c_fill_alignment (config t))
                (sh_bytes (b_sources (current_binding t) ! unat (loc_shard location))) (loc_range location)
          in case submit_fill tp slot location fill t of
               (Some error, t) \<Rightarrow> (error, t)
             | (None, t) \<Rightarrow> (Ok, fill_started slot location head t))"

section \<open>Finishing a fill\<close>

text \<open>Waiting for the chunk claims: the first status that is not ok decides.\<close>

fun wait_chunks :: "'m transport \<Rightarrow> claim list \<Rightarrow> deadline \<Rightarrow> 'm \<Rightarrow> mp_status \<times> 'm" where
  "wait_chunks tp [] deadline m = (MP_Ok, m)"
| "wait_chunks tp (c # cs) deadline m =
     (case tp_wait tp c deadline m of
        (raw, m1) \<Rightarrow> (if raw = MP_Ok then wait_chunks tp cs deadline m1 else (raw, m1)))"

definition await_fill :: "'m transport \<Rightarrow> slot \<Rightarrow> deadline \<Rightarrow> 'm \<Rightarrow> mp_status \<times> 'm" where
  "await_fill tp s deadline m =
     (if s_chunk_claims s \<noteq> [] then wait_chunks tp (s_chunk_claims s) deadline m
      else tp_wait tp (the (s_claim s)) deadline m)"

text \<open>The codec step, still outside the lock: it writes the slot's output span.\<close>

definition convert_fill :: "'m transport \<Rightarrow> nat \<Rightarrow> mp_status \<Rightarrow> 'm table \<Rightarrow> status \<times> 'm table" where
  "convert_fill tp slot raw t =
     (case active_codec t of
        None \<Rightarrow> (from_mempage raw, t)
      | Some convert \<Rightarrow>
          (if from_mempage raw = Ok then
             let (off, len) = output_span t slot;
                 (done, out) = convert (tp_bytes tp (the (s_claim (slots t ! slot))) (mem t))
                                 (slice (tp_output tp (mem t)) off len)
             in ((if done then Ok else Codec_failed), t\<lparr>mem := tp_put tp off out (mem t)\<rparr>)
           else (from_mempage raw, t)))"

text \<open>\<open>--s.fill_binding->in_flight\<close>: the pointer is to the current or to the retiring binding.\<close>

definition leave_binding :: "nat option \<Rightarrow> 'm table \<Rightarrow> 'm table" where
  "leave_binding b t =
     (case b of
        None \<Rightarrow> t
      | Some ident \<Rightarrow>
          (if b_id (current_binding t) = ident
           then t\<lparr>current_binding := (current_binding t)\<lparr>b_in_flight := b_in_flight (current_binding t) - 1\<rparr>\<rparr>
           else t\<lparr>retiring_binding := map_option (\<lambda>r. if b_id r = ident
                     then r\<lparr>b_in_flight := b_in_flight r - 1\<rparr> else r) (retiring_binding t)\<rparr>))"

text \<open>The second locked section of \<open>finish_fill\<close>: publish the result; \<open>scratch\<close> was read in the first.\<close>

definition publish_fill :: "'m transport \<Rightarrow> nat \<Rightarrow> nat option \<Rightarrow> status \<Rightarrow> 'm table \<Rightarrow> 'm table" where
  "publish_fill tp slot scratch result t0 =
     (let s = slots t0 ! slot;
          converting = (active_codec t0 \<noteq> None);
          t = t0\<lparr>mem := reset_claims tp s (mem t0)\<rparr>;
          t = upd_slot slot (\<lambda>s. s\<lparr>s_claim := None, s_chunk_claims := []\<rparr>) t;
          t = (if converting then upd_slot slot (\<lambda>s. s\<lparr>s_scratch_slot := None\<rparr>)
                                    (release_scratch scratch t) else t);
          t = t\<lparr>in_flight := in_flight t - 1\<rparr>;
          t = upd_slot slot (\<lambda>s. s\<lparr>s_fill_binding := None\<rparr>) (leave_binding (s_fill_binding s) t);
          t = (if result = Ok then
                 upd_slot slot (\<lambda>s. s\<lparr>s_state := Ready\<rparr>)
                   (if converting then count (\<lambda>c. c\<lparr>conversions := conversions c + 1\<rparr>) t else t)
               else
                 unindex_locked slot
                   (upd_slot slot (\<lambda>s. s\<lparr>s_state := Failed, s_failure := result\<rparr>)
                     (count (\<lambda>c. c\<lparr>failed := failed c + 1,
                        codec_failures := codec_failures c + (if result = Codec_failed then 1 else 0)\<rparr>) t)))
      in upd_slot slot (\<lambda>s. s\<lparr>s_finishing := False\<rparr>) t)"

text \<open>The deadline branch: the claim stays live, only \<open>finishing\<close> is given up.\<close>

definition relinquish_fill :: "nat \<Rightarrow> 'm table \<Rightarrow> 'm table" where
  "relinquish_fill slot t = upd_slot slot (\<lambda>s. s\<lparr>s_finishing := False\<rparr>) t"

text \<open>
  \<open>finish_fill\<close>. \<open>others\<close> is what the other threads do to the table between the two locked
  sections.
\<close>

definition finish_fill :: "'m transport \<Rightarrow> ('m table \<Rightarrow> 'm table) \<Rightarrow> nat \<Rightarrow> deadline \<Rightarrow> 'm table \<Rightarrow>
    'm table" where
  "finish_fill tp others slot deadline t =
     (let scratch = s_scratch_slot (slots t ! slot) in
      if s_state (slots t ! slot) \<noteq> Filling then t
      else case await_fill tp (slots t ! slot) deadline (mem t) of
        (raw, m) \<Rightarrow>
          let t = others (t\<lparr>mem := m\<rparr>) in
          if raw = MP_Timeout then relinquish_fill slot t
          else case convert_fill tp slot raw t of (result, t) \<Rightarrow> publish_fill tp slot scratch result t)"

section \<open>Leases and tickets\<close>

definition unpin_locked :: "nat \<Rightarrow> 'm table \<Rightarrow> 'm table" where
  "unpin_locked slot t = upd_slot slot (\<lambda>s. s\<lparr>s_pins := s_pins s - 1\<rparr>) (t\<lparr>pins_total := pins_total t - 1\<rparr>)"

text \<open>\<open>None\<close> is \<open>std::terminate\<close>.\<close>

definition release_lease :: "nat \<Rightarrow> u32 \<Rightarrow> 'm table \<Rightarrow> 'm table option" where
  "release_lease slot epoch t =
     (if s_epoch (slots t ! slot) \<noteq> epoch \<or> s_pins (slots t ! slot) = 0 then None
      else Some (unpin_locked slot t))"

definition discard_ticket :: "nat \<Rightarrow> u32 \<Rightarrow> 'm table \<Rightarrow> 'm table option" where
  "discard_ticket record_index generation t =
     (let r = tickets t ! record_index in
      if tr_generation r \<noteq> generation \<or> \<not> tr_held r then None
      else Some (t\<lparr>tickets := (tickets t)[record_index := r\<lparr>tr_held := False, tr_in_use := False\<rparr>],
                   tickets_held := tickets_held t - 1\<rparr>))"

text \<open>\<open>++s.pins; ++pins_total_; s.referenced = true\<close>, the shared tail of every hit and admission.\<close>

definition pin_slot :: "nat \<Rightarrow> 'm table \<Rightarrow> 'm table" where
  "pin_slot slot t = upd_slot slot (\<lambda>s. s\<lparr>s_pins := s_pins s + 1, s_referenced := True\<rparr>)
                       (t\<lparr>pins_total := pins_total t + 1\<rparr>)"

definition make_lease :: "nat \<Rightarrow> u64 \<Rightarrow> nat \<times> nat \<Rightarrow> 'm table \<Rightarrow> lease" where
  "make_lease slot row_index span t =
     \<lparr>l_slot = slot, l_epoch = s_epoch (slots t ! slot), l_bytes = span, l_row_index = row_index,
      l_generation = s_row_generation (slots t ! slot)\<rparr>"

section \<open>Public operations\<close>

definition try_get :: "u64 \<Rightarrow> 'm table \<Rightarrow> lease option \<times> 'm table" where
  "try_get row_index t =
     (if row_index \<ge> c_row_count (config t) then (None, t)
      else case table_find t row_index (current_generation t) of
        None \<Rightarrow> (None, count (\<lambda>c. c\<lparr>misses := misses c + 1\<rparr>) t)
      | Some slot \<Rightarrow>
          (if s_state (slots t ! slot) \<noteq> Ready then (None, count (\<lambda>c. c\<lparr>misses := misses c + 1\<rparr>) t)
           else let t = count (\<lambda>c. c\<lparr>hits := hits c + 1\<rparr>) (pin_slot slot t)
                in (Some (make_lease slot row_index (published_span t slot) t), t)))"

text \<open>One row of phase A of \<open>resolve_into\<close>: find or admit the row and pin it.\<close>

definition admit_row :: "'m transport \<Rightarrow> u64 \<Rightarrow> 'm table \<Rightarrow> (status + lease) \<times> 'm table" where
  "admit_row tp row_index t0 =
     (case table_find t0 row_index (current_generation t0) of
        Some slot \<Rightarrow>
          (let found_ready = (s_state (slots t0 ! slot) = Ready);
               found_filling = (s_state (slots t0 ! slot) = Filling);
               t = (if found_filling then count (\<lambda>c. c\<lparr>coalesced := coalesced c + 1\<rparr>) t0 else t0);
               t = pin_slot slot t;
               t = (if found_ready then count (\<lambda>c. c\<lparr>hits := hits c + 1\<rparr>) t else t)
           in (Inr (make_lease slot row_index (0, 0) t), t))
      | None \<Rightarrow>
          (case claim_victim tp t0 of
             (None, t) \<Rightarrow> (Inl Pool_exhausted, t)
           | (Some slot, t) \<Rightarrow>
               (case start_fill_locked tp slot row_index t of
                  (started, t) \<Rightarrow>
                    (if started \<noteq> Ok then (Inl started, t)
                     else let t = pin_slot slot t in (Inr (make_lease slot row_index (0, 0) t), t)))))"

text \<open>Phase A: all rows under one lock; the first failure stops it, the leases so far are returned.\<close>

fun admit_rows :: "'m transport \<Rightarrow> u64 list \<Rightarrow> 'm table \<Rightarrow> status \<times> lease list \<times> 'm table" where
  "admit_rows tp [] t = (Ok, [], t)"
| "admit_rows tp (row # rows) t =
     (case admit_row tp row t of
        (Inl error, t) \<Rightarrow> (error, [], t)
      | (Inr l, t) \<Rightarrow> (case admit_rows tp rows t of (failure, ls, t) \<Rightarrow> (failure, l # ls, t)))"

text \<open>\<open>RowLease::reset\<close> on a run of leases; an empty lease (\<open>None\<close>) is left alone.\<close>

fun release_leases :: "lease option list \<Rightarrow> 'm table \<Rightarrow> 'm table option" where
  "release_leases [] t = Some t"
| "release_leases (None # ls) t = release_leases ls t"
| "release_leases (Some l # ls) t =
     (case release_lease (l_slot l) (l_epoch l) t of
        None \<Rightarrow> None
      | Some t \<Rightarrow> release_leases ls t)"

text \<open>
  One row of phase B. \<open>others\<close> is what other threads do while the lock is not held: before it is
  taken (0), while this thread finishes the fill (1), or while it waits on the condition variable (2).
  \<open>None\<close> is a wait that does not end (the predicate does not hold at the wake-up).
\<close>

definition settled :: "nat \<Rightarrow> u32 \<Rightarrow> 'm table \<Rightarrow> bool" where
  "settled slot epoch t \<longleftrightarrow> s_epoch (slots t ! slot) \<noteq> epoch \<or> s_state (slots t ! slot) \<noteq> Filling"

definition drive_row :: "'m transport \<Rightarrow> (nat \<Rightarrow> 'm table \<Rightarrow> 'm table) \<Rightarrow> lease \<Rightarrow> 'm table \<Rightarrow>
    (status \<times> lease \<times> 'm table) option" where
  "drive_row tp others l t0 =
     (let t = others 0 t0; slot = l_slot l; s = slots t ! slot in
      if s_epoch s \<noteq> l_epoch l then Some (Pool_exhausted, l, t)
      else
        let t' = (if s_state s = Filling \<and> \<not> s_finishing s then
                    finish_fill tp (others 1) slot None
                      (upd_slot slot (\<lambda>s. s\<lparr>s_finishing := True\<rparr>) t)
                  else if s_state s = Filling then others 2 t
                  else t)
        in if s_state s = Filling \<and> s_finishing s \<and> \<not> settled slot (l_epoch l) t' then None
           else if s_epoch (slots t' ! slot) \<noteq> l_epoch l then Some (Pool_exhausted, l, t')
           else if s_state (slots t' ! slot) = Ready
           then Some (Ok, l\<lparr>l_bytes := published_span t' slot\<rparr>, t')
           else Some (s_failure (slots t' ! slot), l, t'))"

text \<open>Phase B: the rows in request order, until the first failure.\<close>

fun drive_rows :: "'m transport \<Rightarrow> (nat \<Rightarrow> nat \<Rightarrow> 'm table \<Rightarrow> 'm table) \<Rightarrow> lease list \<Rightarrow> 'm table \<Rightarrow>
    (status \<times> lease list \<times> 'm table) option" where
  "drive_rows tp others [] t = Some (Ok, [], t)"
| "drive_rows tp others (l # ls) t =
     (case drive_row tp (others (length ls)) l t of
        None \<Rightarrow> None
      | Some (failure, l, t) \<Rightarrow>
          (if failure \<noteq> Ok then Some (failure, l # ls, t)
           else map_option (\<lambda>(failure, ls, t). (failure, l # ls, t)) (drive_rows tp others ls t)))"

text \<open>
  \<open>resolve_into\<close>: the result, the caller's leases afterwards and the table; \<open>None\<close> when the call
  does not return (a condition that is never signalled) or terminates the process.
\<close>

definition resolve_into :: "'m transport \<Rightarrow> (nat \<Rightarrow> nat \<Rightarrow> 'm table \<Rightarrow> 'm table) \<Rightarrow> u64 list \<Rightarrow>
    lease option list \<Rightarrow> 'm table \<Rightarrow> ((status + nat) \<times> lease option list \<times> 'm table) option" where
  "resolve_into tp others rows out t =
     (let n = length rows in
      if rows = [] then Some (Inl Empty_range, out, t)
      else if n > unat (c_max_batch_rows (config t)) then Some (Inl Batch_too_large, out, t)
      else if length out < n then Some (Inl Invalid_argument, out, t)
      else case release_leases (take n out) t of
        None \<Rightarrow> None
      | Some t \<Rightarrow>
          let empty = replicate n None @ drop n out in
          if (\<exists>row \<in> set rows. row \<ge> c_row_count (config t)) then Some (Inl Out_of_range, empty, t)
          else case admit_rows tp rows t of
            (failure, leases, t) \<Rightarrow>
              if failure \<noteq> Ok then
                map_option (\<lambda>t. (Inl failure, empty, t)) (release_leases (map Some leases) t)
              else case drive_rows tp others leases t of
                None \<Rightarrow> None
              | Some (failure, leases, t) \<Rightarrow>
                  if failure \<noteq> Ok then
                    map_option (\<lambda>t. (Inl failure, empty, t)) (release_leases (map Some leases) t)
                  else Some (Inr n, map Some leases @ drop n out, t))"

text \<open>One row of \<open>prefetch\<close>: the waiter entry it records.\<close>

definition prefetch_row :: "'m transport \<Rightarrow> u64 \<Rightarrow> 'm table \<Rightarrow> waiter_entry \<times> 'm table" where
  "prefetch_row tp row_index t0 =
     (case table_find t0 row_index (current_generation t0) of
        None \<Rightarrow>
          (case claim_victim tp t0 of
             (None, t) \<Rightarrow> ((None, 0), t)
           | (Some slot, t) \<Rightarrow>
               (case start_fill_locked tp slot row_index t of
                  (_, t) \<Rightarrow> ((Some slot, s_epoch (slots t ! slot)), t)))
      | Some slot \<Rightarrow>
          (let t = (if s_state (slots t0 ! slot) = Ready
                    then count (\<lambda>c. c\<lparr>hits := hits c + 1\<rparr>) t0
                    else count (\<lambda>c. c\<lparr>coalesced := coalesced c + 1\<rparr>) t0)
           in ((Some slot, s_epoch (slots t ! slot)), t)))"

fun prefetch_rows :: "'m transport \<Rightarrow> nat \<Rightarrow> u64 list \<Rightarrow> 'm table \<Rightarrow> 'm table" where
  "prefetch_rows tp at [] t = t"
| "prefetch_rows tp at (row # rows) t =
     (case prefetch_row tp row t of
        (entry, t) \<Rightarrow> prefetch_rows tp (at + 1) rows (t\<lparr>waiters := (waiters t)[at := entry]\<rparr>))"

fun find_free_record :: "ticket_record list \<Rightarrow> nat option" where
  "find_free_record [] = None"
| "find_free_record (r # rs) = (if \<not> tr_in_use r then Some 0 else map_option Suc (find_free_record rs))"

definition prefetch :: "'m transport \<Rightarrow> u64 list \<Rightarrow> 'm table \<Rightarrow> (status + prefetch_ticket) \<times> 'm table" where
  "prefetch tp rows t =
     (if rows = [] then (Inl Empty_range, t)
      else if length rows > unat (c_max_batch_rows (config t)) then (Inl Batch_too_large, t)
      else if (\<exists>row \<in> set rows. row \<ge> c_row_count (config t)) then (Inl Out_of_range, t)
      else case find_free_record (tickets t) of
        None \<Rightarrow> (Inl Ticket_exhausted, t)
      | Some record_index \<Rightarrow>
          let generation = tr_generation (tickets t ! record_index) + 1;
              t = t\<lparr>tickets := (tickets t)[record_index :=
                      \<lparr>tr_generation = generation, tr_count = length rows, tr_held = True, tr_in_use = True\<rparr>],
                    tickets_held := tickets_held t + 1\<rparr>;
              t = prefetch_rows tp (record_index * unat (c_max_batch_rows (config t))) rows t
          in (Inr \<lparr>pt_record = record_index, pt_generation = generation\<rparr>, t))"

text \<open>One entry of \<open>wait\<close>: \<open>None\<close> is a wait without a deadline that does not end.\<close>

definition wait_entry :: "'m transport \<Rightarrow> (nat \<Rightarrow> 'm table \<Rightarrow> 'm table) \<Rightarrow> deadline \<Rightarrow> waiter_entry \<Rightarrow>
    wait_outcome \<Rightarrow> 'm table \<Rightarrow> (wait_outcome \<times> 'm table) option" where
  "wait_entry tp others deadline entry outcome t0 =
     (case entry of
        (None, _) \<Rightarrow> Some (outcome\<lparr>wo_evicted := wo_evicted outcome + 1\<rparr>, t0)
      | (Some slot, epoch) \<Rightarrow>
          let t = others 0 t0; s = slots t ! slot in
          if s_epoch s \<noteq> epoch then Some (outcome\<lparr>wo_evicted := wo_evicted outcome + 1\<rparr>, t)
          else
            let t' = (if s_state s = Filling \<and> \<not> s_finishing s then
                        finish_fill tp (others 1) slot deadline
                          (upd_slot slot (\<lambda>s. s\<lparr>s_finishing := True\<rparr>) t)
                      else if s_state s = Filling then others 2 t
                      else t);
                s' = slots t' ! slot
            in if s_state s = Filling \<and> s_finishing s \<and> \<not> settled slot epoch t'
               then (if deadline = None then None
                     else Some (outcome\<lparr>wo_pending := wo_pending outcome + 1, wo_status := Timeout\<rparr>, t'))
               else if s_epoch s' \<noteq> epoch then Some (outcome\<lparr>wo_evicted := wo_evicted outcome + 1\<rparr>, t')
               else if s_state s' = Ready then Some (outcome\<lparr>wo_filled := wo_filled outcome + 1\<rparr>, t')
               else if s_state s' = Filling
               then Some (outcome\<lparr>wo_pending := wo_pending outcome + 1, wo_status := Timeout\<rparr>, t')
               else Some (outcome\<lparr>wo_failed := wo_failed outcome + 1,
                      wo_status := (if wo_status outcome = Ok then s_failure s' else wo_status outcome)\<rparr>, t'))"

fun wait_entries :: "'m transport \<Rightarrow> (nat \<Rightarrow> nat \<Rightarrow> 'm table \<Rightarrow> 'm table) \<Rightarrow> deadline \<Rightarrow>
    waiter_entry list \<Rightarrow> wait_outcome \<Rightarrow> 'm table \<Rightarrow> (wait_outcome \<times> 'm table) option" where
  "wait_entries tp others deadline [] outcome t = Some (outcome, t)"
| "wait_entries tp others deadline (entry # rest) outcome t =
     (case wait_entry tp (others (length rest)) deadline entry outcome t of
        None \<Rightarrow> None
      | Some (outcome, t) \<Rightarrow> wait_entries tp others deadline rest outcome t)"

definition empty_outcome :: wait_outcome where
  "empty_outcome = \<lparr>wo_status = Ok, wo_filled = 0, wo_failed = 0, wo_pending = 0, wo_evicted = 0\<rparr>"

text \<open>\<open>wait\<close> on a ticket of this table; another table's ticket is \<open>None\<close>.\<close>

definition wait :: "'m transport \<Rightarrow> (nat \<Rightarrow> nat \<Rightarrow> 'm table \<Rightarrow> 'm table) \<Rightarrow> prefetch_ticket option \<Rightarrow>
    deadline \<Rightarrow> 'm table \<Rightarrow> (wait_outcome \<times> 'm table) option" where
  "wait tp others ticket deadline t =
     (case ticket of
        None \<Rightarrow> Some (empty_outcome\<lparr>wo_status := Invalid_argument\<rparr>, t)
      | Some tk \<Rightarrow>
          wait_entries tp others deadline
            (slice (waiters t) (pt_record tk * unat (c_max_batch_rows (config t)))
               (tr_count (tickets t ! pt_record tk)))
            empty_outcome t)"

definition invalidate :: "'m transport \<Rightarrow> u64 \<Rightarrow> shard_source list \<Rightarrow> resolver option \<Rightarrow> 'm table \<Rightarrow>
    status \<times> 'm table" where
  "invalidate tp new_generation new_sources new_resolver t =
     (if new_sources = [] then (Invalid_argument, t)
      else if (\<exists>shard \<in> set new_sources. sh_bytes shard = 0) then (Invalid_argument, t)
      else if (case retiring_binding t of None \<Rightarrow> False | Some b \<Rightarrow> b_in_flight b \<noteq> 0) then (Busy, t)
      else
        let t = t\<lparr>retiring_binding := None\<rparr>;
            resolve = (case new_resolver of Some r \<Rightarrow> r | None \<Rightarrow> b_resolver (current_binding t))
        in case make_binding tp (config t) (chunks_per_row t) (active_codec t) (next_binding t)
                  new_sources resolve (mem t) of
             (Inl error, m) \<Rightarrow> (error, t\<lparr>mem := m\<rparr>)
           | (Inr b, m) \<Rightarrow>
               (Ok, t\<lparr>mem := m, retiring_binding := Some (current_binding t), current_binding := b,
                      next_binding := next_binding t + 1, current_generation := new_generation\<rparr>))"

definition stats :: "'m table \<Rightarrow> table_stats" where
  "stats t = (counters t)
     \<lparr>resident := resident (counters t) + tally (\<lambda>s. if s_state s = Ready then 1 else 0) (slots t),
      leased := leased (counters t) + tally (\<lambda>s. if s_pins s \<noteq> 0 then 1 else 0) (slots t)\<rparr>"

text \<open>\<open>drain\<close>: \<open>others\<close> is what happens while it waits; \<open>None\<close> is a wait that does not end.\<close>

definition drain :: "('m table \<Rightarrow> 'm table) \<Rightarrow> deadline \<Rightarrow> 'm table \<Rightarrow> (status \<times> 'm table) option" where
  "drain others deadline t =
     (if in_flight t = 0 then Some (Ok, t)
      else let t = others t in
        if in_flight t = 0 then Some (Ok, t)
        else if deadline \<noteq> None then Some (Timeout, t)
        else None)"

section \<open>The completion worker and teardown\<close>

fun find_unclaimed :: "slot list \<Rightarrow> nat option" where
  "find_unclaimed [] = None"
| "find_unclaimed (s # ss) =
     (if s_state s = Filling \<and> \<not> s_finishing s then Some 0 else map_option Suc (find_unclaimed ss))"

text \<open>
  One turn of \<open>worker_loop\<close>: it finishes an unclaimed fill, or it stops or goes to sleep. The
  result says whether it went on.
\<close>

definition worker_turn :: "'m transport \<Rightarrow> ('m table \<Rightarrow> 'm table) \<Rightarrow> 'm table \<Rightarrow> bool \<times> 'm table" where
  "worker_turn tp others t =
     (case find_unclaimed (slots t) of
        None \<Rightarrow> (False, t)
      | Some slot \<Rightarrow>
          (True, finish_fill tp others slot None (upd_slot slot (\<lambda>s. s\<lparr>s_finishing := True\<rparr>) t)))"

text \<open>The worker's turns until it finds nothing, at most \<open>turns\<close> of them.\<close>

fun worker_turns :: "'m transport \<Rightarrow> ('m table \<Rightarrow> 'm table) \<Rightarrow> nat \<Rightarrow> 'm table \<Rightarrow> 'm table" where
  "worker_turns tp others 0 t = t"
| "worker_turns tp others (Suc turns) t =
     (case worker_turn tp others t of (again, t) \<Rightarrow> if again then worker_turns tp others turns t else t)"

definition stop_worker :: "'m table \<Rightarrow> 'm table" where
  "stop_worker t = t\<lparr>worker_stopping := True\<rparr>"

text \<open>The destructor's check: \<open>None\<close> is \<open>std::terminate\<close>.\<close>

definition destroy :: "'m table \<Rightarrow> unit option" where
  "destroy t = (if in_flight t \<noteq> 0 \<or> pins_total t \<noteq> 0 \<or> tickets_held t \<noteq> 0 then None else Some ())"

end
