(* ===== verification/Table_Inv.thy ===== *)
theory Table_Inv
  imports Table_Model
begin

text \<open>
  The invariant of a \<open>Table\<close> and its preservation by every operation that runs under \<open>lock_\<close>. The
  invariant has one clause per part of the state: the slots, the index over them, the counters,
  the bindings that fills refer to, the scratch slots and the ticket records. Each clause has its
  own update lemmas, and the operations are composed of them.
\<close>

section \<open>The invariant\<close>

abbreviation filling :: "slot \<Rightarrow> bool" where "filling s \<equiv> s_state s = Filling"

definition slot_ok :: "slot \<Rightarrow> bool" where
  "slot_ok s \<longleftrightarrow>
     (s_indexed s \<longleftrightarrow> s_state s = Filling \<or> s_state s = Ready) \<and>
     (s_finishing s \<longrightarrow> filling s) \<and> (s_fill_binding s \<noteq> None \<longleftrightarrow> filling s) \<and>
     (s_claim s \<noteq> None \<longrightarrow> filling s) \<and> (s_chunk_claims s \<noteq> [] \<longrightarrow> filling s) \<and>
     (s_scratch_slot s \<noteq> None \<longrightarrow> filling s) \<and> (s_state s = Free \<longrightarrow> s_pins s = 0)"

text \<open>The index holds exactly the slots marked \<open>indexed\<close>, at most half full.\<close>

definition index_ok :: "nat \<Rightarrow> slot list \<Rightarrow> index_vec \<Rightarrow> bool" where
  "index_ok sh ss ix \<longleftrightarrow>
     2 * length ss \<le> length ix \<and> index_invar sh (\<lambda>i. slot_key (ss ! i)) ix \<and>
     entries ix = {i. i < length ss \<and> s_indexed (ss ! i)}"

definition counts_ok :: "slot list \<Rightarrow> nat \<Rightarrow> nat \<Rightarrow> nat \<Rightarrow> bool" where
  "counts_ok ss flying pins busy \<longleftrightarrow>
     flying = tally (\<lambda>s. of_bool (filling s)) ss \<and> pins = tally s_pins ss \<and>
     busy = tally (\<lambda>s. of_bool (s_state s \<noteq> Free)) ss"

text \<open>
  No fill refers to a binding that is gone: it is the current or the retiring one, and each counts
  the fills that refer to it.
\<close>

definition fills_of :: "nat \<Rightarrow> slot list \<Rightarrow> nat" where
  "fills_of b ss = tally (\<lambda>s. of_bool (s_fill_binding s = Some b)) ss"

definition bindings_ok :: "slot list \<Rightarrow> binding \<Rightarrow> binding option \<Rightarrow> nat \<Rightarrow> bool" where
  "bindings_ok ss cur ret nxt \<longleftrightarrow>
     b_id cur < nxt \<and> b_in_flight cur = fills_of (b_id cur) ss \<and>
     (\<forall>r. ret = Some r \<longrightarrow> b_id r < nxt \<and> b_id r \<noteq> b_id cur \<and> b_in_flight r = fills_of (b_id r) ss) \<and>
     (\<forall>i < length ss. \<forall>b. s_fill_binding (ss ! i) = Some b \<longrightarrow>
        b = b_id cur \<or> (\<exists>r. ret = Some r \<and> b = b_id r))"

text \<open>A scratch slot is marked used exactly when one slot holds it.\<close>

definition scratch_ok :: "slot list \<Rightarrow> bool list \<Rightarrow> bool" where
  "scratch_ok ss used \<longleftrightarrow>
     (\<forall>i < length ss. \<forall>k. s_scratch_slot (ss ! i) = Some k \<longrightarrow> k < length used) \<and>
     (\<forall>k < length used. used ! k \<longleftrightarrow> (\<exists>i < length ss. s_scratch_slot (ss ! i) = Some k)) \<and>
     (\<forall>i < length ss. \<forall>j < length ss. \<forall>k. s_scratch_slot (ss ! i) = Some k \<longrightarrow>
        s_scratch_slot (ss ! j) = Some k \<longrightarrow> i = j)"

definition tickets_ok :: "ticket_record list \<Rightarrow> nat \<Rightarrow> bool" where
  "tickets_ok ts held \<longleftrightarrow>
     held = tally (\<lambda>r. of_bool (tr_held r)) ts \<and> (\<forall>r \<in> set ts. tr_held r = tr_in_use r)"

definition table_inv :: "'m table \<Rightarrow> bool" where
  "table_inv t \<longleftrightarrow>
     clock_hand t < length (slots t) \<and> length (slots t) < 2 ^ 32 \<and>
     (\<forall>i < length (slots t). slot_ok (slots t ! i)) \<and>
     index_ok (index_shift t) (slots t) (index t) \<and>
     counts_ok (slots t) (in_flight t) (pins_total t) (non_free t) \<and>
     bindings_ok (slots t) (current_binding t) (retiring_binding t) (next_binding t) \<and>
     scratch_ok (slots t) (scratch_used t) \<and> tickets_ok (tickets t) (tickets_held t) \<and>
     (active_codec t = None \<longrightarrow> (\<forall>i < length (slots t). s_scratch_slot (slots t ! i) = None))"

lemma table_invI:
  assumes "clock_hand t < length (slots t)" and "length (slots t) < 2 ^ 32"
    and "\<And>i. i < length (slots t) \<Longrightarrow> slot_ok (slots t ! i)"
    and "index_ok (index_shift t) (slots t) (index t)"
    and "counts_ok (slots t) (in_flight t) (pins_total t) (non_free t)"
    and "bindings_ok (slots t) (current_binding t) (retiring_binding t) (next_binding t)"
    and "scratch_ok (slots t) (scratch_used t)" and "tickets_ok (tickets t) (tickets_held t)"
    and "\<And>i. active_codec t = None \<Longrightarrow> i < length (slots t) \<Longrightarrow> s_scratch_slot (slots t ! i) = None"
  shows "table_inv t"
  using assms unfolding table_inv_def by blast

lemma table_invD:
  assumes "table_inv t"
  shows "clock_hand t < length (slots t)" and "length (slots t) < 2 ^ 32"
    and "\<And>i. i < length (slots t) \<Longrightarrow> slot_ok (slots t ! i)"
    and "index_ok (index_shift t) (slots t) (index t)"
    and "counts_ok (slots t) (in_flight t) (pins_total t) (non_free t)"
    and "bindings_ok (slots t) (current_binding t) (retiring_binding t) (next_binding t)"
    and "scratch_ok (slots t) (scratch_used t)" and "tickets_ok (tickets t) (tickets_held t)"
    and "\<And>i. active_codec t = None \<Longrightarrow> i < length (slots t) \<Longrightarrow> s_scratch_slot (slots t ! i) = None"
  using assms unfolding table_inv_def by blast+

lemma slot_key_frame [simp]:
  "slot_key (s\<lparr>s_epoch := x0\<rparr>) = slot_key s"
  "slot_key (s\<lparr>s_pins := x1\<rparr>) = slot_key s"
  "slot_key (s\<lparr>s_state := x2\<rparr>) = slot_key s"
  "slot_key (s\<lparr>s_failure := x3\<rparr>) = slot_key s"
  "slot_key (s\<lparr>s_referenced := x4\<rparr>) = slot_key s"
  "slot_key (s\<lparr>s_finishing := x5\<rparr>) = slot_key s"
  "slot_key (s\<lparr>s_indexed := x6\<rparr>) = slot_key s"
  "slot_key (s\<lparr>s_fill_binding := x7\<rparr>) = slot_key s"
  "slot_key (s\<lparr>s_claim := x8\<rparr>) = slot_key s"
  "slot_key (s\<lparr>s_scratch_slot := x9\<rparr>) = slot_key s"
  "slot_key (s\<lparr>s_chunk_claims := x10\<rparr>) = slot_key s"
  "slot_key (s\<lparr>s_published_bytes := x11\<rparr>) = slot_key s"
  "slot_key (s\<lparr>s_published_offset := x12\<rparr>) = slot_key s"
  by (simp_all add: slot_key_def)

section \<open>Updating one slot: what each clause needs\<close>

lemma slots_ok_update:
  "(\<And>i. i < length ss \<Longrightarrow> slot_ok (ss ! i)) \<Longrightarrow> slot_ok s' \<Longrightarrow> j < length (ss[i := s'])
     \<Longrightarrow> slot_ok (ss[i := s'] ! j)"
  by (cases "i = j") auto

subsection \<open>Index\<close>

lemma entries_finite: "finite (entries ix)"
proof -
  have "entries ix \<subseteq> the ` set ix" unfolding entries_def by force
  then show ?thesis by (rule finite_subset) simp
qed

lemma index_ok_card:
  assumes "index_ok sh ss ix" and "i < length ss" and "\<not> s_indexed (ss ! i)"
  shows "Suc (card (entries ix)) < length ix"
proof -
  have "entries ix \<subseteq> {..< length ss} - {i}" using assms by (auto simp: index_ok_def)
  then have "card (entries ix) \<le> card ({..< length ss} - {i})"
    by (rule card_mono [OF finite_Diff [OF finite_lessThan]])
  then have "card (entries ix) \<le> length ss - 1" using assms(2) by simp
  with assms(1,2) show ?thesis unfolding index_ok_def by linarith
qed

lemma index_ok_update:
  assumes "index_ok sh ss ix" and "i < length ss" and "slot_key s' = slot_key (ss ! i)"
    and "s_indexed s' = s_indexed (ss ! i)"
  shows "index_ok sh (ss[i := s']) ix"
proof -
  have "(\<lambda>j. slot_key (ss[i := s'] ! j)) = (\<lambda>j. slot_key (ss ! j))"
    using assms(2,3) by (auto simp: nth_list_update)
  moreover have "s_indexed (ss[i := s'] ! j) = s_indexed (ss ! j)" for j
    using assms(2,4) by (auto simp: nth_list_update)
  ultimately show ?thesis using assms(1) by (simp add: index_ok_def)
qed

lemma index_ok_insert:
  assumes ok: "index_ok sh ss ix" and i: "i < length ss" "\<not> s_indexed (ss ! i)" "s_indexed s'"
    and fresh: "\<And>j. j < length ss \<Longrightarrow> s_indexed (ss ! j) \<Longrightarrow> slot_key (ss ! j) \<noteq> slot_key s'"
  shows "index_ok sh (ss[i := s']) (index_insert sh ix (slot_key s') i)"
proof -
  let ?keys = "\<lambda>j. slot_key (ss ! j)" and ?keys' = "\<lambda>j. slot_key (ss[i := s'] ! j)"
  have mem: "entries ix = {j. j < length ss \<and> s_indexed (ss ! j)}" using ok by (simp add: index_ok_def)
  have notin: "i \<notin> entries ix" using mem i by simp
  have key: "?keys' i = slot_key s'" using i by simp
  have other: "?keys' s = ?keys s" if "s \<in> entries ix" for s
    using that notin by (metis nth_list_update_neq)
  have inv: "index_invar sh ?keys' ix"
    using ok ri.invar_keys [of ix ?keys' ?keys sh, OF other] by (simp add: index_ok_def)
  have fresh': "\<And>s. s \<in> entries ix \<Longrightarrow> ?keys' s \<noteq> ?keys' i"
    using fresh mem other key by simp
  note card = index_ok_card [OF ok i(1,2)]
  have "entries (index_insert sh ix (slot_key s') i) = insert i (entries ix)"
    using ri.ins_members [OF inv notin fresh' card] unfolding key .
  moreover have "insert i (entries ix) = {j. j < length ss \<and> s_indexed (ss[i := s'] ! j)}"
    unfolding mem using i by (auto simp: nth_list_update)
  moreover have "index_invar sh ?keys' (index_insert sh ix (slot_key s') i)"
    using ri.ins_invar [OF inv notin fresh' card] unfolding key .
  ultimately show ?thesis using ok by (simp add: index_ok_def)
qed

lemma index_ok_erase:
  assumes ok: "index_ok sh ss ix" and i: "i < length ss" "s_indexed (ss ! i)" "\<not> s_indexed s'"
  shows "index_ok sh (ss[i := s']) (index_erase sh (\<lambda>j. slot_key (ss ! j)) ix (slot_key (ss ! i)))"
proof -
  let ?keys = "\<lambda>j. slot_key (ss ! j)" and ?keys' = "\<lambda>j. slot_key (ss[i := s'] ! j)"
  let ?ix = "index_erase sh ?keys ix (slot_key (ss ! i))"
  have mem: "entries ix = {j. j < length ss \<and> s_indexed (ss ! j)}"
    and inv: "index_invar sh ?keys ix" using ok by (simp_all add: index_ok_def)
  have isin: "i \<in> entries ix" using mem i by simp
  note inv' = ri.del_invar [OF inv isin] and mem' = ri.del_members [OF inv isin]
  have other: "?keys' s = ?keys s" if "s \<in> entries ?ix" for s
    using that mem' by (metis DiffE insertI1 nth_list_update_neq)
  have "index_invar sh ?keys' ?ix"
    using inv' ri.invar_keys [of ?ix ?keys' ?keys sh, OF other] by simp
  moreover have "entries ?ix = {j. j < length ss \<and> s_indexed (ss[i := s'] ! j)}"
    unfolding mem' mem using i by (auto simp: nth_list_update)
  moreover have "length ?ix = length ix"
    by (rule index_erase_length [OF inv isin])
  ultimately show ?thesis using ok by (simp add: index_ok_def)
qed

subsection \<open>Counters\<close>

lemma tally_update_diff: "i < length xs \<Longrightarrow> tally f (xs[i := y]) = tally f xs + f y - f (xs ! i)"
  using tally_update [of i xs f y] by simp

lemma counts_ok_update:
  assumes "counts_ok ss flying pins busy" and "i < length ss"
  shows "counts_ok (ss[i := s']) (flying + of_bool (filling s') - of_bool (filling (ss ! i)))
           (pins + s_pins s' - s_pins (ss ! i))
           (busy + of_bool (s_state s' \<noteq> Free) - of_bool (s_state (ss ! i) \<noteq> Free))"
  using assms unfolding counts_ok_def by (simp add: tally_update_diff)

lemma counts_ok_same:
  assumes "counts_ok ss flying pins busy" and "i < length ss"
    and "s_state s' = s_state (ss ! i)" and "s_pins s' = s_pins (ss ! i)"
  shows "counts_ok (ss[i := s']) flying pins busy"
  using counts_ok_update [OF assms(1,2), of s'] assms(3,4) by simp

lemma counts_ok_flying: "counts_ok ss flying pins busy \<Longrightarrow> i < length ss \<Longrightarrow> filling (ss ! i) \<Longrightarrow> 0 < flying"
  using tally_ge [of i ss "\<lambda>s. of_bool (filling s)"] by (simp add: counts_ok_def)

lemma counts_ok_pins: "counts_ok ss flying pins busy \<Longrightarrow> i < length ss \<Longrightarrow> s_pins (ss ! i) \<le> pins"
  using tally_ge [of i ss s_pins] by (simp add: counts_ok_def)

lemma counts_ok_busy_less:
  assumes "counts_ok ss flying pins busy" and "i < length ss" and "s_state (ss ! i) = Free"
  shows "busy < length ss"
proof -
  have "busy + 1 = tally (\<lambda>s. of_bool (s_state s \<noteq> Free)) (ss[i := (ss ! i)\<lparr>s_state := Filling\<rparr>])"
    using assms by (simp add: counts_ok_def tally_update_diff)
  also have "\<dots> \<le> length ss"
    using tally_le_length [of "\<lambda>s. of_bool (s_state s \<noteq> Free)"] by (metis length_list_update of_bool_less_eq_one)
  finally show ?thesis by simp
qed

subsection \<open>Bindings\<close>

lemma fills_of_update:
  "i < length ss \<Longrightarrow> fills_of b (ss[i := s']) =
     fills_of b ss + of_bool (s_fill_binding s' = Some b) - of_bool (s_fill_binding (ss ! i) = Some b)"
  by (simp add: fills_of_def tally_update_diff)

lemma bindings_ok_same:
  assumes "bindings_ok ss cur ret nxt" and "i < length ss"
    and "s_fill_binding s' = s_fill_binding (ss ! i)"
  shows "bindings_ok (ss[i := s']) cur ret nxt"
  using assms unfolding bindings_ok_def by (simp add: fills_of_update nth_list_update)

lemma bindings_ok_start:
  assumes "bindings_ok ss cur ret nxt" and "i < length ss"
    and "s_fill_binding (ss ! i) = None" and "s_fill_binding s' = Some (b_id cur)"
  shows "bindings_ok (ss[i := s']) (cur\<lparr>b_in_flight := b_in_flight cur + 1\<rparr>) ret nxt"
  using assms unfolding bindings_ok_def by (simp add: fills_of_update nth_list_update) fastforce

lemma fills_of_pos: "i < length ss \<Longrightarrow> s_fill_binding (ss ! i) = Some b \<Longrightarrow> 0 < fills_of b ss"
  using tally_ge [of i ss "\<lambda>s. of_bool (s_fill_binding s = Some b)"] by (simp add: fills_of_def)

lemma bindings_ok_leave:
  assumes "bindings_ok ss (current_binding t) (retiring_binding t) nxt" and "i < length ss"
    and "s_fill_binding s' = None"
  shows "bindings_ok (ss[i := s']) (current_binding (leave_binding (s_fill_binding (ss ! i)) t))
           (retiring_binding (leave_binding (s_fill_binding (ss ! i)) t)) nxt"
proof (cases "s_fill_binding (ss ! i)")
  case None
  then show ?thesis using bindings_ok_same [OF assms(1,2)] assms(3) by (simp add: leave_binding_def)
next
  case (Some b)
  then show ?thesis
    using assms unfolding bindings_ok_def leave_binding_def
    by (cases "retiring_binding t") (auto simp: fills_of_update nth_list_update split: if_splits)
qed

subsection \<open>Scratch slots\<close>

lemma scratch_ok_same:
  assumes "scratch_ok ss used" and "i < length ss" and "s_scratch_slot s' = s_scratch_slot (ss ! i)"
  shows "scratch_ok (ss[i := s']) used"
proof -
  have "s_scratch_slot (ss[i := s'] ! j) = s_scratch_slot (ss ! j)" for j
    using assms(2,3) by (auto simp: nth_list_update)
  then show ?thesis using assms(1) by (simp add: scratch_ok_def)
qed

lemma scratch_ok_acquire:
  assumes ok: "scratch_ok ss used" and i: "i < length ss" "s_scratch_slot (ss ! i) = None"
    and s': "s_scratch_slot s' = Some k" and k: "k < length used" "\<not> used ! k"
  shows "scratch_ok (ss[i := s']) (used[k := True])"
proof -
  have new: "s_scratch_slot (ss[i := s'] ! j) = (if j = i then Some k else s_scratch_slot (ss ! j))" for j
    using i s' by (auto simp: nth_list_update)
  have unused: "s_scratch_slot (ss ! j) \<noteq> Some k" if "j < length ss" for j
    using ok that k by (auto simp: scratch_ok_def)
  show ?thesis
    unfolding scratch_ok_def new length_list_update
  proof (intro conjI allI impI, goal_cases)
    case (1 j k')
    then show ?case using ok k by (auto simp: scratch_ok_def split: if_splits)
  next
    case (2 k')
    then have "used ! k' \<longleftrightarrow> (\<exists>j < length ss. s_scratch_slot (ss ! j) = Some k')"
      using ok by (simp add: scratch_ok_def)
    with 2 show ?case using i by (cases "k' = k") (auto, metis option.distinct(1))
  next
    case (3 j j' k')
    then show ?case using ok unused unfolding scratch_ok_def by (metis option.inject)
  qed
qed

lemma scratch_ok_release:
  assumes ok: "scratch_ok ss (scratch_used t)" and i: "i < length ss" and s': "s_scratch_slot s' = None"
  shows "scratch_ok (ss[i := s']) (scratch_used (release_scratch (s_scratch_slot (ss ! i)) t))"
proof (cases "s_scratch_slot (ss ! i)")
  case None
  then show ?thesis using scratch_ok_same [OF ok i] s' by (simp add: release_scratch_def)
next
  case (Some k)
  have new: "s_scratch_slot (ss[i := s'] ! j) = (if j = i then None else s_scratch_slot (ss ! j))" for j
    using i s' by (auto simp: nth_list_update)
  have only: "s_scratch_slot (ss ! j) = Some k \<longleftrightarrow> j = i" if "j < length ss" for j
    using ok that Some i unfolding scratch_ok_def by blast
  show ?thesis
    unfolding scratch_ok_def new length_list_update release_scratch_def Some
  proof (intro conjI allI impI, goal_cases)
    case (1 j k')
    then show ?case using ok by (auto simp: scratch_ok_def split: if_splits)
  next
    case (2 k')
    then have used: "scratch_used t ! k' \<longleftrightarrow> (\<exists>j < length ss. s_scratch_slot (ss ! j) = Some k')"
      using ok by (simp add: scratch_ok_def)
    show ?case
    proof (cases "k' = k")
      case True
      then show ?thesis using 2 only by auto
    next
      case False
      then show ?thesis using 2 used Some by (auto, metis option.inject)
    qed
  next
    case (3 j j' k')
    then show ?case using ok unfolding scratch_ok_def by (metis option.distinct(1))
  qed
qed

section \<open>Operations on one slot\<close>

lemma inv_frame [simp]:
  "table_inv (t\<lparr>mem := m\<rparr>) = table_inv t" "table_inv (t\<lparr>waiters := w\<rparr>) = table_inv t"
  "table_inv (t\<lparr>worker_stopping := b\<rparr>) = table_inv t" "table_inv (count f t) = table_inv t"
  "table_inv (t\<lparr>counters := c\<rparr>) = table_inv t" "table_inv (t\<lparr>current_generation := g\<rparr>) = table_inv t"
  by (simp_all add: table_inv_def count_def)

lemma inv_clock_hand: "table_inv t \<Longrightarrow> h < length (slots t) \<Longrightarrow> table_inv (t\<lparr>clock_hand := h\<rparr>)"
  by (simp add: table_inv_def)

text \<open>What no operation on a single slot changes.\<close>

definition env_of :: "'m table \<Rightarrow> _" where
  "env_of t = (config t, active_codec t, chunks_per_row t, index_shift t, tickets t, tickets_held t,
     current_generation t, next_binding t, retiring_binding t, worker_stopping t, length (slots t))"

lemma env_of_eq:
  "env_of t' = env_of t \<longleftrightarrow>
     config t' = config t \<and> active_codec t' = active_codec t \<and> chunks_per_row t' = chunks_per_row t \<and>
     index_shift t' = index_shift t \<and> tickets t' = tickets t \<and> tickets_held t' = tickets_held t \<and>
     current_generation t' = current_generation t \<and> next_binding t' = next_binding t \<and>
     retiring_binding t' = retiring_binding t \<and> worker_stopping t' = worker_stopping t \<and>
     length (slots t') = length (slots t)"
  by (simp add: env_of_def)

lemma slot_keys_eq: "slot_keys t = (\<lambda>i. slot_key (slots t ! i))"
  by (simp add: slot_keys_def fun_eq_iff)

lemma table_find_iff:
  "table_inv t \<Longrightarrow> table_find t r g = Some i \<longleftrightarrow>
     i < length (slots t) \<and> s_indexed (slots t ! i) \<and> slot_key (slots t ! i) = (r, g)"
  using ri.find_iff [of "index_shift t" "slot_keys t" "index t" "(r, g)" i] table_invD(4) [of t]
  unfolding index_ok_def slot_keys_eq by simp

lemma table_find_None:
  assumes "table_inv t" and "table_find t r g = None" and "i < length (slots t)" and "s_indexed (slots t ! i)"
  shows "slot_key (slots t ! i) \<noteq> (r, g)"
  using assms(2-4) table_find_iff [OF assms(1), of r g i] by auto

lemma inv_flags:
  assumes inv: "table_inv t" and i: "i < length (slots t)"
    and "slot_ok (f (slots t ! i))" and "slot_key (f (slots t ! i)) = slot_key (slots t ! i)"
    and "s_indexed (f (slots t ! i)) = s_indexed (slots t ! i)"
    and "s_state (f (slots t ! i)) = s_state (slots t ! i)"
    and "s_pins (f (slots t ! i)) = s_pins (slots t ! i)"
    and "s_fill_binding (f (slots t ! i)) = s_fill_binding (slots t ! i)"
    and "s_scratch_slot (f (slots t ! i)) = s_scratch_slot (slots t ! i)"
  shows "table_inv (upd_slot i f t)"
  unfolding upd_slot_def
proof (rule table_invI, goal_cases)
  case (3 j)
  then show ?case using slots_ok_update [OF table_invD(3) [OF inv] assms(3)] by simp
next
  case 4
  then show ?case using index_ok_update [OF table_invD(4) [OF inv] i assms(4,5)] by simp
next
  case 5
  then show ?case using counts_ok_same [OF table_invD(5) [OF inv] i assms(6,7)] by simp
next
  case 6
  then show ?case using bindings_ok_same [OF table_invD(6) [OF inv] i assms(8)] by simp
next
  case 7
  then show ?case using scratch_ok_same [OF table_invD(7) [OF inv] i assms(9)] by simp
next
  case (9 j)
  then show ?case using table_invD(9) [OF inv] i assms(9) by (auto simp: nth_list_update)
qed (use inv in \<open>simp_all add: table_inv_def\<close>)

lemma inv_unreference:
  "table_inv t \<Longrightarrow> i < length (slots t) \<Longrightarrow> table_inv (upd_slot i (\<lambda>s. s\<lparr>s_referenced := b\<rparr>) t)"
  using table_invD(3) [of t i] by (intro inv_flags) (auto simp: slot_ok_def slot_key_def)

lemma inv_finishing:
  "table_inv t \<Longrightarrow> i < length (slots t) \<Longrightarrow> filling (slots t ! i) \<Longrightarrow>
     table_inv (upd_slot i (\<lambda>s. s\<lparr>s_finishing := b\<rparr>) t)"
  using table_invD(3) [of t i] by (intro inv_flags) (auto simp: slot_ok_def slot_key_def)

lemma inv_pins:
  assumes inv: "table_inv t" and i: "i < length (slots t)"
    and st: "s_state (slots t ! i) \<noteq> Free"
  shows "table_inv (upd_slot i (\<lambda>s. s\<lparr>s_pins := k, s_referenced := r\<rparr>)
           (t\<lparr>pins_total := pins_total t + k - s_pins (slots t ! i)\<rparr>))"
  unfolding upd_slot_def
proof (rule table_invI, goal_cases)
  case (3 j)
  then show ?case using slots_ok_update [OF table_invD(3) [OF inv], of _ j i] table_invD(3) [OF inv i] st
    by (simp add: slot_ok_def)
next
  case 4
  then show ?case using index_ok_update [OF table_invD(4) [OF inv] i] by (simp add: slot_key_def)
next
  case 5
  then show ?case
    using counts_ok_update [OF table_invD(5) [OF inv] i, of "(slots t ! i)\<lparr>s_pins := k, s_referenced := r\<rparr>"]
    by simp
next
  case 6
  then show ?case using bindings_ok_same [OF table_invD(6) [OF inv] i] by simp
next
  case 7
  then show ?case using scratch_ok_same [OF table_invD(7) [OF inv] i] by simp
next
  case (9 j)
  then show ?case using table_invD(9) [OF inv] i by (simp add: nth_list_update)
qed (use inv in \<open>simp_all add: table_inv_def\<close>)

lemma inv_pin_slot:
  "table_inv t \<Longrightarrow> i < length (slots t) \<Longrightarrow> s_state (slots t ! i) \<noteq> Free \<Longrightarrow> table_inv (pin_slot i t)"
  using inv_pins [of t i True "s_pins (slots t ! i) + 1"] by (simp add: pin_slot_def upd_slot_def)

lemma inv_unpin:
  assumes "table_inv t" and "i < length (slots t)" and "s_pins (slots t ! i) \<noteq> 0"
  shows "table_inv (unpin_locked i t)"
proof -
  have "s_state (slots t ! i) \<noteq> Free" using table_invD(3) [OF assms(1,2)] assms(3) by (auto simp: slot_ok_def)
  from inv_pins [OF assms(1,2) this, where k = "s_pins (slots t ! i) - 1" and r = "s_referenced (slots t ! i)"]
  show ?thesis using assms(3) by (simp add: unpin_locked_def upd_slot_def)
qed

subsection \<open>make_free\<close>

definition freed :: "slot \<Rightarrow> slot" where
  "freed s = s\<lparr>s_indexed := False, s_state := Free, s_referenced := False, s_claim := None,
     s_chunk_claims := [], s_scratch_slot := None, s_fill_binding := None\<rparr>"

lemma reset_claims_indexed [simp]: "reset_claims tp (s\<lparr>s_indexed := b\<rparr>) m = reset_claims tp s m"
  by (simp add: reset_claims_def)

definition unindexed :: "'m table \<Rightarrow> nat \<Rightarrow> index_vec" where
  "unindexed t i =
     (if s_indexed (slots t ! i)
      then index_erase (index_shift t) (slot_keys t) (index t) (slot_key (slots t ! i)) else index t)"

lemma unindex_locked_eq:
  assumes "i < length (slots t)"
  shows "unindex_locked i t =
     t\<lparr>index := unindexed t i, slots := (slots t)[i := (slots t ! i)\<lparr>s_indexed := False\<rparr>]\<rparr>"
proof (cases "s_indexed (slots t ! i)")
  case False
  then have same: "(slots t ! i)\<lparr>s_indexed := False\<rparr> = slots t ! i" by (cases "slots t ! i") simp
  show ?thesis unfolding same using False by (simp add: unindex_locked_def unindexed_def)
qed (simp add: unindex_locked_def unindexed_def upd_slot_def)

lemma make_free_eq:
  assumes "i < length (slots t)" and "s_state (slots t ! i) \<noteq> Free"
  shows "make_free tp i t = t\<lparr>slots := (slots t)[i := freed (slots t ! i)], index := unindexed t i,
     non_free := non_free t - 1, mem := reset_claims tp (slots t ! i) (mem t)\<rparr>"
  using assms by (simp add: make_free_def unindex_locked_eq upd_slot_def Let_def freed_def)

lemma inv_make_free:
  assumes inv: "table_inv t" and i: "i < length (slots t)" and pins: "s_pins (slots t ! i) = 0"
    and st: "s_state (slots t ! i) = Ready \<or> s_state (slots t ! i) = Failed"
  shows "table_inv (make_free tp i t)"
proof -
  let ?s = "slots t ! i"
  have ok: "slot_ok ?s" by (rule table_invD(3) [OF inv i])
  have "s_state ?s \<noteq> Free" using st by auto
  note eq = make_free_eq [OF i this, of tp]
  show ?thesis
    unfolding eq
  proof (rule table_invI, goal_cases)
    case (3 j)
    have "slot_ok (freed ?s)" using pins ok st by (auto simp: slot_ok_def freed_def)
    with 3 show ?case using slots_ok_update [OF table_invD(3) [OF inv]] by simp
  next
    case 4
    then show ?case
      using index_ok_erase [OF table_invD(4) [OF inv] i, of "freed ?s"]
        index_ok_update [OF table_invD(4) [OF inv] i, of "freed ?s"]
      by (simp add: unindexed_def slot_keys_eq freed_def slot_key_def)
  next
    case 5
    then show ?case using counts_ok_update [OF table_invD(5) [OF inv] i, of "freed ?s"] st pins
      by (auto simp: freed_def)
  next
    case 6
    then show ?case using bindings_ok_same [OF table_invD(6) [OF inv] i, of "freed ?s"] ok st
      by (auto simp: slot_ok_def freed_def)
  next
    case 7
    then show ?case using scratch_ok_same [OF table_invD(7) [OF inv] i, of "freed ?s"] ok st
      by (auto simp: slot_ok_def freed_def)
  next
    case (9 j)
    then show ?case using table_invD(9) [OF inv] i by (simp add: nth_list_update freed_def)
  qed (use inv in \<open>simp_all add: table_inv_def\<close>)
qed

subsection \<open>claim_victim\<close>

definition blocked :: "slot \<Rightarrow> bool" where
  "blocked s \<longleftrightarrow> s_pins s \<noteq> 0 \<or> s_state s = Filling"

text \<open>What an eviction leaves alone: every slot but the victims, and everything outside the slots.\<close>

definition evicts :: "'m table \<Rightarrow> 'm table \<Rightarrow> bool" where
  "evicts t t' \<longleftrightarrow> table_inv t' \<and> env_of t' = env_of t \<and> waiters t' = waiters t \<and>
     current_binding t' = current_binding t \<and> scratch_used t' = scratch_used t \<and>
     in_flight t' = in_flight t \<and> pins_total t' = pins_total t \<and>
     (\<forall>i < length (slots t). blocked (slots t ! i) \<longrightarrow> slots t' ! i = slots t ! i) \<and>
     (\<forall>i < length (slots t). s_pins (slots t' ! i) = s_pins (slots t ! i) \<and>
        s_epoch (slots t' ! i) = s_epoch (slots t ! i) \<and> slot_key (slots t' ! i) = slot_key (slots t ! i) \<and>
        (s_indexed (slots t' ! i) \<longrightarrow> s_indexed (slots t ! i)) \<and>
        (s_state (slots t' ! i) = s_state (slots t ! i) \<or> s_state (slots t' ! i) = Free))"

lemma evicts_refl: "table_inv t \<Longrightarrow> evicts t t"
  by (simp add: evicts_def)

lemma evicts_trans: "evicts t t' \<Longrightarrow> evicts t' t'' \<Longrightarrow> evicts t t''"
  unfolding evicts_def env_of_eq blocked_def by (metis (no_types, lifting))

lemma evicts_hand: "evicts t t' \<Longrightarrow> h < length (slots t') \<Longrightarrow> evicts t (t'\<lparr>clock_hand := h\<rparr>)"
  by (simp add: evicts_def inv_clock_hand env_of_eq)

lemma evicts_count: "evicts t t' \<Longrightarrow> evicts t (count f t')"
  by (simp add: evicts_def env_of_eq) (simp add: count_def)

lemma evicts_unreference:
  assumes "table_inv t" and "i < length (slots t)" and "\<not> blocked (slots t ! i)"
  shows "evicts t (upd_slot i (\<lambda>s. s\<lparr>s_referenced := False\<rparr>) t)"
  using assms inv_unreference [OF assms(1,2)] by (simp add: evicts_def env_of_eq upd_slot_def nth_list_update)

lemma evicts_make_free:
  assumes "table_inv t" and "i < length (slots t)" and "\<not> blocked (slots t ! i)"
    and "s_state (slots t ! i) \<noteq> Free"
  shows "evicts t (make_free tp i t)" and "s_state (slots (make_free tp i t) ! i) = Free"
proof -
  have "s_state (slots t ! i) = Ready \<or> s_state (slots t ! i) = Failed"
    using assms(3,4) by (cases "s_state (slots t ! i)") (auto simp: blocked_def)
  then have "table_inv (make_free tp i t)"
    using assms by (intro inv_make_free) (auto simp: blocked_def)
  then show "evicts t (make_free tp i t)"
    using assms(2-4) by (simp add: evicts_def make_free_eq env_of_eq nth_list_update freed_def)
  show "s_state (slots (make_free tp i t) ! i) = Free"
    using assms by (simp add: make_free_eq freed_def)
qed

lemma claim_victim_loop_result:
  assumes "claim_victim_loop tp k t = (r, t')" and "table_inv t"
  shows "evicts t t' \<and> (\<forall>i. r = Some i \<longrightarrow> i < length (slots t) \<and> s_state (slots t' ! i) = Free)"
  using assms
proof (induction k arbitrary: t)
  case 0
  then show ?case by (simp add: evicts_refl)
next
  case (Suc k)
  let ?i = "clock_hand t" and ?h = "if clock_hand t + 1 = length (slots t) then 0 else clock_hand t + 1"
  let ?t = "t\<lparr>clock_hand := ?h\<rparr>"
  let ?s = "slots t ! ?i"
  have i: "?i < length (slots t)" and h: "?h < length (slots t)"
    using table_invD(1) [OF Suc.prems(2)] by auto
  have ev: "evicts t ?t" using evicts_hand [OF evicts_refl] Suc.prems(2) h by blast
  then have inv: "table_inv ?t" by (simp add: evicts_def)
  have go: "evicts t t' \<and> (\<forall>i. r = Some i \<longrightarrow> i < length (slots t) \<and> s_state (slots t' ! i) = Free)"
    if "claim_victim_loop tp k u = (r, t')" and "evicts t u" for u
    using Suc.IH [OF that(1)] that(2) evicts_trans [OF that(2)] by (auto simp: evicts_def env_of_eq)
  consider "s_state ?s = Free" | "s_state ?s \<noteq> Free" "blocked ?s"
    | "\<not> blocked ?s" "s_state ?s = Failed"
    | "\<not> blocked ?s" "s_state ?s = Ready" "s_referenced ?s"
    | "\<not> blocked ?s" "s_state ?s = Ready" "\<not> s_referenced ?s"
    by (cases "s_state ?s") (auto simp: blocked_def)
  then show ?case
  proof cases
    case 1
    then show ?thesis using Suc.prems(1) ev i by (auto simp: Let_def)
  next
    case 2
    then have "claim_victim_loop tp k ?t = (r, t')"
      using Suc.prems(1) by (auto simp: Let_def blocked_def)
    then show ?thesis using go ev by blast
  next
    case 3
    then show ?thesis
      using Suc.prems(1) evicts_trans [OF ev evicts_make_free(1) [OF inv]]
        evicts_make_free(2) [OF inv, of ?i tp] i
      by (auto simp: Let_def blocked_def)
  next
    case 4
    then have "claim_victim_loop tp k (upd_slot ?i (\<lambda>s. s\<lparr>s_referenced := False\<rparr>) ?t) = (r, t')"
      using Suc.prems(1) by (auto simp: Let_def blocked_def)
    moreover have "evicts t (upd_slot ?i (\<lambda>s. s\<lparr>s_referenced := False\<rparr>) ?t)"
      using evicts_trans [OF ev evicts_unreference [OF inv]] i 4(1) by simp
    ultimately show ?thesis by (rule go)
  next
    case 5
    let ?c = "count (\<lambda>c. c\<lparr>evictions := evictions c + 1\<rparr>) ?t"
    have ev': "evicts t ?c" and inv': "table_inv ?c" using evicts_count [OF ev] inv by simp_all
    have "r = Some ?i" "t' = make_free tp ?i ?c"
      using Suc.prems(1) 5 by (auto simp: Let_def blocked_def)
    moreover have "?i < length (slots ?c)" "slots ?c ! ?i = ?s" using i by (simp_all add: count_def)
    ultimately show ?thesis
      using evicts_trans [OF ev' evicts_make_free(1) [OF inv']] evicts_make_free(2) [OF inv', of ?i tp] i 5
      by simp
  qed
qed

lemma claim_victim_result:
  assumes "claim_victim tp t = (r, t')" and "table_inv t"
  shows "evicts t t'" and "r = Some i \<Longrightarrow> i < length (slots t) \<and> s_state (slots t' ! i) = Free"
  using claim_victim_loop_result [OF assms [unfolded claim_victim_def]] by blast+

text \<open>
  The sweep finds a victim whenever there is one: a slot that is neither pinned nor Filling is met
  within one round, loses its reference bit there at the latest, and is taken in the next round.
\<close>

definition ripe :: "slot \<Rightarrow> bool" where
  "ripe s \<longleftrightarrow> \<not> blocked s \<and> \<not> (s_state s = Ready \<and> s_referenced s)"

lemma claim_victim_loop_step:
  assumes "clock_hand t < length (slots t)"
  obtains i u where "claim_victim_loop tp (Suc k) t = (Some i, u)"
  | u where "claim_victim_loop tp (Suc k) t = claim_victim_loop tp k u"
      and "clock_hand u = (clock_hand t + 1) mod length (slots t)" and "length (slots u) = length (slots t)"
      and "\<And>j. j \<noteq> clock_hand t \<Longrightarrow> slots u ! j = slots t ! j"
      and "\<not> ripe (slots t ! clock_hand t)"
      and "\<not> blocked (slots t ! clock_hand t) \<Longrightarrow> ripe (slots u ! clock_hand t)"
      and "clock_hand u < length (slots u)"
proof -
  let ?i = "clock_hand t" and ?h = "if clock_hand t + 1 = length (slots t) then 0 else clock_hand t + 1"
  let ?t = "t\<lparr>clock_hand := ?h\<rparr>" and ?s = "slots t ! clock_hand t"
  let ?u = "upd_slot ?i (\<lambda>s. s\<lparr>s_referenced := False\<rparr>) ?t"
  have h: "?h = (clock_hand t + 1) mod length (slots t)" "?h < length (slots t)"
    using assms by (auto simp: mod_if)
  consider "blocked ?s" "s_state ?s \<noteq> Free" | "\<not> blocked ?s" "s_state ?s = Ready" "s_referenced ?s"
    | "ripe ?s \<or> s_state ?s = Free" by (cases "s_state ?s") (auto simp: ripe_def blocked_def)
  then show ?thesis
  proof cases
    case 1
    have "claim_victim_loop tp (Suc k) t = claim_victim_loop tp k ?t"
      using 1 by (simp add: Let_def blocked_def)
    from that(2) [OF this] show ?thesis using h 1 by (simp add: ripe_def del: claim_victim_loop.simps)
  next
    case 2
    then have "claim_victim_loop tp (Suc k) t = claim_victim_loop tp k ?u"
      by (simp add: Let_def blocked_def)
    from that(2) [OF this] show ?thesis
      using h 2 assms by (simp add: upd_slot_def ripe_def blocked_def)
  next
    case 3
    then have "\<exists>i u. claim_victim_loop tp (Suc k) t = (Some i, u)"
      by (cases "s_state ?s") (auto simp: Let_def ripe_def blocked_def)
    then show ?thesis using that(1) by blast
  qed
qed

lemma claim_victim_loop_ripe:
  assumes "clock_hand t < length (slots t)" and "j < length (slots t)" and "ripe (slots t ! j)"
    and "cyc_dist (length (slots t)) (clock_hand t) j < k"
  shows "\<exists>i u. claim_victim_loop tp k t = (Some i, u)"
  using assms
proof (induction k arbitrary: t)
  case (Suc k)
  from Suc.prems(1) show ?case
  proof (cases rule: claim_victim_loop_step [where tp = tp and k = k])
    case (2 u)
    have ne: "j \<noteq> clock_hand t" using Suc.prems(3) 2(5) by auto
    have "\<exists>i v. claim_victim_loop tp k u = (Some i, v)"
      by (rule Suc.IH) (use Suc.prems 2 ne cyc_dist_Suc [of "clock_hand t" "length (slots t)" j] in \<open>simp_all del: claim_victim_loop.simps\<close>)
    then show ?thesis using 2(1) by simp
  qed blast
qed simp

lemma claim_victim_loop_unblocked:
  assumes "clock_hand t < length (slots t)" and "j < length (slots t)" and "\<not> blocked (slots t ! j)"
    and "cyc_dist (length (slots t)) (clock_hand t) j + length (slots t) < k"
  shows "\<exists>i u. claim_victim_loop tp k t = (Some i, u)"
  using assms
proof (induction k arbitrary: t)
  case (Suc k)
  from Suc.prems(1) show ?case
  proof (cases rule: claim_victim_loop_step [where tp = tp and k = k])
    case (2 u)
    have "\<exists>i v. claim_victim_loop tp k u = (Some i, v)"
    proof (cases "j = clock_hand t")
      case True
      have "cyc_dist (length (slots u)) (clock_hand u) j < k"
        unfolding 2(3)
        using cyc_dist_less [of "length (slots t)" "clock_hand u" j] Suc.prems(2,4) by linarith
      then show ?thesis
        using 2 True Suc.prems by (intro claim_victim_loop_ripe) simp_all
    next
      case False
      show ?thesis
        by (rule Suc.IH) (use Suc.prems 2 False cyc_dist_Suc [of "clock_hand t" "length (slots t)" j] in \<open>simp_all del: claim_victim_loop.simps\<close>)
    qed
    then show ?thesis using 2(1) by simp
  qed blast
qed simp

lemma claim_victim_loop_all_blocked:
  assumes "clock_hand t < length (slots t)" and "\<And>j. j < length (slots t) \<Longrightarrow> blocked (slots t ! j)"
    and "\<And>j. j < length (slots t) \<Longrightarrow> s_state (slots t ! j) \<noteq> Free"
  shows "fst (claim_victim_loop tp k t) = None"
  using assms
proof (induction k arbitrary: t)
  case (Suc k)
  let ?h = "if clock_hand t + 1 = length (slots t) then 0 else clock_hand t + 1"
  have "claim_victim_loop tp (Suc k) t = claim_victim_loop tp k (t\<lparr>clock_hand := ?h\<rparr>)"
    using Suc.prems(2,3) [OF Suc.prems(1)] by (simp add: Let_def blocked_def)
  moreover have "fst (claim_victim_loop tp k (t\<lparr>clock_hand := ?h\<rparr>)) = None"
    by (rule Suc.IH) (use Suc.prems in auto)
  ultimately show ?case by simp
qed simp

lemma claim_victim_None_iff:
  assumes inv: "table_inv t" and small: "length (slots t) < 2 ^ 31"
  shows "fst (claim_victim tp t) = None \<longleftrightarrow> (\<forall>j < length (slots t). blocked (slots t ! j))"
proof -
  let ?n = "length (slots t)"
  have steps: "unat (2 * of_nat ?n :: u32) = 2 * ?n"
    using small by (simp add: unat_word_ariths unat_of_nat take_bit_nat_eq_self)
  have hand: "clock_hand t < ?n" by (rule table_invD(1) [OF inv])
  show ?thesis
  proof
    assume none: "fst (claim_victim tp t) = None"
    show "\<forall>j < ?n. blocked (slots t ! j)"
    proof (intro allI impI, rule ccontr)
      fix j assume j: "j < ?n" "\<not> blocked (slots t ! j)"
      have "cyc_dist ?n (clock_hand t) j + ?n < 2 * ?n" using cyc_dist_less [of ?n "clock_hand t" j] j(1) by linarith
      from claim_victim_loop_unblocked [OF hand j this, of tp] none show False
        by (auto simp: claim_victim_def steps)
    qed
  next
    assume all: "\<forall>j < ?n. blocked (slots t ! j)"
    have "s_state (slots t ! j) \<noteq> Free" if "j < ?n" for j
      using all that table_invD(3) [OF inv that] by (auto simp: blocked_def slot_ok_def)
    then show "fst (claim_victim tp t) = None"
      using claim_victim_loop_all_blocked [OF hand] all by (simp add: claim_victim_def)
  qed
qed

end
