(* ===== verification/Table_Fill.thy ===== *)
theory Table_Fill
  imports Table_Inv
begin

text \<open>
  The life of a fill: \<open>start_fill_locked\<close> (admit, submit, fail) and \<open>finish_fill\<close> (wait, convert,
  publish or give up at a deadline). Each has a lemma that says what it leaves in the table and that
  the invariant is kept.
\<close>

section \<open>Starting a fill\<close>

text \<open>The slot as \<open>start_fill_locked\<close> admits it, as a successful submission leaves it, and as \<open>fail\<close> does.\<close>

definition admitted :: "'m table \<Rightarrow> u64 \<Rightarrow> slot \<Rightarrow> slot" where
  "admitted t row_index s = s\<lparr>s_row_index := row_index, s_row_generation := current_generation t,
     s_epoch := s_epoch s + 1, s_state := Filling, s_failure := Ok, s_finishing := False,
     s_scratch_slot := None, s_fill_binding := Some (b_id (current_binding t)), s_indexed := True\<rparr>"

lemma admit_slot_eq:
  assumes "i < length (slots t)"
  shows "admit_slot i row_index t = t\<lparr>slots := (slots t)[i := admitted t row_index (slots t ! i)],
     index := index_insert (index_shift t) (index t) (row_index, current_generation t) i,
     non_free := min (length (slots t)) (non_free t + 1)\<rparr>"
  using assms by (simp add: admit_slot_def upd_slot_def Let_def admitted_def)

definition fill_failed :: "status \<Rightarrow> slot \<Rightarrow> slot" where
  "fill_failed st s = s\<lparr>s_state := Failed, s_failure := st, s_indexed := False, s_fill_binding := None\<rparr>"

lemma fail_fill_eq:
  assumes "i < length (slots t)" and "s_indexed (slots t ! i)"
  shows "fail_fill i st t = (st, t\<lparr>slots := (slots t)[i := fill_failed st (slots t ! i)], index := unindexed t i\<rparr>)"
proof -
  have "slot_keys (t\<lparr>slots := (slots t)[i := (slots t ! i)\<lparr>s_state := Failed, s_failure := st\<rparr>]\<rparr>) = slot_keys t"
    using assms(1) by (auto simp: slot_keys_eq nth_list_update slot_key_def)
  then show ?thesis
    using assms by (simp add: fail_fill_def upd_slot_def unindex_locked_eq Let_def fill_failed_def
        unindexed_def slot_key_def)
qed

lemma first_free_Some: "first_free used = Some k \<Longrightarrow> k < length used \<and> \<not> used ! k"
  by (induction used arbitrary: k) (auto split: if_splits)

lemma first_free_None: "first_free used = None \<longleftrightarrow> (\<forall>k < length used. used ! k)"
  by (induction used) (auto simp: nth_Cons split: nat.splits if_splits)

text \<open>How a submission can go: the reads are accepted, or \<open>fail\<close> ran and no scratch slot is kept.\<close>

lemma submit_fill_cases:
  assumes "submit_fill tp i location fill t = (r, t')"
  obtains (submitted) m c cs sc used where "r = None"
      and "t' = t\<lparr>slots := (slots t)[i := (slots t ! i)\<lparr>s_claim := c, s_chunk_claims := cs, s_scratch_slot := sc\<rparr>],
                  scratch_used := used, mem := m\<rparr>"
      and "(active_codec t = None \<and> sc = s_scratch_slot (slots t ! i) \<and> used = scratch_used t) \<or>
           (\<exists>k. active_codec t \<noteq> None \<and> sc = Some k \<and> k < length (scratch_used t) \<and> \<not> scratch_used t ! k \<and>
              used = (scratch_used t)[k := True])"
  | (refused) st m where "r = Some st" and "t' = snd (fail_fill i st (t\<lparr>mem := m\<rparr>))"
proof (cases "active_codec t")
  case None
  show ?thesis
  proof (cases "chunks_per_row t > 1")
    case True
    obtain e cs m where sub: "submit_chunks tp (b_row_transfers (current_binding t) ! unat (loc_shard location))
        (br_offset fill) (of_nat i * c_output_row_bytes (config t))
        (chunk_reads (unat (c_fill_chunk_bytes (config t))) 0 (unat (br_length fill))) (mem t) = (e, cs, m)"
      by (metis prod_cases3)
    show ?thesis
    proof (cases e)
      case (Some error)
      then show ?thesis
        using assms sub None True by (intro refused) (auto simp: submit_fill_def fail_fill_def Let_def)
    next
      case none: None
      show ?thesis
        by (rule submitted [where m = m and c = "s_claim (slots t ! i)" and cs = cs
              and sc = "s_scratch_slot (slots t ! i)" and used = "scratch_used t"])
          (use assms sub None True none in \<open>auto simp: submit_fill_def upd_slot_def Let_def\<close>)
    qed
  next
    case False
    obtain e m where sub: "tp_submit tp (b_row_transfers (current_binding t) ! unat (loc_shard location)) fill
        (of_nat i * c_output_row_bytes (config t)) (mem t) = (e, m)" by fastforce
    show ?thesis
    proof (cases e)
      case (Inl error)
      then show ?thesis
        using assms sub None False by (intro refused) (auto simp: submit_fill_def fail_fill_def Let_def)
    next
      case (Inr c)
      show ?thesis
        by (rule submitted [where m = m and c = "Some c" and cs = "s_chunk_claims (slots t ! i)"
              and sc = "s_scratch_slot (slots t ! i)" and used = "scratch_used t"])
          (use assms sub None False Inr in \<open>auto simp: submit_fill_def upd_slot_def Let_def\<close>)
    qed
  qed
next
  case (Some codec)
  show ?thesis
  proof (cases "first_free (scratch_used t)")
    case None
    then have "r = Some Pool_exhausted" "t' = snd (fail_fill i Pool_exhausted (t\<lparr>mem := mem t\<rparr>))"
      using assms Some by (auto simp: submit_fill_def acquire_scratch_def fail_fill_def Let_def)
    then show ?thesis by (rule refused)
  next
    case free: (Some k)
    obtain e m where sub: "tp_submit tp (b_scratch_transfers (current_binding t) ! unat (loc_shard location))
        (loc_range location) (of_nat k * c_source_row_bytes (config t)) (mem t) = (e, m)" by fastforce
    show ?thesis
    proof (cases e)
      case (Inl error)
      have "(scratch_used t)[k := False] = scratch_used t"
        using first_free_Some [OF free] by (metis list_update_id)
      then have "release_scratch (Some k) (t\<lparr>scratch_used := (scratch_used t)[k := True], mem := m\<rparr>) = t\<lparr>mem := m\<rparr>"
        by (simp add: release_scratch_def)
      then show ?thesis
        using assms sub Some free Inl
        by (intro refused) (auto simp: submit_fill_def acquire_scratch_def fail_fill_def Let_def)
    next
      case (Inr c)
      have swap: "s\<lparr>s_scratch_slot := Some k, s_claim := Some c\<rparr> = s\<lparr>s_claim := Some c, s_scratch_slot := Some k\<rparr>"
        for s :: slot by (cases s) simp
      show ?thesis
        by (rule submitted [where m = m and c = "Some c" and cs = "s_chunk_claims (slots t ! i)"
              and sc = "Some k" and used = "(scratch_used t)[k := True]"])
          (use assms sub Some free Inr first_free_Some [OF free] in
            \<open>auto simp: submit_fill_def acquire_scratch_def upd_slot_def Let_def swap\<close>)
    qed
  qed
qed

lemma index_ok_insert_erase:
  assumes ok: "index_ok sh ss ix" and i: "i < length ss" "\<not> s_indexed (ss ! i)" "s_indexed s'" "\<not> s_indexed s''"
    and fresh: "\<And>j. j < length ss \<Longrightarrow> s_indexed (ss ! j) \<Longrightarrow> slot_key (ss ! j) \<noteq> slot_key s'"
  shows "index_ok sh (ss[i := s''])
     (index_erase sh (\<lambda>j. slot_key (ss[i := s'] ! j)) (index_insert sh ix (slot_key s') i) (slot_key s'))"
  using index_ok_erase [OF index_ok_insert [OF ok i(1,2,3) fresh], of i s''] i by simp

text \<open>
  The two outcomes of \<open>start_fill_locked\<close> on a free slot. Started: the slot is Filling and
  everything counts it. Failed: the slot is Failed, unindexed and refers to nothing.
\<close>

definition started :: "nat \<Rightarrow> u64 \<Rightarrow> 'm table \<Rightarrow> 'm table \<Rightarrow> bool" where
  "started i row t t' \<longleftrightarrow>
     (\<exists>s'. slots t' = (slots t)[i := s'] \<and> filling s' \<and> s_indexed s' \<and>
        slot_key s' = (row, current_generation t) \<and> s_epoch s' = s_epoch (slots t ! i) + 1 \<and>
        s_pins s' = s_pins (slots t ! i) \<and> \<not> s_finishing s' \<and>
        s_fill_binding s' = Some (b_id (current_binding t))) \<and>
     in_flight t' = in_flight t + 1 \<and>
     current_binding t' = (current_binding t)\<lparr>b_in_flight := b_in_flight (current_binding t) + 1\<rparr>"

definition start_failed :: "nat \<Rightarrow> u64 \<Rightarrow> status \<Rightarrow> 'm table \<Rightarrow> 'm table \<Rightarrow> bool" where
  "start_failed i row st t t' \<longleftrightarrow>
     (\<exists>s'. slots t' = (slots t)[i := s'] \<and> s_state s' = Failed \<and> s_failure s' = st \<and> \<not> s_indexed s' \<and>
        slot_key s' = (row, current_generation t) \<and> s_epoch s' = s_epoch (slots t ! i) + 1 \<and>
        s_pins s' = s_pins (slots t ! i) \<and> s_fill_binding s' = None \<and> s_claim s' = None \<and>
        s_chunk_claims s' = []) \<and>
     in_flight t' = in_flight t \<and> current_binding t' = current_binding t"

lemma admit_fail_result:
  assumes inv: "table_inv t" and i: "i < length (slots t)" and free: "s_state (slots t ! i) = Free"
    and miss: "table_find t row (current_generation t) = None"
    and t'_def: "t' = snd (fail_fill i st ((admit_slot i row t)\<lparr>mem := m\<rparr>))"
  shows "table_inv t'" and "env_of t' = env_of t" and "start_failed i row st t t'"
    and "waiters t' = waiters t"
proof -
  let ?s = "slots t ! i" and ?n = "length (slots t)"
  let ?a = "admitted t row ?s" and ?f = "fill_failed st (admitted t row (slots t ! i))"
  have ok: "slot_ok ?s" by (rule table_invD(3) [OF inv i])
  have busy: "min ?n (Suc (non_free t)) = Suc (non_free t)"
    using counts_ok_busy_less [OF table_invD(5) [OF inv] i free] by simp
  have t': "t' = t\<lparr>slots := (slots t)[i := ?f], non_free := Suc (non_free t), mem := m,
      index := index_erase (index_shift t) (\<lambda>j. slot_key ((slots t)[i := ?a] ! j))
                 (index_insert (index_shift t) (index t) (slot_key ?a) i) (slot_key ?a)\<rparr>"
    unfolding t'_def using i busy
    by (subst fail_fill_eq) (simp_all add: admit_slot_eq unindexed_def slot_keys_eq admitted_def slot_key_def)
  have f: "slot_ok ?f" "slot_key ?f = (row, current_generation t)" "s_state ?f = Failed" "s_failure ?f = st"
    "\<not> s_indexed ?f" "s_epoch ?f = s_epoch ?s + 1" "s_pins ?f = s_pins ?s" "s_fill_binding ?f = None"
    "s_claim ?f = None" "s_chunk_claims ?f = []" "s_scratch_slot ?f = None"
    using ok free by (auto simp: slot_ok_def fill_failed_def admitted_def slot_key_def)
  show "env_of t' = env_of t" "waiters t' = waiters t" unfolding t' by (simp_all add: env_of_eq)
  show "start_failed i row st t t'" unfolding start_failed_def t' using f by (intro conjI exI [of _ ?f]) simp_all
  have fresh: "slot_key (slots t ! j) \<noteq> slot_key ?a" if "j < ?n" "s_indexed (slots t ! j)" for j
    using table_find_None [OF inv miss that] by (simp add: admitted_def slot_key_def)
  show "table_inv t'"
    unfolding t'
  proof (rule table_invI, goal_cases)
    case (3 j)
    then show ?case using slots_ok_update [OF table_invD(3) [OF inv] f(1)] by simp
  next
    case 4
    have "\<not> s_indexed ?s" "s_indexed ?a" using ok free by (simp_all add: slot_ok_def admitted_def)
    then show ?case using index_ok_insert_erase [OF table_invD(4) [OF inv] i _ _ f(5) fresh] by simp
  next
    case 5
    then show ?case using counts_ok_update [OF table_invD(5) [OF inv] i, of ?f] f free by simp
  next
    case 6
    then show ?case using bindings_ok_same [OF table_invD(6) [OF inv] i, of ?f] f ok free
      by (simp add: slot_ok_def)
  next
    case 7
    then show ?case using scratch_ok_same [OF table_invD(7) [OF inv] i, of ?f] f ok free
      by (simp add: slot_ok_def)
  next
    case (9 j)
    then show ?case using table_invD(9) [OF inv] f i by (auto simp: nth_list_update)
  qed (use inv in \<open>simp_all add: table_inv_def\<close>)
qed

lemma admit_submit_result:
  assumes inv: "table_inv t" and i: "i < length (slots t)" and free: "s_state (slots t ! i) = Free"
    and miss: "table_find t row (current_generation t) = None"
    and t'_def: "t' = fill_started i location head
       ((admit_slot i row t)\<lparr>slots := (slots t)[i := (admitted t row (slots t ! i))
            \<lparr>s_claim := c, s_chunk_claims := cs, s_scratch_slot := sc\<rparr>], scratch_used := used, mem := m\<rparr>)"
    and sc: "(active_codec t = None \<and> sc = None \<and> used = scratch_used t) \<or>
       (\<exists>k. active_codec t \<noteq> None \<and> sc = Some k \<and> k < length (scratch_used t) \<and> \<not> scratch_used t ! k \<and>
          used = (scratch_used t)[k := True])"
  shows "table_inv t'" and "env_of t' = env_of t" and "started i row t t'" and "waiters t' = waiters t"
proof -
  let ?s = "slots t ! i" and ?n = "length (slots t)" and ?b = "current_binding t"
  let ?f = "(admitted t row ?s)\<lparr>s_claim := c, s_chunk_claims := cs, s_scratch_slot := sc,
      s_published_bytes := (if active_codec t = None then br_length (loc_range location)
                            else c_output_row_bytes (config t)), s_published_offset := head\<rparr>"
  have ok: "slot_ok ?s" by (rule table_invD(3) [OF inv i])
  have busy: "min ?n (Suc (non_free t)) = Suc (non_free t)"
    using counts_ok_busy_less [OF table_invD(5) [OF inv] i free] by simp
  have t': "t' = t\<lparr>slots := (slots t)[i := ?f], non_free := Suc (non_free t), mem := m, scratch_used := used,
      in_flight := Suc (in_flight t), current_binding := ?b\<lparr>b_in_flight := Suc (b_in_flight ?b)\<rparr>,
      counters := (counters t)\<lparr>fetches := Suc (fetches (counters t))\<rparr>,
      index := index_insert (index_shift t) (index t) (slot_key ?f) i\<rparr>"
    unfolding t'_def using i busy
    by (simp add: fill_started_def admit_slot_eq upd_slot_def count_def admitted_def slot_key_def)
  have f: "slot_ok ?f" "slot_key ?f = (row, current_generation t)" "filling ?f" "s_indexed ?f"
    "s_epoch ?f = s_epoch ?s + 1" "s_pins ?f = s_pins ?s" "s_fill_binding ?f = Some (b_id ?b)"
    "s_scratch_slot ?f = sc" "\<not> s_finishing ?f"
    using ok free by (auto simp: slot_ok_def admitted_def slot_key_def)
  show "env_of t' = env_of t" "waiters t' = waiters t" unfolding t' by (simp_all add: env_of_eq)
  show "started i row t t'" unfolding started_def t' using f by (intro conjI exI [of _ ?f]) simp_all
  have fresh: "slot_key (slots t ! j) \<noteq> slot_key ?f" if "j < ?n" "s_indexed (slots t ! j)" for j
    using table_find_None [OF inv miss that] f(2) by simp
  show "table_inv t'"
    unfolding t'
  proof (rule table_invI, goal_cases)
    case (3 j)
    then show ?case using slots_ok_update [OF table_invD(3) [OF inv] f(1)] by simp
  next
    case 4
    have "\<not> s_indexed ?s" using ok free by (simp add: slot_ok_def)
    then show ?case using index_ok_insert [OF table_invD(4) [OF inv] i _ f(4) fresh] by simp
  next
    case 5
    then show ?case using counts_ok_update [OF table_invD(5) [OF inv] i, of ?f] f(3,6) free by simp
  next
    case 6
    have "s_fill_binding ?s = None" using ok free by (simp add: slot_ok_def)
    then show ?case using bindings_ok_start [OF table_invD(6) [OF inv] i _ f(7)] by simp
  next
    case 7
    have "s_scratch_slot ?s = None" using ok free by (simp add: slot_ok_def)
    then show ?case
      using sc scratch_ok_same [OF table_invD(7) [OF inv] i, of ?f]
        scratch_ok_acquire [OF table_invD(7) [OF inv] i, of ?f] f(8) by auto
  next
    case (9 j)
    then show ?case using table_invD(9) [OF inv] f(8) i sc by (auto simp: nth_list_update)
  qed (use inv in \<open>simp_all add: table_inv_def\<close>)
qed

lemma start_fill_result:
  assumes run: "start_fill_locked tp i row t = (st, t')"
    and inv: "table_inv t" and i: "i < length (slots t)" and free: "s_state (slots t ! i) = Free"
    and miss: "table_find t row (current_generation t) = None"
  shows "table_inv t'" and "env_of t' = env_of t" and "waiters t' = waiters t"
    and "st = Ok \<and> started i row t t' \<or> start_failed i row st t t'"
proof -
  let ?a = "admit_slot i row t"
  have same: "?a\<lparr>mem := mem ?a\<rparr> = ?a" by simp
  have slots_a: "slots ?a = (slots t)[i := admitted t row (slots t ! i)]"
    and codec_a: "active_codec ?a = active_codec t" and scratch_a: "scratch_used ?a = scratch_used t"
    using i by (simp_all add: admit_slot_eq)
  have "(table_inv t' \<and> env_of t' = env_of t \<and> waiters t' = waiters t) \<and>
      (st = Ok \<and> started i row t t' \<or> start_failed i row st t t')"
  proof (cases "resolve_location (config ?a) (b_sources (current_binding ?a))
      (b_resolver (current_binding ?a)) row")
    case (Inl error)
    then have "t' = snd (fail_fill i st (?a\<lparr>mem := mem ?a\<rparr>))"
      using run same by (auto simp: start_fill_locked_def Let_def fail_fill_def)
    from admit_fail_result [OF inv i free miss this] show ?thesis by blast
  next
    case (Inr location)
    obtain fill head where w: "fill_window (c_fill_alignment (config ?a))
        (sh_bytes (b_sources (current_binding ?a) ! unat (loc_shard location))) (loc_range location) = (fill, head)"
      by fastforce
    obtain r u where sub: "submit_fill tp i location fill ?a = (r, u)" by fastforce
    have run': "(st, t') = (case r of Some error \<Rightarrow> (error, u) | None \<Rightarrow> (Ok, fill_started i location head u))"
      using run Inr w sub by (simp add: start_fill_locked_def Let_def)
    from sub show ?thesis
    proof (cases rule: submit_fill_cases)
      case (submitted m c cs sc used)
      have t': "t' = fill_started i location head (?a\<lparr>slots := (slots t)[i := (admitted t row (slots t ! i))
            \<lparr>s_claim := c, s_chunk_claims := cs, s_scratch_slot := sc\<rparr>], scratch_used := used, mem := m\<rparr>)"
        using run' submitted(1,2) i by (simp add: slots_a)
      have "s_scratch_slot (admitted t row (slots t ! i)) = None" by (simp add: admitted_def)
      then have "(active_codec t = None \<and> sc = None \<and> used = scratch_used t) \<or>
          (\<exists>k. active_codec t \<noteq> None \<and> sc = Some k \<and> k < length (scratch_used t) \<and> \<not> scratch_used t ! k \<and>
             used = (scratch_used t)[k := True])"
        using submitted(3) i by (simp add: slots_a codec_a scratch_a)
      from admit_submit_result [OF inv i free miss t' this] show ?thesis
        using run' submitted(1) by simp
    next
      case (refused st' m)
      then have "t' = snd (fail_fill i st (?a\<lparr>mem := m\<rparr>))" using run' by simp
      from admit_fail_result [OF inv i free miss this] show ?thesis by blast
    qed
  qed
  then show "table_inv t'" "env_of t' = env_of t" "waiters t' = waiters t"
    "st = Ok \<and> started i row t t' \<or> start_failed i row st t t'" by blast+
qed

section \<open>Finishing a fill\<close>

lemma leave_binding_fields [simp]:
  "slots (leave_binding b t) = slots t" "index (leave_binding b t) = index t"
  "index_shift (leave_binding b t) = index_shift t" "in_flight (leave_binding b t) = in_flight t"
  "pins_total (leave_binding b t) = pins_total t" "non_free (leave_binding b t) = non_free t"
  "scratch_used (leave_binding b t) = scratch_used t" "tickets (leave_binding b t) = tickets t"
  "tickets_held (leave_binding b t) = tickets_held t" "clock_hand (leave_binding b t) = clock_hand t"
  "active_codec (leave_binding b t) = active_codec t" "next_binding (leave_binding b t) = next_binding t"
  "config (leave_binding b t) = config t" "waiters (leave_binding b t) = waiters t"
  "chunks_per_row (leave_binding b t) = chunks_per_row t" "mem (leave_binding b t) = mem t"
  "current_generation (leave_binding b t) = current_generation t"
  "worker_stopping (leave_binding b t) = worker_stopping t" "counters (leave_binding b t) = counters t"
  by (simp_all add: leave_binding_def split: option.splits)

lemma leave_binding_cong:
  assumes "current_binding t' = current_binding t" and "retiring_binding t' = retiring_binding t"
  shows "current_binding (leave_binding b t') = current_binding (leave_binding b t)"
    and "retiring_binding (leave_binding b t') = retiring_binding (leave_binding b t)"
  using assms by (simp_all add: leave_binding_def split: option.splits)

definition published_slot :: "bool \<Rightarrow> status \<Rightarrow> slot \<Rightarrow> slot" where
  "published_slot converting result s =
     s\<lparr>s_claim := None, s_chunk_claims := [], s_fill_binding := None, s_finishing := False,
       s_scratch_slot := (if converting then None else s_scratch_slot s),
       s_state := (if result = Ok then Ready else Failed),
       s_failure := (if result = Ok then s_failure s else result),
       s_indexed := (result = Ok \<and> s_indexed s)\<rparr>"

text \<open>The table as it is when the result is known: reset, scratch released, binding left.\<close>

definition retired :: "'m transport \<Rightarrow> nat \<Rightarrow> nat option \<Rightarrow> 'm table \<Rightarrow> 'm table" where
  "retired tp slot scratch t0 =
     (let s = slots t0 ! slot;
          converting = (active_codec t0 \<noteq> None);
          t = t0\<lparr>mem := reset_claims tp s (mem t0)\<rparr>;
          t = upd_slot slot (\<lambda>s. s\<lparr>s_claim := None, s_chunk_claims := []\<rparr>) t;
          t = (if converting then upd_slot slot (\<lambda>s. s\<lparr>s_scratch_slot := None\<rparr>)
                                    (release_scratch scratch t) else t);
          t = t\<lparr>in_flight := in_flight t - 1\<rparr>
      in upd_slot slot (\<lambda>s. s\<lparr>s_fill_binding := None\<rparr>) (leave_binding (s_fill_binding s) t))"

lemma publish_fill_retired:
  "publish_fill tp slot scratch result t0 =
     (let t = retired tp slot scratch t0; converting = (active_codec t0 \<noteq> None) in
      upd_slot slot (\<lambda>s. s\<lparr>s_finishing := False\<rparr>)
       (if result = Ok then
          upd_slot slot (\<lambda>s. s\<lparr>s_state := Ready\<rparr>)
            (if converting then count (\<lambda>c. c\<lparr>conversions := conversions c + 1\<rparr>) t else t)
        else
          unindex_locked slot
            (upd_slot slot (\<lambda>s. s\<lparr>s_state := Failed, s_failure := result\<rparr>)
              (count (\<lambda>c. c\<lparr>failed := failed c + 1,
                 codec_failures := codec_failures c + (if result = Codec_failed then 1 else 0)\<rparr>) t))))"
  by (simp add: publish_fill_def retired_def Let_def)

lemma retired_fields:
  assumes "i < length (slots t)"
  shows "slots (retired tp i scratch t) = (slots t)[i := (slots t ! i)
      \<lparr>s_claim := None, s_chunk_claims := [],
       s_scratch_slot := (if active_codec t \<noteq> None then None else s_scratch_slot (slots t ! i)),
       s_fill_binding := None\<rparr>]"
    and "index (retired tp i scratch t) = index t" and "index_shift (retired tp i scratch t) = index_shift t"
    and "in_flight (retired tp i scratch t) = in_flight t - 1"
    and "pins_total (retired tp i scratch t) = pins_total t" and "non_free (retired tp i scratch t) = non_free t"
    and "scratch_used (retired tp i scratch t) =
       (if active_codec t \<noteq> None then scratch_used (release_scratch scratch t) else scratch_used t)"
    and "tickets (retired tp i scratch t) = tickets t" and "tickets_held (retired tp i scratch t) = tickets_held t"
    and "clock_hand (retired tp i scratch t) = clock_hand t"
    and "active_codec (retired tp i scratch t) = active_codec t"
    and "next_binding (retired tp i scratch t) = next_binding t" and "config (retired tp i scratch t) = config t"
    and "waiters (retired tp i scratch t) = waiters t"
    and "chunks_per_row (retired tp i scratch t) = chunks_per_row t"
    and "current_generation (retired tp i scratch t) = current_generation t"
    and "worker_stopping (retired tp i scratch t) = worker_stopping t"
    and "counters (retired tp i scratch t) = counters t"
    and "mem (retired tp i scratch t) = reset_claims tp (slots t ! i) (mem t)"
    and "current_binding (retired tp i scratch t) =
       current_binding (leave_binding (s_fill_binding (slots t ! i)) t)"
    and "retiring_binding (retired tp i scratch t) =
       retiring_binding (leave_binding (s_fill_binding (slots t ! i)) t)"
  using assms
  by (auto simp: retired_def upd_slot_def Let_def release_scratch_def leave_binding_def split: option.splits)

text \<open>What \<open>publish_fill\<close> leaves behind.\<close>

lemma publish_fill_fields:
  assumes i: "i < length (slots t)" and ix: "s_indexed (slots t ! i)"
    and t'_def: "t' = publish_fill tp i scratch result t"
  shows "slots t' = (slots t)[i := published_slot (active_codec t \<noteq> None) result (slots t ! i)]"
    and "index t' = (if result = Ok then index t
       else index_erase (index_shift t) (\<lambda>j. slot_key (slots t ! j)) (index t) (slot_key (slots t ! i)))"
    and "index_shift t' = index_shift t"
    and "in_flight t' = in_flight t - 1" and "pins_total t' = pins_total t" and "non_free t' = non_free t"
    and "scratch_used t' = (if active_codec t \<noteq> None then scratch_used (release_scratch scratch t) else scratch_used t)"
    and "tickets t' = tickets t" and "tickets_held t' = tickets_held t" and "clock_hand t' = clock_hand t"
    and "active_codec t' = active_codec t" and "next_binding t' = next_binding t" and "config t' = config t"
    and "waiters t' = waiters t" and "chunks_per_row t' = chunks_per_row t"
    and "current_generation t' = current_generation t" and "worker_stopping t' = worker_stopping t"
    and "mem t' = reset_claims tp (slots t ! i) (mem t)"
    and "current_binding t' = current_binding (leave_binding (s_fill_binding (slots t ! i)) t)"
    and "retiring_binding t' = retiring_binding (leave_binding (s_fill_binding (slots t ! i)) t)"
proof -
  let ?r = "retired tp i scratch t" and ?s = "slots t ! i" and ?conv = "active_codec t \<noteq> None"
  let ?f = "\<lambda>c. c\<lparr>failed := failed c + 1, codec_failures := codec_failures c + (if result = Codec_failed then 1 else 0)\<rparr>"
  have len: "i < length (slots ?r)" using i by (simp add: retired_fields)
  have keys: "(\<lambda>j. slot_key ((slots t)[i := s'] ! j)) = (\<lambda>j. slot_key (slots t ! j))"
    if "slot_key s' = slot_key ?s" for s'
    using that i by (auto simp: nth_list_update)
  note unfold = t'_def publish_fill_retired Let_def
    and rules = unindex_locked_eq upd_slot_def count_def retired_fields
  show "slots t' = (slots t)[i := published_slot ?conv result ?s]"
    unfolding unfold using i ix len by (cases ?s) (auto simp: rules published_slot_def)
  show "index t' = (if result = Ok then index t
       else index_erase (index_shift t) (\<lambda>j. slot_key (slots t ! j)) (index t) (slot_key ?s))"
    unfolding unfold using i ix len by (auto simp: rules unindexed_def slot_keys_eq keys)
  show "index_shift t' = index_shift t"
    and "in_flight t' = in_flight t - 1" and "pins_total t' = pins_total t" and "non_free t' = non_free t"
    and "scratch_used t' = (if active_codec t \<noteq> None then scratch_used (release_scratch scratch t) else scratch_used t)"
    and "tickets t' = tickets t" and "tickets_held t' = tickets_held t" and "clock_hand t' = clock_hand t"
    and "active_codec t' = active_codec t" and "next_binding t' = next_binding t" and "config t' = config t"
    and "waiters t' = waiters t" and "chunks_per_row t' = chunks_per_row t"
    and "current_generation t' = current_generation t" and "worker_stopping t' = worker_stopping t"
    and "mem t' = reset_claims tp ?s (mem t)"
    and "current_binding t' = current_binding (leave_binding (s_fill_binding ?s) t)"
    and "retiring_binding t' = retiring_binding (leave_binding (s_fill_binding ?s) t)"
    unfolding unfold using i len by (simp_all add: rules)
qed

lemma inv_publish_fill:
  assumes inv: "table_inv t" and i: "i < length (slots t)" and fill: "filling (slots t ! i)"
    and scratch: "scratch = s_scratch_slot (slots t ! i)"
  shows "table_inv (publish_fill tp i scratch result t)"
proof -
  let ?s = "slots t ! i" and ?conv = "active_codec t \<noteq> None"
  let ?f = "published_slot ?conv result ?s"
  have ok: "slot_ok ?s" by (rule table_invD(3) [OF inv i])
  have ix: "s_indexed ?s" using ok fill by (simp add: slot_ok_def)
  note f = publish_fill_fields [OF i ix refl, of tp scratch result]
  have sc: "s_scratch_slot ?f = None" using table_invD(9) [OF inv _ i] by (auto simp: published_slot_def)
  have key: "slot_key ?f = slot_key ?s" by (simp add: published_slot_def)
  show ?thesis
  proof (rule table_invI, unfold f, goal_cases)
    case (3 j)
    have "slot_ok ?f" using ok ix fill sc by (auto simp: slot_ok_def published_slot_def)
    with 3 show ?case using slots_ok_update [OF table_invD(3) [OF inv]] by simp
  next
    case 4
    then show ?case
      using index_ok_update [OF table_invD(4) [OF inv] i key] index_ok_erase [OF table_invD(4) [OF inv] i ix, of ?f] ix
      by (auto simp: published_slot_def)
  next
    case 5
    then show ?case using counts_ok_update [OF table_invD(5) [OF inv] i, of ?f] fill
      by (auto simp: published_slot_def)
  next
    case 6
    then show ?case using bindings_ok_leave [OF table_invD(6) [OF inv] i, of ?f] by (simp add: published_slot_def)
  next
    case 7
    then show ?case
      using scratch_ok_release [OF table_invD(7) [OF inv] i sc] scratch_ok_same [OF table_invD(7) [OF inv] i, of ?f]
        table_invD(9) [OF inv _ i] sc scratch by auto
  next
    case (9 j)
    then show ?case using table_invD(9) [OF inv] i sc by (auto simp: nth_list_update)
  qed (use inv in \<open>simp_all add: table_inv_def\<close>)
qed

lemma inv_relinquish:
  "table_inv t \<Longrightarrow> i < length (slots t) \<Longrightarrow> filling (slots t ! i) \<Longrightarrow> table_inv (relinquish_fill i t)"
  by (simp add: relinquish_fill_def inv_finishing)

lemma convert_fill_frame:
  assumes "convert_fill tp i raw t = (result, t')"
  shows "t' = t\<lparr>mem := mem t'\<rparr>"
  using assms by (auto simp: convert_fill_def Let_def split: option.splits if_splits prod.splits)

lemma convert_fill_Ok:
  assumes "convert_fill tp i raw t = (Ok, t')"
  shows "raw = MP_Ok"
  using assms
  by (auto simp: convert_fill_def Let_def from_mempage_Ok split: option.splits if_splits prod.splits)

text \<open>
  What the other threads leave alone while this one finishes the fill of slot \<open>i\<close>: the slot itself,
  but for its pins and its reference bit.
\<close>

definition same_fill :: "slot \<Rightarrow> slot \<Rightarrow> bool" where
  "same_fill s s' \<longleftrightarrow> s'\<lparr>s_pins := 0, s_referenced := False\<rparr> = s\<lparr>s_pins := 0, s_referenced := False\<rparr>"

lemma same_fill_refl [simp]: "same_fill s s" by (simp add: same_fill_def)

lemma same_fill_trans: "same_fill s s' \<Longrightarrow> same_fill s' s'' \<Longrightarrow> same_fill s s''" by (simp add: same_fill_def)

lemma same_fill_update [simp]:
  "same_fill s (s\<lparr>s_pins := k\<rparr>)" "same_fill s (s\<lparr>s_referenced := b\<rparr>)"
  "same_fill s (s\<lparr>s_pins := k, s_referenced := b\<rparr>)"
  by (cases s, simp add: same_fill_def)+

lemma same_fillD:
  assumes "same_fill s s'"
  shows "s_state s' = s_state s" and "s_epoch s' = s_epoch s" and "slot_key s' = slot_key s"
    and "s_claim s' = s_claim s" and "s_chunk_claims s' = s_chunk_claims s"
    and "s_scratch_slot s' = s_scratch_slot s" and "s_finishing s' = s_finishing s"
    and "s_fill_binding s' = s_fill_binding s" and "s_published_bytes s' = s_published_bytes s"
    and "s_published_offset s' = s_published_offset s" and "s_failure s' = s_failure s"
    and "s_indexed s' = s_indexed s"
  using assms by (cases s; cases s'; simp add: same_fill_def slot_key_def)+

definition leaves_fill :: "nat \<Rightarrow> 'm table \<Rightarrow> 'm table \<Rightarrow> bool" where
  "leaves_fill i t t' \<longleftrightarrow> table_inv t' \<and> config t' = config t \<and> active_codec t' = active_codec t \<and>
     length (slots t') = length (slots t) \<and> same_fill (slots t ! i) (slots t' ! i)"

lemma finish_fill_result:
  assumes inv: "table_inv t" and i: "i < length (slots t)" and fill: "filling (slots t ! i)"
    and mine: "s_finishing (slots t ! i)"
    and others: "\<forall>u. table_inv u \<longrightarrow> filling (slots u ! i) \<longrightarrow> s_finishing (slots u ! i) \<longrightarrow> leaves_fill i u (others u)"
    and wait: "await_fill tp (slots t ! i) deadline (mem t) = (raw, m)"
  defines "u \<equiv> others (t\<lparr>mem := m\<rparr>)" and "t' \<equiv> finish_fill tp others i deadline t"
  shows "table_inv t'" and "length (slots t') = length (slots t)" and "config t' = config t"
    and "active_codec t' = active_codec t"
    and "\<And>j. j \<noteq> i \<Longrightarrow> slots t' ! j = slots u ! j"
    and "s_pins (slots t' ! i) = s_pins (slots u ! i)"
    and "s_epoch (slots t' ! i) = s_epoch (slots t ! i)" and "slot_key (slots t' ! i) = slot_key (slots t ! i)"
    and "s_published_bytes (slots t' ! i) = s_published_bytes (slots t ! i)"
    and "s_published_offset (slots t' ! i) = s_published_offset (slots t ! i)"
    and "s_state (slots t' ! i) = (if raw = MP_Timeout then Filling
           else if fst (convert_fill tp i raw u) = Ok then Ready else Failed)"
    and "\<not> s_finishing (slots t' ! i)"
proof -
  have "leaves_fill i (t\<lparr>mem := m\<rparr>) u" using others inv fill mine by (simp add: u_def)
  then have u: "table_inv u" "i < length (slots u)" "length (slots u) = length (slots t)" "config u = config t"
      "active_codec u = active_codec t" and same: "same_fill (slots t ! i) (slots u ! i)"
    using i by (simp_all add: leaves_fill_def)
  note sf = same_fillD [OF same]
  have fu: "filling (slots u ! i)" using fill sf by simp
  then have ix: "s_indexed (slots u ! i)" using table_invD(3) [OF u(1,2)] by (simp add: slot_ok_def)
  obtain result v where conv: "convert_fill tp i raw u = (result, v)" by fastforce
  have v: "v = u\<lparr>mem := mem v\<rparr>" by (rule convert_fill_frame [OF conv])
  have sv: "slots v = slots u" by (subst v) simp
  have fv: "table_inv v" "config v = config u" "active_codec v = active_codec u"
    using u(1) by (subst v, simp)+
  let ?sc = "s_scratch_slot (slots t ! i)"
  have t': "t' = (if raw = MP_Timeout then relinquish_fill i u else publish_fill tp i ?sc result v)"
    using fill wait conv by (simp add: t'_def u_def finish_fill_def)
  have iv: "i < length (slots v)" "s_indexed (slots v ! i)" "filling (slots v ! i)"
    "?sc = s_scratch_slot (slots v ! i)" using u(2) ix fu sf sv by simp_all
  note pf = publish_fill_fields [OF iv(1,2) refl, of tp ?sc result]
  show "table_inv t'"
    unfolding t' using inv_relinquish [OF u(1,2) fu] inv_publish_fill [OF fv(1) iv(1,3,4)] by simp
  show "length (slots t') = length (slots t)" "config t' = config t" "active_codec t' = active_codec t"
    using pf(1,11,13) fv sv u by (simp_all add: t' relinquish_fill_def upd_slot_def)
  show "slots t' ! j = slots u ! j" if "j \<noteq> i" for j
    using that pf(1) sv by (simp add: t' relinquish_fill_def upd_slot_def)
  show "s_pins (slots t' ! i) = s_pins (slots u ! i)" "s_epoch (slots t' ! i) = s_epoch (slots t ! i)"
    "slot_key (slots t' ! i) = slot_key (slots t ! i)"
    "s_published_bytes (slots t' ! i) = s_published_bytes (slots t ! i)"
    "s_published_offset (slots t' ! i) = s_published_offset (slots t ! i)" "\<not> s_finishing (slots t' ! i)"
    "s_state (slots t' ! i) = (if raw = MP_Timeout then Filling
       else if fst (convert_fill tp i raw u) = Ok then Ready else Failed)"
    using pf(1) sv u(2) sf fu conv by (simp_all add: t' relinquish_fill_def upd_slot_def published_slot_def)
qed

end
