(* ===== verification/Table_Ops.thy ===== *)
theory Table_Ops
  imports Table_Fill
begin

text \<open>
  The public operations of \<open>Table\<close> over the lemmas of the slot lifecycle: construction, \<open>try_get\<close>,
  the admission phase of \<open>resolve_into\<close>, \<open>prefetch\<close>, \<open>invalidate\<close>, tickets and leases. Every one
  keeps the invariant; \<open>admits\<close> says what an admission may change of the rows in use.
\<close>

section \<open>Construction\<close>

lemma inv_new_table:
  assumes "0 < c_budget_rows cfg" and "b_id b = 0" and "b_in_flight b = 0"
  shows "table_inv (new_table cfg b m)"
proof -
  let ?n = "unat (c_budget_rows cfg)"
  have n: "0 < ?n" "?n < 2 ^ 32" using assms(1) unsigned_less [of "c_budget_rows cfg"]
    by (simp_all add: unat_gt_0)
  obtain k where k: "bit_ceil (?n * 2) = 2 ^ k" "?n * 2 \<le> 2 ^ k" "(2::nat) ^ k < 2 * (?n * 2)"
    using bit_ceil_power [of "?n * 2"] n(1) by auto
  have "(2::nat) ^ k < 2 ^ 34" using k(3) n(2) by simp
  then have k34: "k < 34" using nat_power_less_imp_less [of 2 k 34] by simp
  have k0: "0 < k" using k(2) n(1) by (cases k) auto
  have sh: "64 - k < 64" "64 - (64 - k) = k" using k34 k0 by simp_all
  have ix: "index_ok (64 - k) (replicate ?n fresh_slot) (replicate (2 ^ k) None)"
    using index_invar_fresh [OF sh(1)] sh k(2) by (auto simp: index_ok_def fresh_slot_def)
  show ?thesis
    unfolding new_table_def Let_def k(1)
    by (rule table_invI)
      (use n assms ix in \<open>auto simp: slot_ok_def fresh_slot_def counts_ok_def bindings_ok_def fills_of_def
        scratch_ok_def tickets_ok_def fresh_ticket_def countr_zero_power\<close>)
qed

lemma make_binding_fresh:
  "make_binding tp cfg chunks codec ident sources resolve m = (Inr b, m') \<Longrightarrow>
     b_id b = ident \<and> b_in_flight b = 0 \<and> b_sources b = sources \<and> b_resolver b = resolve"
  by (auto simp: make_binding_def split: if_splits prod.splits sum.splits)

lemma create_result:
  assumes "create tp cfg m = Inr t"
  shows "create_check cfg = None" and "table_inv t" and "config t = cfg"
    and "length (slots t) = unat (c_budget_rows cfg)" and "current_generation t = c_generation cfg"
    and "\<And>i. i < length (slots t) \<Longrightarrow> slots t ! i = fresh_slot"
proof -
  have chk: "create_check cfg = None" using assms by (cases "create_check cfg") (simp_all add: create_def)
  then obtain resolve where res: "c_resolve_extent cfg = Some resolve"
    using assms by (cases "c_resolve_extent cfg") (simp_all add: create_def)
  obtain r m' where mk': "make_binding tp cfg (chunks_per_row_of cfg) (active_codec_of cfg) 0 (c_sources cfg) resolve m = (r, m')"
    by fastforce
  obtain b where r: "r = Inr b" and t: "t = new_table cfg b m'"
    using assms chk res mk' by (cases r) (simp_all add: create_def)
  note mk = mk' [unfolded r]
  have "0 < c_budget_rows cfg" using create_checkD(1) [OF chk] by (simp add: word_gt_0)
  then show "table_inv t" using inv_new_table [of cfg b m'] make_binding_fresh [OF mk] unfolding t by simp
  show "create_check cfg = None" by (rule chk)
  show "config t = cfg" "length (slots t) = unat (c_budget_rows cfg)" "current_generation t = c_generation cfg"
    "\<And>i. i < length (slots t) \<Longrightarrow> slots t ! i = fresh_slot"
    by (simp_all add: t new_table_def Let_def)
qed

section \<open>What an admission may change\<close>

definition admits :: "'m table \<Rightarrow> 'm table \<Rightarrow> bool" where
  "admits t t' \<longleftrightarrow> table_inv t' \<and> config t' = config t \<and> active_codec t' = active_codec t \<and>
     current_generation t' = current_generation t \<and> length (slots t') = length (slots t) \<and>
     (\<forall>j < length (slots t). blocked (slots t ! j) \<longrightarrow>
        same_fill (slots t ! j) (slots t' ! j) \<and> s_pins (slots t ! j) \<le> s_pins (slots t' ! j))"

lemma admits_refl: "table_inv t \<Longrightarrow> admits t t"
  by (simp add: admits_def)

lemma blocked_same: "same_fill s s' \<Longrightarrow> s_pins s \<le> s_pins s' \<Longrightarrow> blocked s \<Longrightarrow> blocked s'"
  using same_fillD(1) [of s s'] by (auto simp: blocked_def)

lemma admits_trans:
  assumes "admits t t'" and "admits t' t''"
  shows "admits t t''"
proof -
  have "same_fill (slots t ! j) (slots t'' ! j) \<and> s_pins (slots t ! j) \<le> s_pins (slots t'' ! j)"
    if "j < length (slots t)" "blocked (slots t ! j)" for j
  proof -
    have 1: "same_fill (slots t ! j) (slots t' ! j)" "s_pins (slots t ! j) \<le> s_pins (slots t' ! j)"
      using assms(1) that by (simp_all add: admits_def)
    then have "same_fill (slots t' ! j) (slots t'' ! j)" "s_pins (slots t' ! j) \<le> s_pins (slots t'' ! j)"
      using assms that blocked_same by (auto simp: admits_def)
    then show ?thesis using 1 same_fill_trans by (meson order_trans)
  qed
  then show ?thesis using assms by (simp add: admits_def)
qed

lemma admits_evicts: "evicts t t' \<Longrightarrow> admits t t'"
  by (simp add: evicts_def admits_def env_of_eq)

lemma admits_count: "admits t t' \<Longrightarrow> admits t (count f t')"
  by (simp add: admits_def) (simp add: count_def)

lemma admits_waiters: "admits t t' \<Longrightarrow> admits t (t'\<lparr>waiters := w\<rparr>)"
  by (simp add: admits_def)

lemma admits_pin:
  assumes "table_inv t" and "i < length (slots t)" and "s_state (slots t ! i) \<noteq> Free"
  shows "admits t (pin_slot i t)"
  using inv_pin_slot [OF assms] assms(2) by (simp add: admits_def) (simp add: pin_slot_def upd_slot_def nth_list_update)

lemma admits_start:
  assumes run: "start_fill_locked tp i row t = (st, t')"
    and inv: "table_inv t" and i: "i < length (slots t)" and free: "s_state (slots t ! i) = Free"
    and miss: "table_find t row (current_generation t) = None"
  shows "admits t t'"
proof -
  note r = start_fill_result [OF run inv i free miss]
  have "\<not> blocked (slots t ! i)" using table_invD(3) [OF inv i] free by (simp add: blocked_def slot_ok_def)
  then have "slots t' ! j = slots t ! j" if "blocked (slots t ! j)" for j
    using r(4) that by (cases "j = i") (auto simp: started_def start_failed_def)
  then show ?thesis using r(1,2) by (simp add: admits_def env_of_eq)
qed

text \<open>A miss: the victim is found and the fill is started, or the pool is exhausted.\<close>

lemma evicts_miss:
  assumes "table_inv t" and "evicts t t'" and "table_find t row (current_generation t) = None"
  shows "table_find t' row (current_generation t') = None"
proof (rule ccontr)
  assume "table_find t' row (current_generation t') \<noteq> None"
  then obtain i where "table_find t' row (current_generation t') = Some i" by auto
  then have i: "i < length (slots t')" "s_indexed (slots t' ! i)" "slot_key (slots t' ! i) = (row, current_generation t')"
    using table_find_iff assms(2) by (auto simp: evicts_def)
  then have "i < length (slots t)" "s_indexed (slots t ! i)" "slot_key (slots t ! i) = (row, current_generation t)"
    using assms(2) by (auto simp: evicts_def env_of_eq)
  then show False using table_find_None [OF assms(1,3)] by blast
qed

text \<open>
  A miss under the lock: the clock sweep makes a slot free and the fill is started there. The
  rows in use stay as they are, and so do all pins.
\<close>

lemma miss_result:
  assumes inv: "table_inv t" and miss: "table_find t row (current_generation t) = None"
    and victim: "claim_victim tp t = (Some i, u)" and run: "start_fill_locked tp i row u = (st, t')"
  shows "admits t t'" and "i < length (slots t)" and "s_pins (slots t' ! i) = 0" and "s_pins (slots t ! i) = 0"
    and "slot_key (slots t' ! i) = (row, current_generation t)" and "s_state (slots t' ! i) \<noteq> Free"
    and "\<And>j. j < length (slots t) \<Longrightarrow> s_pins (slots t' ! j) = s_pins (slots t ! j)"
    and "s_epoch (slots t' ! i) = s_epoch (slots t ! i) + 1"
    and "st = Ok \<Longrightarrow> filling (slots t' ! i) \<or> s_failure (slots t' ! i) = Ok"
    and "st \<noteq> Ok \<Longrightarrow> s_state (slots t' ! i) = Failed \<and> \<not> s_indexed (slots t' ! i) \<and> s_failure (slots t' ! i) = st"
    and "waiters t' = waiters t" and "tickets t' = tickets t" and "tickets_held t' = tickets_held t"
proof -
  have ev: "evicts t u" and i: "i < length (slots t)" and free: "s_state (slots u ! i) = Free"
    using claim_victim_result [OF victim inv] by blast+
  have invu: "table_inv u" and len: "length (slots u) = length (slots t)" and iu: "i < length (slots u)"
    and gen: "current_generation u = current_generation t"
    using ev i by (simp_all add: evicts_def env_of_eq)
  note r = start_fill_result [OF run invu iu free evicts_miss [OF inv ev miss]]
  have pins: "s_pins (slots u ! i) = 0" using table_invD(3) [OF invu iu] free by (simp add: slot_ok_def)
  have pu: "s_pins (slots u ! j) = s_pins (slots t ! j)" if "j < length (slots t)" for j
    using ev that by (simp add: evicts_def)
  show "admits t t'"
    using admits_trans [OF admits_evicts [OF ev] admits_start [OF run invu iu free evicts_miss [OF inv ev miss]]] .
  show "i < length (slots t)" by (rule i)
  show "s_pins (slots t' ! i) = 0" "slot_key (slots t' ! i) = (row, current_generation t)"
    "s_state (slots t' ! i) \<noteq> Free"
    using r(4) iu pins gen by (auto simp: started_def start_failed_def)
  show "s_pins (slots t ! i) = 0" using pu [OF i] pins by simp
  show "s_pins (slots t' ! j) = s_pins (slots t ! j)" if "j < length (slots t)" for j
    using r(4) pu [OF that] pins iu by (cases "j = i") (auto simp: started_def start_failed_def)
  have "s_epoch (slots u ! i) = s_epoch (slots t ! i)" using ev i by (simp add: evicts_def)
  then show "s_epoch (slots t' ! i) = s_epoch (slots t ! i) + 1"
    using r(4) iu by (auto simp: started_def start_failed_def)
  show "filling (slots t' ! i) \<or> s_failure (slots t' ! i) = Ok" if "st = Ok"
    using r(4) that iu by (auto simp: started_def start_failed_def)
  show "s_state (slots t' ! i) = Failed \<and> \<not> s_indexed (slots t' ! i) \<and> s_failure (slots t' ! i) = st" if "st \<noteq> Ok"
    using r(4) that iu by (auto simp: started_def start_failed_def)
  show "waiters t' = waiters t" "tickets t' = tickets t" "tickets_held t' = tickets_held t"
    using r(2,3) ev by (simp_all add: evicts_def env_of_eq)
qed

section \<open>Leases\<close>

text \<open>
  A lease the table has given out and not taken back: its slot still has its epoch and its row, and
  is pinned. \<open>pins_of ls j\<close> is the number of leases of \<open>ls\<close> on slot \<open>j\<close>.
\<close>

definition lease_ok :: "'m table \<Rightarrow> lease \<Rightarrow> bool" where
  "lease_ok t l \<longleftrightarrow> l_slot l < length (slots t) \<and> s_epoch (slots t ! l_slot l) = l_epoch l \<and>
     slot_key (slots t ! l_slot l) = (l_row_index l, l_generation l) \<and> s_pins (slots t ! l_slot l) \<noteq> 0"

definition pins_of :: "lease list \<Rightarrow> nat \<Rightarrow> nat" where
  "pins_of ls j = tally (\<lambda>l. of_bool (l_slot l = j)) ls"

lemma pins_of_simps [simp]:
  "pins_of [] j = 0" "pins_of (l # ls) j = of_bool (l_slot l = j) + pins_of ls j"
  "pins_of (xs @ ys) j = pins_of xs j + pins_of ys j"
  by (simp_all add: pins_of_def tally_def)

lemma pins_of_pos: "l \<in> set ls \<Longrightarrow> 0 < pins_of ls (l_slot l)"
  by (induction ls) auto

lemma lease_ok_admits:
  assumes "lease_ok t l" and "admits t t'"
  shows "lease_ok t' l" and "same_fill (slots t ! l_slot l) (slots t' ! l_slot l)"
proof -
  have i: "l_slot l < length (slots t)" and b: "blocked (slots t ! l_slot l)"
    using assms(1) by (simp_all add: lease_ok_def blocked_def)
  then have sf: "same_fill (slots t ! l_slot l) (slots t' ! l_slot l)"
    "s_pins (slots t ! l_slot l) \<le> s_pins (slots t' ! l_slot l)" using assms(2) by (simp_all add: admits_def)
  then show "lease_ok t' l"
    using assms same_fillD [OF sf(1)] by (auto simp: lease_ok_def admits_def)
  show "same_fill (slots t ! l_slot l) (slots t' ! l_slot l)" by (rule sf(1))
qed

lemma pin_slot_fields [simp]:
  "length (slots (pin_slot i t)) = length (slots t)" "config (pin_slot i t) = config t"
  "current_generation (pin_slot i t) = current_generation t" "mem (pin_slot i t) = mem t"
  "counters (pin_slot i t) = counters t" "in_flight (pin_slot i t) = in_flight t"
  "tickets (pin_slot i t) = tickets t" "waiters (pin_slot i t) = waiters t"
  by (simp_all add: pin_slot_def upd_slot_def)

lemma pin_slot_nth:
  "j < length (slots t) \<Longrightarrow> slots (pin_slot i t) ! j =
     (if j = i then (slots t ! j)\<lparr>s_pins := s_pins (slots t ! j) + 1, s_referenced := True\<rparr> else slots t ! j)"
  by (simp add: pin_slot_def upd_slot_def nth_list_update)

lemma count_fields [simp]:
  "slots (count f t) = slots t" "config (count f t) = config t" "mem (count f t) = mem t"
  "current_generation (count f t) = current_generation t" "counters (count f t) = f (counters t)"
  "in_flight (count f t) = in_flight t" "index (count f t) = index t" "index_shift (count f t) = index_shift t"
  "tickets (count f t) = tickets t" "waiters (count f t) = waiters t" "tickets_held (count f t) = tickets_held t"
  by (simp_all add: count_def)

lemma slot_keys_count [simp]: "slot_keys (count f t) = slot_keys t"
  by (simp add: slot_keys_eq)

text \<open>\<open>try_get\<close> gives a lease exactly when the row is resident and Ready, and touches nothing else.\<close>

lemma find_state:
  assumes "table_inv t" and "table_find t row g = Some i"
  shows "i < length (slots t)" and "slot_key (slots t ! i) = (row, g)"
    and "s_state (slots t ! i) = Ready \<or> filling (slots t ! i)"
proof -
  show i: "i < length (slots t)" and "slot_key (slots t ! i) = (row, g)"
    using assms table_find_iff by auto
  show "s_state (slots t ! i) = Ready \<or> filling (slots t ! i)"
    using assms table_find_iff [OF assms(1)] table_invD(3) [OF assms(1) i] by (auto simp: slot_ok_def)
qed

lemma try_get_result:
  assumes inv: "table_inv t" and run: "try_get row t = (r, t')"
  shows "admits t t'" and "mem t' = mem t" and "in_flight t' = in_flight t"
    and "r = Some l \<Longrightarrow> lease_ok t' l \<and> l_row_index l = row \<and> l_generation l = current_generation t \<and>
           s_state (slots t' ! l_slot l) = Ready \<and> l_bytes l = published_span t' (l_slot l) \<and>
           (\<forall>j < length (slots t). s_pins (slots t' ! j) = s_pins (slots t ! j) + of_bool (j = l_slot l))"
    and "r = None \<Longrightarrow> slots t' = slots t"
    and "r \<noteq> None \<longleftrightarrow> row < c_row_count (config t) \<and>
           (\<exists>i < length (slots t). s_state (slots t ! i) = Ready \<and> slot_key (slots t ! i) = (row, current_generation t))"
proof -
  let ?hit = "row < c_row_count (config t) \<and>
      (\<exists>i < length (slots t). s_state (slots t ! i) = Ready \<and> slot_key (slots t ! i) = (row, current_generation t))"
  have hit: "?hit \<longleftrightarrow> row < c_row_count (config t) \<and>
      (\<exists>i. table_find t row (current_generation t) = Some i \<and> s_state (slots t ! i) = Ready)"
    using table_find_iff [OF inv] table_invD(3) [OF inv] by (auto simp: slot_ok_def)
  show "r \<noteq> None \<longleftrightarrow> ?hit"
    using run unfolding hit
    by (auto simp: try_get_def Let_def not_less split: if_splits option.splits)
  show "mem t' = mem t" "in_flight t' = in_flight t"
    using run by (auto simp: try_get_def Let_def split: if_splits option.splits)
  show "slots t' = slots t" if "r = None"
    using run that by (auto simp: try_get_def Let_def split: if_splits option.splits)
  have got: "\<exists>i. table_find t row (current_generation t) = Some i \<and> s_state (slots t ! i) = Ready \<and>
      t' = count (\<lambda>c. c\<lparr>hits := hits c + 1\<rparr>) (pin_slot i t) \<and> l = make_lease i row (published_span t' i) t'"
    if "r = Some l" for l
    using run that by (auto simp: try_get_def Let_def split: if_splits option.splits)
  show "admits t t'"
  proof (cases r)
    case None
    then show ?thesis using run inv
      by (auto simp: try_get_def Let_def admits_refl admits_count split: if_splits option.splits)
  next
    case (Some l)
    from got [OF this] obtain i where "table_find t row (current_generation t) = Some i"
      "s_state (slots t ! i) = Ready" "t' = count (\<lambda>c. c\<lparr>hits := hits c + 1\<rparr>) (pin_slot i t)" by blast
    then show ?thesis using admits_count [OF admits_pin [OF inv]] find_state [OF inv] by simp
  qed
  show "lease_ok t' l \<and> l_row_index l = row \<and> l_generation l = current_generation t \<and>
      s_state (slots t' ! l_slot l) = Ready \<and> l_bytes l = published_span t' (l_slot l) \<and>
      (\<forall>j < length (slots t). s_pins (slots t' ! j) = s_pins (slots t ! j) + of_bool (j = l_slot l))"
    if "r = Some l"
  proof -
    from got [OF that] obtain i where i: "table_find t row (current_generation t) = Some i"
      "s_state (slots t ! i) = Ready" "t' = count (\<lambda>c. c\<lparr>hits := hits c + 1\<rparr>) (pin_slot i t)"
      "l = make_lease i row (published_span t' i) t'" by blast
    note f = find_state [OF inv i(1)]
    show ?thesis using i(2,3) f
      by (simp add: i(4) make_lease_def lease_ok_def pin_slot_nth) (simp add: slot_key_def)
  qed
qed

section \<open>Phase A of resolve_into\<close>

lemma admit_row_result:
  assumes inv: "table_inv t" and run: "admit_row tp row t = (r, t')"
  shows "admits t t'"
    and "r = Inl e \<Longrightarrow> e \<noteq> Ok \<and> (\<forall>j < length (slots t). s_pins (slots t' ! j) = s_pins (slots t ! j))"
    and "r = Inr l \<Longrightarrow> lease_ok t' l \<and> l_row_index l = row \<and> l_generation l = current_generation t \<and>
           (\<forall>j < length (slots t). s_pins (slots t' ! j) = s_pins (slots t ! j) + of_bool (j = l_slot l))"
proof -
  have "admits t t' \<and>
     (\<forall>e. r = Inl e \<longrightarrow> e \<noteq> Ok \<and> (\<forall>j < length (slots t). s_pins (slots t' ! j) = s_pins (slots t ! j))) \<and>
     (\<forall>l. r = Inr l \<longrightarrow> lease_ok t' l \<and> l_row_index l = row \<and> l_generation l = current_generation t \<and>
        (\<forall>j < length (slots t). s_pins (slots t' ! j) = s_pins (slots t ! j) + of_bool (j = l_slot l)))"
  proof (cases "table_find t row (current_generation t)")
    case (Some i)
    note f = find_state [OF inv Some]
    define u where "u = (if filling (slots t ! i) then count (\<lambda>c. c\<lparr>coalesced := coalesced c + 1\<rparr>) t else t)"
    have u: "table_inv u" "slots u = slots t" "admits t u"
      using inv by (auto simp: u_def admits_refl admits_count)
    define v where "v = pin_slot i u"
    have v: "admits t v" and sv: "slots v = slots (pin_slot i t)"
      using admits_trans [OF u(3) admits_pin [OF u(1)]] f u(2)
      by (auto simp: v_def pin_slot_def upd_slot_def)
    have t': "admits t t'" "slots t' = slots (pin_slot i t)" "r = Inr (make_lease i row (0, 0) t')"
      using run Some v sv admits_count [OF v]
      by (auto simp: admit_row_def Let_def u_def v_def split: if_splits)
    show ?thesis
      using t' f by (simp add: make_lease_def lease_ok_def pin_slot_nth) (simp add: slot_key_def)
  next
    case None
    obtain w u where vict: "claim_victim tp t = (w, u)" by fastforce
    show ?thesis
    proof (cases w)
      case no: None
      then have "admits t t'" "r = Inl Pool_exhausted" "evicts t t'"
        using run None vict claim_victim_result(1) [OF vict inv] admits_evicts
        by (auto simp: admit_row_def)
      then show ?thesis by (simp add: evicts_def)
    next
      case (Some i)
      obtain st v where start: "start_fill_locked tp i row u = (st, v)" by fastforce
      note m = miss_result [OF inv None vict [unfolded Some] start]
      have len: "length (slots v) = length (slots t)" and invv: "table_inv v"
        using m(1) by (simp_all add: admits_def)
      show ?thesis
      proof (cases "st = Ok")
        case False
        then have "r = Inl st" "t' = v" using run None vict Some start by (auto simp: admit_row_def)
        then show ?thesis using m(1,7) False by simp
      next
        case True
        then have t': "t' = pin_slot i v" and r: "r = Inr (make_lease i row (0, 0) t')"
          using run None vict Some start by (auto simp: admit_row_def Let_def)
        have "admits t t'"
          unfolding t' using admits_trans [OF m(1) admits_pin [OF invv]] m(2,6) len by simp
        moreover have "lease_ok t' (make_lease i row (0, 0) t') \<and> s_row_generation (slots t' ! i) = current_generation t"
          using m(2,5) len by (simp add: t' make_lease_def lease_ok_def pin_slot_nth) (simp add: slot_key_def)
        moreover have "s_pins (slots t' ! j) = s_pins (slots t ! j) + of_bool (j = i)" if "j < length (slots t)" for j
          using m(7) [OF that] that len by (auto simp: t' pin_slot_nth)
        ultimately show ?thesis by (auto simp: r make_lease_def)
      qed
    qed
  qed
  then show "admits t t'" and "r = Inl e \<Longrightarrow> e \<noteq> Ok \<and> (\<forall>j < length (slots t). s_pins (slots t' ! j) = s_pins (slots t ! j))"
    and "r = Inr l \<Longrightarrow> lease_ok t' l \<and> l_row_index l = row \<and> l_generation l = current_generation t \<and>
           (\<forall>j < length (slots t). s_pins (slots t' ! j) = s_pins (slots t ! j) + of_bool (j = l_slot l))"
    by blast+
qed

lemma admit_rows_result:
  assumes "table_inv t" and "admit_rows tp rows t = (failure, ls, t')"
  shows "admits t t' \<and> list_all (lease_ok t') ls \<and> map l_row_index ls = take (length ls) rows \<and>
     length ls \<le> length rows \<and> (failure = Ok \<longleftrightarrow> length ls = length rows) \<and>
     list_all (\<lambda>l. l_generation l = current_generation t) ls \<and>
     (\<forall>j < length (slots t). s_pins (slots t' ! j) = s_pins (slots t ! j) + pins_of ls j)"
  using assms
proof (induction rows arbitrary: t ls)
  case Nil
  then show ?case by (simp add: admits_refl)
next
  case (Cons row rows)
  obtain r u where row: "admit_row tp row t = (r, u)" by fastforce
  note a = admit_row_result [OF Cons.prems(1) row]
  show ?case
  proof (cases r)
    case (Inl e)
    then show ?thesis using a(1) a(2) [OF Inl] Cons.prems(2) row by auto
  next
    case (Inr l)
    obtain ls' where rest: "admit_rows tp rows u = (failure, ls', t')" and ls: "ls = l # ls'"
      using Cons.prems(2) row Inr by (auto split: prod.splits)
    have "table_inv u" using a(1) by (simp add: admits_def)
    note ih = Cons.IH [OF this rest]
    have len: "length (slots u) = length (slots t)" "current_generation u = current_generation t"
      using a(1) by (simp_all add: admits_def)
    have "admits t t'" using admits_trans [OF a(1)] ih by blast
    moreover have "lease_ok t' l" using lease_ok_admits(1) [of u l t'] ih a(3) [OF Inr] by blast
    moreover have "s_pins (slots t' ! j) = s_pins (slots t ! j) + pins_of ls j" if "j < length (slots t)" for j
    proof -
      have "s_pins (slots t' ! j) = s_pins (slots u ! j) + pins_of ls' j" using ih that len by simp
      moreover have "s_pins (slots u ! j) = s_pins (slots t ! j) + of_bool (j = l_slot l)"
        using a(3) [OF Inr] that by blast
      ultimately show ?thesis by (simp add: ls eq_commute)
    qed
    ultimately show ?thesis using ih a(3) [OF Inr] len by (simp add: ls)
  qed
qed

section \<open>Releasing leases\<close>

text \<open>A release changes the pins of one slot and nothing else that a lease or a fill sees.\<close>

definition releases :: "(nat \<Rightarrow> nat) \<Rightarrow> 'm table \<Rightarrow> 'm table \<Rightarrow> bool" where
  "releases k t t' \<longleftrightarrow> table_inv t' \<and> config t' = config t \<and> active_codec t' = active_codec t \<and>
     current_generation t' = current_generation t \<and> length (slots t') = length (slots t) \<and>
     mem t' = mem t \<and> in_flight t' = in_flight t \<and> counters t' = counters t \<and>
     (\<forall>j < length (slots t). same_fill (slots t ! j) (slots t' ! j) \<and>
        s_pins (slots t' ! j) = s_pins (slots t ! j) - k j)"

lemma release_lease_result:
  assumes "table_inv t" and "i < length (slots t)" and "s_epoch (slots t ! i) = epoch" and "s_pins (slots t ! i) \<noteq> 0"
  obtains t' where "release_lease i epoch t = Some t'" and "releases (\<lambda>j. of_bool (i = j)) t t'"
proof
  show "release_lease i epoch t = Some (unpin_locked i t)" using assms by (simp add: release_lease_def)
  show "releases (\<lambda>j. of_bool (i = j)) t (unpin_locked i t)"
    using assms inv_unpin [OF assms(1,2,4)]
    by (auto simp: releases_def) (auto simp: unpin_locked_def upd_slot_def nth_list_update)
qed

definition held_ok :: "'m table \<Rightarrow> lease list \<Rightarrow> bool" where
  "held_ok t ls \<longleftrightarrow>
     (\<forall>l \<in> set ls. l_slot l < length (slots t) \<and> s_epoch (slots t ! l_slot l) = l_epoch l) \<and>
     (\<forall>j < length (slots t). pins_of ls j \<le> s_pins (slots t ! j))"

fun leases_in :: "lease option list \<Rightarrow> lease list" where
  "leases_in [] = []"
| "leases_in (None # out) = leases_in out"
| "leases_in (Some l # out) = l # leases_in out"

lemma leases_in_map [simp]: "leases_in (map Some ls) = ls"
  by (induction ls) simp_all

lemma held_ok_release:
  assumes held: "held_ok t (l # ls)" and rel: "releases (\<lambda>j. of_bool (l_slot l = j)) t u"
  shows "held_ok u ls"
  unfolding held_ok_def
proof (intro conjI ballI allI impI)
  fix l' assume "l' \<in> set ls"
  then show "l_slot l' < length (slots u)" "s_epoch (slots u ! l_slot l') = l_epoch l'"
    using held rel same_fillD(2) by (auto simp: held_ok_def releases_def)
next
  fix j assume "j < length (slots u)"
  then have "j < length (slots t)" "s_pins (slots u ! j) = s_pins (slots t ! j) - of_bool (l_slot l = j)"
    using rel by (simp_all add: releases_def)
  moreover from this have "of_bool (l_slot l = j) + pins_of ls j \<le> s_pins (slots t ! j)"
    using held by (simp add: held_ok_def)
  ultimately show "pins_of ls j \<le> s_pins (slots u ! j)" by linarith
qed

lemma release_leases_result:
  assumes "table_inv t" and "held_ok t (leases_in out)"
  shows "\<exists>t'. release_leases out t = Some t' \<and> releases (pins_of (leases_in out)) t t'"
  using assms
proof (induction out arbitrary: t)
  case Nil
  then show ?case by (simp add: releases_def)
next
  case (Cons entry out)
  show ?case
  proof (cases entry)
    case None
    then show ?thesis using Cons by simp
  next
    case (Some l)
    let ?ls = "leases_in out"
    have held: "held_ok t (l # ?ls)" using Cons.prems(2) Some by simp
    have l: "l_slot l < length (slots t)" "s_epoch (slots t ! l_slot l) = l_epoch l" "s_pins (slots t ! l_slot l) \<noteq> 0"
      using held by (auto simp: held_ok_def)
    obtain u where u: "release_lease (l_slot l) (l_epoch l) t = Some u" "releases (\<lambda>j. of_bool (l_slot l = j)) t u"
      by (rule release_lease_result [OF Cons.prems(1) l])
    have "held_ok u ?ls" by (rule held_ok_release [OF held u(2)])
    moreover have "table_inv u" using u(2) by (simp add: releases_def)
    ultimately obtain t' where t': "release_leases out u = Some t'" "releases (pins_of ?ls) u t'"
      using Cons.IH by blast
    have "releases (pins_of (l # ?ls)) t t'"
      using u(2) t'(2) same_fill_trans by (auto simp: releases_def)
    then show ?thesis using u(1) t'(1) Some by (simp del: pins_of_simps)
  qed
qed

section \<open>Prefetch and tickets\<close>

lemma prefetch_row_result:
  assumes inv: "table_inv t" and run: "prefetch_row tp row t = ((w, epoch), t')"
  shows "admits t t'" and "tickets t' = tickets t" and "tickets_held t' = tickets_held t"
    and "waiters t' = waiters t"
    and "\<And>j. j < length (slots t) \<Longrightarrow> s_pins (slots t' ! j) = s_pins (slots t ! j)"
    and "w = Some i \<Longrightarrow> i < length (slots t') \<and> epoch = s_epoch (slots t' ! i) \<and>
           slot_key (slots t' ! i) = (row, current_generation t)"
    and "w = None \<Longrightarrow> fst (claim_victim tp t) = None"
proof -
  have "admits t t' \<and> (tickets t' = tickets t \<and> tickets_held t' = tickets_held t \<and> waiters t' = waiters t) \<and>
    (\<forall>j < length (slots t). s_pins (slots t' ! j) = s_pins (slots t ! j)) \<and>
    (\<forall>i. w = Some i \<longrightarrow> i < length (slots t') \<and> epoch = s_epoch (slots t' ! i) \<and>
       slot_key (slots t' ! i) = (row, current_generation t)) \<and>
    (w = None \<longrightarrow> fst (claim_victim tp t) = None)"
  proof (cases "table_find t row (current_generation t)")
    case (Some i)
    then show ?thesis
      using run find_state [OF inv Some] inv
      by (auto simp: prefetch_row_def Let_def admits_refl admits_count split: if_splits)
  next
    case None
    obtain v u where vict: "claim_victim tp t = (v, u)" by fastforce
    show ?thesis
    proof (cases v)
      case no: None
      then have "w = None" "t' = u" using run None vict by (auto simp: prefetch_row_def)
      then show ?thesis using claim_victim_result(1) [OF vict inv] vict no admits_evicts
        by (auto simp: evicts_def env_of_eq)
    next
      case (Some i)
      obtain st x where start: "start_fill_locked tp i row u = (st, x)" by fastforce
      note m = miss_result [OF inv None vict [unfolded Some] start]
      have "w = Some i" "t' = x" "epoch = s_epoch (slots x ! i)"
        using run None vict Some start by (auto simp: prefetch_row_def)
      moreover have "length (slots x) = length (slots t)" using m(1) by (simp add: admits_def)
      ultimately show ?thesis using m(1,2,5,7,11-13) by simp
    qed
  qed
  then show "admits t t'" and "tickets t' = tickets t" and "tickets_held t' = tickets_held t"
    and "waiters t' = waiters t" and "\<And>j. j < length (slots t) \<Longrightarrow> s_pins (slots t' ! j) = s_pins (slots t ! j)"
    and "w = Some i \<Longrightarrow> i < length (slots t') \<and> epoch = s_epoch (slots t' ! i) \<and>
           slot_key (slots t' ! i) = (row, current_generation t)"
    and "w = None \<Longrightarrow> fst (claim_victim tp t) = None"
    by blast+
qed

lemma prefetch_rows_result:
  assumes "table_inv t"
  shows "admits t (prefetch_rows tp at rows t) \<and> tickets (prefetch_rows tp at rows t) = tickets t \<and>
     tickets_held (prefetch_rows tp at rows t) = tickets_held t \<and>
     length (waiters (prefetch_rows tp at rows t)) = length (waiters t) \<and>
     (\<forall>j. j < at \<or> at + length rows \<le> j \<longrightarrow> waiters (prefetch_rows tp at rows t) ! j = waiters t ! j) \<and>
     (\<forall>j < length (slots t). s_pins (slots (prefetch_rows tp at rows t) ! j) = s_pins (slots t ! j))"
  using assms
proof (induction rows arbitrary: at t)
  case Nil
  then show ?case by (simp add: admits_refl)
next
  case (Cons row rows)
  obtain w epoch u where row: "prefetch_row tp row t = ((w, epoch), u)" by (metis surj_pair)
  note r = prefetch_row_result [OF Cons.prems row]
  let ?u = "u\<lparr>waiters := (waiters u)[at := (w, epoch)]\<rparr>"
  have au: "admits t ?u" by (rule admits_waiters [OF r(1)])
  then have "table_inv ?u" and len: "length (slots u) = length (slots t)" by (simp_all add: admits_def)
  note ih = Cons.IH [OF this(1), of "at + 1"]
  have "prefetch_rows tp at (row # rows) t = prefetch_rows tp (at + 1) rows ?u" by (simp add: row)
  moreover have "admits t (prefetch_rows tp (at + 1) rows ?u)" using admits_trans [OF au] ih by blast
  ultimately show ?case using ih r(2-5) len by simp
qed

lemma find_free_record_Some: "find_free_record rs = Some i \<Longrightarrow> i < length rs \<and> \<not> tr_in_use (rs ! i)"
  by (induction rs arbitrary: i) (auto split: if_splits)

lemma find_free_record_None: "find_free_record rs = None \<longleftrightarrow> (\<forall>r \<in> set rs. tr_in_use r)"
  by (induction rs) auto

lemma tickets_ok_take:
  assumes "tickets_ok ts held" and "i < length ts" and "\<not> tr_in_use (ts ! i)" and "tr_held r" and "tr_in_use r"
  shows "tickets_ok (ts[i := r]) (held + 1)"
proof -
  have "\<not> tr_held (ts ! i)" using assms(1-3) by (auto simp: tickets_ok_def)
  then show ?thesis
    using assms tally_update_inc [of i ts "\<lambda>r. of_bool (tr_held r)" r 1] set_update_subset_insert [of ts i r]
    by (auto simp: tickets_ok_def)
qed

lemma tickets_ok_drop:
  assumes "tickets_ok ts held" and "i < length ts" and "tr_held (ts ! i)" and "\<not> tr_held r" and "\<not> tr_in_use r"
  shows "tickets_ok (ts[i := r]) (held - 1)"
  using assms tally_update_dec [of i ts "\<lambda>r. of_bool (tr_held r)" r 1] set_update_subset_insert [of ts i r]
  by (auto simp: tickets_ok_def)

lemma inv_tickets: "table_inv t \<Longrightarrow> tickets_ok ts h \<Longrightarrow> table_inv (t\<lparr>tickets := ts, tickets_held := h\<rparr>)"
  by (simp add: table_inv_def)

lemma admits_tickets: "admits t t \<Longrightarrow> tickets_ok ts h \<Longrightarrow> admits t (t\<lparr>tickets := ts, tickets_held := h\<rparr>)"
  by (simp add: admits_def inv_tickets)

lemma prefetch_result:
  assumes inv: "table_inv t" and run: "prefetch tp rows t = (r, t')"
  shows "admits t t'"
    and "\<And>j. j < length (slots t) \<Longrightarrow> s_pins (slots t' ! j) = s_pins (slots t ! j)"
    and "r = Inl e \<Longrightarrow> t' = t"
    and "r = Inr tk \<Longrightarrow> pt_record tk < length (tickets t) \<and> \<not> tr_in_use (tickets t ! pt_record tk) \<and>
       tickets t' = (tickets t)[pt_record tk := \<lparr>tr_generation = pt_generation tk, tr_count = length rows,
         tr_held = True, tr_in_use = True\<rparr>] \<and>
       pt_generation tk = tr_generation (tickets t ! pt_record tk) + 1 \<and> tickets_held t' = tickets_held t + 1"
proof -
  have "admits t t' \<and> (\<forall>j < length (slots t). s_pins (slots t' ! j) = s_pins (slots t ! j)) \<and>
    (\<forall>e. r = Inl e \<longrightarrow> t' = t) \<and>
    (\<forall>tk. r = Inr tk \<longrightarrow> pt_record tk < length (tickets t) \<and> \<not> tr_in_use (tickets t ! pt_record tk) \<and>
       tickets t' = (tickets t)[pt_record tk := \<lparr>tr_generation = pt_generation tk, tr_count = length rows,
         tr_held = True, tr_in_use = True\<rparr>] \<and>
       pt_generation tk = tr_generation (tickets t ! pt_record tk) + 1 \<and> tickets_held t' = tickets_held t + 1)"
  proof (cases r)
    case (Inl e)
    then have "t' = t" using run by (auto simp: prefetch_def Let_def split: if_splits option.splits)
    then show ?thesis using Inl admits_refl [OF inv] by simp
  next
    case (Inr tk)
    then obtain i where i: "find_free_record (tickets t) = Some i"
      using run by (auto simp: prefetch_def Let_def split: if_splits option.splits)
    let ?rec = "\<lparr>tr_generation = tr_generation (tickets t ! i) + 1, tr_count = length rows, tr_held = True, tr_in_use = True\<rparr>"
    let ?u = "t\<lparr>tickets := (tickets t)[i := ?rec], tickets_held := tickets_held t + 1\<rparr>"
    let ?at = "i * unat (c_max_batch_rows (config t))"
    have tk: "tk = \<lparr>pt_record = i, pt_generation = tr_generation (tickets t ! i) + 1\<rparr>"
      and t': "t' = prefetch_rows tp ?at rows ?u"
      using run Inr i by (auto simp: prefetch_def Let_def split: if_splits)
    note free = find_free_record_Some [OF i]
    have au: "admits t ?u"
      using admits_tickets [OF admits_refl [OF inv]] tickets_ok_take [OF table_invD(8) [OF inv], of i ?rec] free by simp
    then have "table_inv ?u" by (simp add: admits_def)
    note pr = prefetch_rows_result [OF this, of tp ?at rows]
    have "admits t t'" unfolding t' using admits_trans [OF au] pr by blast
    then show ?thesis using pr free Inr tk by (simp add: t')
  qed
  then show "admits t t'" and "\<And>j. j < length (slots t) \<Longrightarrow> s_pins (slots t' ! j) = s_pins (slots t ! j)"
    and "r = Inl e \<Longrightarrow> t' = t"
    and "r = Inr tk \<Longrightarrow> pt_record tk < length (tickets t) \<and> \<not> tr_in_use (tickets t ! pt_record tk) \<and>
       tickets t' = (tickets t)[pt_record tk := \<lparr>tr_generation = pt_generation tk, tr_count = length rows,
         tr_held = True, tr_in_use = True\<rparr>] \<and>
       pt_generation tk = tr_generation (tickets t ! pt_record tk) + 1 \<and> tickets_held t' = tickets_held t + 1"
    by blast+
qed

lemma inv_discard_ticket:
  assumes "table_inv t" and "i < length (tickets t)" and "discard_ticket i g t = Some t'"
  shows "table_inv t'" and "slots t' = slots t"
  using assms tickets_ok_drop [OF table_invD(8) [OF assms(1)] assms(2)]
  by (auto simp: discard_ticket_def Let_def inv_tickets split: if_splits)

section \<open>Invalidation\<close>

lemma bindings_ok_rotate:
  assumes "bindings_ok ss cur ret nxt" and "case ret of None \<Rightarrow> True | Some r \<Rightarrow> b_in_flight r = 0"
    and "b_id b = nxt" and "b_in_flight b = 0"
  shows "bindings_ok ss b (Some cur) (nxt + 1)"
proof -
  have used: "b' = b_id cur" if "i < length ss" "s_fill_binding (ss ! i) = Some b'" for i b'
    using that assms(1,2) fills_of_pos [OF that] by (cases ret) (auto simp: bindings_ok_def, metis less_irrefl)
  have "fills_of nxt ss = 0"
    using assms(1) used by (auto simp: fills_of_def tally_eq_0 bindings_ok_def)
  then show ?thesis using assms used by (auto simp: bindings_ok_def)
qed

lemma bindings_ok_drop:
  assumes "bindings_ok ss cur ret nxt" and "case ret of None \<Rightarrow> True | Some r \<Rightarrow> b_in_flight r = 0"
  shows "bindings_ok ss cur None nxt"
  using assms fills_of_pos by (cases ret) (fastforce simp: bindings_ok_def)+

lemma invalidate_result:
  assumes inv: "table_inv t" and run: "invalidate tp g sources resolve t = (st, t')"
  shows "table_inv t'" and "slots t' = slots t" and "config t' = config t" and "active_codec t' = active_codec t"
    and "current_generation t' \<in> {current_generation t, g}"
proof -
  let ?stuck = "case retiring_binding t of None \<Rightarrow> False | Some b \<Rightarrow> b_in_flight b \<noteq> 0"
  have "table_inv t' \<and> slots t' = slots t \<and> config t' = config t \<and> active_codec t' = active_codec t \<and>
      current_generation t' \<in> {current_generation t, g}"
  proof (cases "sources = [] \<or> (\<exists>shard \<in> set sources. sh_bytes shard = 0) \<or> ?stuck")
    case True
    then have "t' = t" using run by (simp add: invalidate_def split: if_split_asm)
    then show ?thesis using inv by simp
  next
    case False
    let ?r = "case resolve of Some r \<Rightarrow> r | None \<Rightarrow> b_resolver (current_binding t)"
    obtain r m where mk: "make_binding tp (config t) (chunks_per_row t) (active_codec t) (next_binding t)
        sources ?r (mem t) = (r, m)" by fastforce
    have ret: "case retiring_binding t of None \<Rightarrow> True | Some r \<Rightarrow> b_in_flight r = 0"
      using False by (auto split: option.splits)
    note bo = table_invD(6) [OF inv]
    show ?thesis
    proof (cases r)
      case (Inl e)
      then have "t' = t\<lparr>retiring_binding := None, mem := m\<rparr>" using run False mk by (simp add: invalidate_def Let_def cong: option.case_cong)
      then show ?thesis using inv bindings_ok_drop [OF bo ret] by (simp add: table_inv_def)
    next
      case (Inr b)
      then have "t' = t\<lparr>mem := m, retiring_binding := Some (current_binding t), current_binding := b,
          next_binding := next_binding t + 1, current_generation := g\<rparr>"
        using run False mk by (simp add: invalidate_def Let_def cong: option.case_cong)
      then show ?thesis
        using inv bindings_ok_rotate [OF bo ret, of b] make_binding_fresh [OF mk [unfolded Inr]]
        by (simp add: table_inv_def)
    qed
  qed
  then show "table_inv t'" and "slots t' = slots t" and "config t' = config t" and "active_codec t' = active_codec t"
    and "current_generation t' \<in> {current_generation t, g}" by blast+
qed

end
