(* ===== verification/Table_System.thy ===== *)
theory Table_System
  imports Table_Ops
begin

text \<open>
  The table as its threads run it. A step is one critical section of \<open>lock_\<close> of one thread, or a
  step of the transport and of a codec, which write memory without the lock. The state is the table
  with the leases that callers hold. Reachable states satisfy the table's invariant, account for
  every pin by exactly one lease, and never take a leased row away.
\<close>

section \<open>Steps\<close>

type_synonym 'm sys = "'m table \<times> lease list"

inductive sys_step :: "'m transport \<Rightarrow> 'm sys \<Rightarrow> 'm sys \<Rightarrow> bool" for tp :: "'m transport" where
  hit: "try_get row t = (Some l, t') \<Longrightarrow> sys_step tp (t, ls) (t', l # ls)"
| miss: "try_get row t = (None, t') \<Longrightarrow> sys_step tp (t, ls) (t', ls)"
| admit: "admit_rows tp rows t = (failure, new, t') \<Longrightarrow> sys_step tp (t, ls) (t', new @ ls)"
| expose: "s_state (slots t ! l_slot l) = Ready \<Longrightarrow>
    sys_step tp (t, xs @ l # ys) (t, xs @ l\<lparr>l_bytes := published_span t (l_slot l)\<rparr> # ys)"
| release: "release_lease (l_slot l) (l_epoch l) t = Some t' \<Longrightarrow> sys_step tp (t, xs @ l # ys) (t', xs @ ys)"
| claim: "i < length (slots t) \<Longrightarrow> filling (slots t ! i) \<Longrightarrow> \<not> s_finishing (slots t ! i) \<Longrightarrow>
    sys_step tp (t, ls) (upd_slot i (\<lambda>s. s\<lparr>s_finishing := True\<rparr>) t, ls)"
| publish: "i < length (slots t) \<Longrightarrow> filling (slots t ! i) \<Longrightarrow> s_finishing (slots t ! i) \<Longrightarrow>
    sys_step tp (t, ls) (publish_fill tp i (s_scratch_slot (slots t ! i)) result t, ls)"
| relinquish: "i < length (slots t) \<Longrightarrow> filling (slots t ! i) \<Longrightarrow> s_finishing (slots t ! i) \<Longrightarrow>
    sys_step tp (t, ls) (relinquish_fill i t, ls)"
| prefetch: "prefetch tp rows t = (r, t') \<Longrightarrow> sys_step tp (t, ls) (t', ls)"
| discard: "i < length (tickets t) \<Longrightarrow> discard_ticket i g t = Some t' \<Longrightarrow> sys_step tp (t, ls) (t', ls)"
| invalidate: "invalidate tp g sources resolve t = (st, t') \<Longrightarrow> sys_step tp (t, ls) (t', ls)"
| progress: "sys_step tp (t, ls) (t\<lparr>mem := m\<rparr>, ls)"

definition sys_inv :: "'m sys \<Rightarrow> bool" where
  "sys_inv s \<longleftrightarrow> (case s of (t, ls) \<Rightarrow>
     table_inv t \<and> list_all (lease_ok t) ls \<and>
     (\<forall>j < length (slots t). s_pins (slots t ! j) = pins_of ls j) \<and>
     (\<forall>l \<in> set ls. l_bytes l = (0, 0) \<or>
        s_state (slots t ! l_slot l) = Ready \<and> l_bytes l = published_span t (l_slot l)))"

section \<open>What one step does to one slot\<close>

text \<open>
  A pinned or Filling slot keeps its epoch, its row and the span it publishes. Its state changes
  only by the publication of its own fill.
\<close>

definition slot_kept :: "slot \<Rightarrow> slot \<Rightarrow> bool" where
  "slot_kept s s' \<longleftrightarrow> s_epoch s' = s_epoch s \<and> slot_key s' = slot_key s \<and>
     s_published_bytes s' = s_published_bytes s \<and> s_published_offset s' = s_published_offset s \<and>
     (s_state s' = s_state s \<or> filling s \<and> s_finishing s \<and> s_state s' \<in> {Ready, Failed})"

lemma slot_kept_refl [simp]: "slot_kept s s" by (simp add: slot_kept_def)

lemma same_fill_kept: "same_fill s s' \<Longrightarrow> slot_kept s s'"
  using same_fillD [of s s'] by (simp add: slot_kept_def)

lemma slot_kept_trans:
  "slot_kept s s' \<Longrightarrow> slot_kept s' s'' \<Longrightarrow> (s_state s' = s_state s \<Longrightarrow> s_finishing s' = s_finishing s) \<Longrightarrow> slot_kept s s''"
  by (auto simp: slot_kept_def)

lemma sys_step_slot:
  assumes step: "sys_step tp (t, ls) (t', ls')" and inv: "table_inv t"
    and j: "j < length (slots t)" and b: "blocked (slots t ! j)"
  shows "slot_kept (slots t ! j) (slots t' ! j)"
  using step
proof cases
  case (hit row l)
  then show ?thesis using try_get_result(1) [OF inv] j b same_fill_kept by (auto simp: admits_def)
next
  case (miss row)
  then show ?thesis using try_get_result(1) [OF inv] j b same_fill_kept by (auto simp: admits_def)
next
  case (admit rows failure new)
  then show ?thesis using admit_rows_result [OF inv] j b same_fill_kept by (auto simp: admits_def)
next
  case (release l xs ys)
  then show ?thesis using j same_fill_kept
    by (cases "l_slot l = j") (auto simp: release_lease_def unpin_locked_def upd_slot_def split: if_splits)
next
  case (claim i)
  then show ?thesis using j by (auto simp: upd_slot_def nth_list_update slot_kept_def)
next
  case (publish i result)
  then have "s_indexed (slots t ! i)" using table_invD(3) [OF inv] by (simp add: slot_ok_def)
  then show ?thesis
    using publish_fill_fields(1) [OF publish(3) _ refl] publish j
    by (auto simp: nth_list_update slot_kept_def published_slot_def)
next
  case (relinquish i)
  then show ?thesis using j by (auto simp: relinquish_fill_def upd_slot_def nth_list_update slot_kept_def)
next
  case (prefetch rows r)
  then show ?thesis using prefetch_result(1) [OF inv] j b same_fill_kept by (auto simp: admits_def)
next
  case (discard i g)
  then show ?thesis using inv_discard_ticket(2) [OF inv] by simp
next
  case (invalidate g sources resolve st)
  then show ?thesis using invalidate_result(2) [OF inv] by simp
qed simp_all

section \<open>The invariant\<close>

definition exposed_ok :: "'m table \<Rightarrow> lease \<Rightarrow> bool" where
  "exposed_ok t l \<longleftrightarrow> l_bytes l = (0, 0) \<or>
     s_state (slots t ! l_slot l) = Ready \<and> l_bytes l = published_span t (l_slot l)"

lemma sys_inv_iff:
  "sys_inv (t, ls) \<longleftrightarrow> table_inv t \<and> (\<forall>l \<in> set ls. lease_ok t l \<and> exposed_ok t l) \<and>
     (\<forall>j < length (slots t). s_pins (slots t ! j) = pins_of ls j)"
  by (auto simp: sys_inv_def list_all_iff exposed_ok_def)

lemma lease_kept:
  assumes "lease_ok t l" and "exposed_ok t l" and "slot_kept (slots t ! l_slot l) (slots t' ! l_slot l)"
    and "length (slots t') = length (slots t)" and "config t' = config t" and "s_pins (slots t' ! l_slot l) \<noteq> 0"
  shows "lease_ok t' l \<and> exposed_ok t' l"
  using assms by (auto simp: lease_ok_def exposed_ok_def slot_kept_def published_span_def output_span_def)

text \<open>
  A step keeps the invariant when it keeps the table's, accounts for the pins of the leases held
  afterwards, and the leases that are new are good.
\<close>

lemma sys_inv_stepI:
  assumes inv: "sys_inv (t, ls)" and step: "sys_step tp (t, ls) (t', ls')" and "table_inv t'"
    and frame: "length (slots t') = length (slots t)" "config t' = config t"
    and pins: "\<And>j. j < length (slots t) \<Longrightarrow> s_pins (slots t' ! j) = pins_of ls' j"
    and new: "\<And>l. l \<in> set ls' \<Longrightarrow> l \<notin> set ls \<Longrightarrow> lease_ok t' l \<and> exposed_ok t' l"
  shows "sys_inv (t', ls')"
proof -
  have "lease_ok t' l \<and> exposed_ok t' l" if l: "l \<in> set ls'" for l
  proof (cases "l \<in> set ls")
    case True
    then have ok: "lease_ok t l" "exposed_ok t l" using inv by (auto simp: sys_inv_iff)
    then have j: "l_slot l < length (slots t)" "blocked (slots t ! l_slot l)"
      by (simp_all add: lease_ok_def blocked_def)
    have "table_inv t" using inv by (simp add: sys_inv_iff)
    from lease_kept [OF ok sys_step_slot [OF step this j] frame] show ?thesis
      using pins [OF j(1)] pins_of_pos [OF l] by simp
  qed (use new l in blast)
  then show ?thesis using assms(3) frame pins by (simp add: sys_inv_iff)
qed

lemma sys_inv_admits:
  assumes inv: "sys_inv (t, ls)" and step: "sys_step tp (t, ls) (t', new @ ls)" and ad: "admits t t'"
    and pins: "\<And>j. j < length (slots t) \<Longrightarrow> s_pins (slots t' ! j) = s_pins (slots t ! j) + pins_of new j"
    and new: "\<And>l. l \<in> set new \<Longrightarrow> lease_ok t' l \<and> exposed_ok t' l"
  shows "sys_inv (t', new @ ls)"
  by (rule sys_inv_stepI [OF inv step])
    (use ad pins new inv in \<open>auto simp: admits_def sys_inv_iff\<close>)

lemma sys_inv_still:
  assumes inv: "sys_inv (t, ls)" and step: "sys_step tp (t, ls) (t', ls)" and "table_inv t'"
    and "length (slots t') = length (slots t)" and "config t' = config t"
    and "\<And>j. j < length (slots t) \<Longrightarrow> s_pins (slots t' ! j) = s_pins (slots t ! j)"
  shows "sys_inv (t', ls)"
  by (rule sys_inv_stepI [OF inv step]) (use assms in \<open>auto simp: sys_inv_iff\<close>)

lemma admit_rows_bytes:
  "admit_rows tp rows t = (failure, ls, t') \<Longrightarrow> l \<in> set ls \<Longrightarrow> l_bytes l = (0, 0)"
proof (induction rows arbitrary: t ls)
  case (Cons row rows)
  obtain r u where row: "admit_row tp row t = (r, u)" by fastforce
  show ?case
  proof (cases r)
    case (Inr l')
    then have "l_bytes l' = (0, 0)"
      using row by (auto simp: admit_row_def Let_def make_lease_def split: option.splits prod.splits if_splits)
    then show ?thesis using Cons row Inr by (auto split: prod.splits)
  qed (use Cons.prems row in simp)
qed simp

lemma sys_inv_step:
  assumes step: "sys_step tp (t, ls) (t', ls')" and inv: "sys_inv (t, ls)"
  shows "sys_inv (t', ls')"
proof -
  have ti: "table_inv t" using inv by (simp add: sys_inv_iff)
  note step0 = step
  from step show ?thesis
  proof cases
    case (hit row l)
    note r = try_get_result [OF ti hit(2)]
    have "sys_inv (t', [l] @ ls)"
      by (rule sys_inv_admits [OF inv _ r(1)]) (use step0 hit r(4) in \<open>auto simp: exposed_ok_def eq_commute\<close>)
    then show ?thesis using hit by simp
  next
    case (miss row)
    note r = try_get_result [OF ti miss(2)]
    have "sys_inv (t', [] @ ls)"
      by (rule sys_inv_admits [OF inv _ r(1)]) (use step0 miss r(5) in auto)
    then show ?thesis using miss by simp
  next
    case (admit rows failure new)
    note r = admit_rows_result [OF ti admit(2)]
    show ?thesis
      unfolding admit(1)
      by (rule sys_inv_admits [OF inv]) (use step0 admit r admit_rows_bytes [OF admit(2)] in
        \<open>auto simp: exposed_ok_def list_all_iff\<close>)
  next
    case (expose l xs ys)
    show ?thesis
      by (rule sys_inv_stepI [OF inv step0])
        (use expose inv in \<open>auto simp: sys_inv_iff exposed_ok_def lease_ok_def\<close>)
  next
    case (release l xs ys)
    have l: "l_slot l < length (slots t)" using inv release by (auto simp: sys_inv_iff lease_ok_def)
    then obtain u where "release_lease (l_slot l) (l_epoch l) t = Some u" "releases (\<lambda>j. of_bool (l_slot l = j)) t u"
      using release_lease_result [OF ti l refl] release(3) by (auto simp: release_lease_def split: if_splits)
    then have rel: "releases (\<lambda>j. of_bool (l_slot l = j)) t t'" using release(3) by simp
    show ?thesis
      by (rule sys_inv_stepI [OF inv step0]) (use rel release inv in \<open>auto simp: releases_def sys_inv_iff\<close>)
  next
    case (claim i)
    have "table_inv t'" unfolding claim(1) by (rule inv_finishing [OF ti claim(3,4)])
    then show ?thesis
      unfolding claim(2) by (intro sys_inv_still [OF inv]) (use step0 claim in \<open>auto simp: upd_slot_def nth_list_update\<close>)
  next
    case (publish i result)
    have "s_indexed (slots t ! i)" using table_invD(3) [OF ti publish(3)] publish by (simp add: slot_ok_def)
    note f = publish_fill_fields [OF publish(3) this publish(1)]
    have "table_inv t'" unfolding publish(1) by (rule inv_publish_fill [OF ti publish(3,4) refl])
    then show ?thesis
      unfolding publish(2) by (intro sys_inv_still [OF inv])
        (use step0 publish f(1,13) in \<open>auto simp: nth_list_update published_slot_def\<close>)
  next
    case (relinquish i)
    have "table_inv t'" unfolding relinquish(1) by (rule inv_relinquish [OF ti relinquish(3,4)])
    then show ?thesis
      unfolding relinquish(2) by (intro sys_inv_still [OF inv])
        (use step0 relinquish in \<open>auto simp: relinquish_fill_def upd_slot_def nth_list_update\<close>)
  next
    case (prefetch rows r)
    note p = prefetch_result [OF ti prefetch(2)]
    show ?thesis
      unfolding prefetch(1) by (intro sys_inv_still [OF inv]) (use step0 prefetch p(1,2) in \<open>auto simp: admits_def\<close>)
  next
    case (discard i g)
    note d = inv_discard_ticket [OF ti discard(2,3)]
    have "config t' = config t" using discard(3) by (auto simp: discard_ticket_def Let_def split: if_splits)
    then show ?thesis
      unfolding discard(1) by (intro sys_inv_still [OF inv]) (use step0 discard d in auto)
  next
    case (invalidate g sources resolve st)
    note v = invalidate_result [OF ti invalidate(2)]
    show ?thesis
      unfolding invalidate(1) by (intro sys_inv_still [OF inv]) (use step0 invalidate v in auto)
  next
    case (progress m)
    show ?thesis
      unfolding progress(2) by (intro sys_inv_still [OF inv]) (use step0 progress ti in auto)
  qed
qed

section \<open>Reachable states\<close>

inductive reachable :: "'m transport \<Rightarrow> table_config \<Rightarrow> 'm sys \<Rightarrow> bool" for tp cfg where
  created: "create tp cfg m = Inr t \<Longrightarrow> reachable tp cfg (t, [])"
| stepped: "reachable tp cfg s \<Longrightarrow> sys_step tp s s' \<Longrightarrow> reachable tp cfg s'"

lemma reachable_inv: "reachable tp cfg s \<Longrightarrow> sys_inv s"
proof (induction rule: reachable.induct)
  case (created m t)
  then show ?case using create_result(2,6) [OF created] by (simp add: sys_inv_iff fresh_slot_def)
next
  case (stepped s s')
  then show ?case using sys_inv_step by (metis surj_pair)
qed

text \<open>
  A run during which a lease is not released: the caller that holds it may have its span filled in
  (\<open>expose\<close>), so the lease is followed by its slot and its epoch.
\<close>

definition holds :: "nat \<Rightarrow> u32 \<Rightarrow> 'm sys \<Rightarrow> bool" where
  "holds i epoch s \<longleftrightarrow> (\<exists>l \<in> set (snd s). l_slot l = i \<and> l_epoch l = epoch)"

inductive held_run :: "'m transport \<Rightarrow> nat \<Rightarrow> u32 \<Rightarrow> 'm sys \<Rightarrow> 'm sys \<Rightarrow> bool" for tp i epoch where
  stay: "holds i epoch s \<Longrightarrow> held_run tp i epoch s s"
| run: "held_run tp i epoch s s' \<Longrightarrow> sys_step tp s' s'' \<Longrightarrow> holds i epoch s'' \<Longrightarrow> held_run tp i epoch s s''"

lemma holdsD:
  assumes "sys_inv (t, ls)" and "holds i epoch (t, ls)"
  shows "i < length (slots t)" and "s_epoch (slots t ! i) = epoch" and "s_pins (slots t ! i) \<noteq> 0"
    and "blocked (slots t ! i)"
  using assms by (auto simp: holds_def sys_inv_iff lease_ok_def blocked_def)

lemma sys_step_frame:
  assumes "sys_step tp (t, ls) (t', ls')" and "table_inv t"
  shows "length (slots t') = length (slots t) \<and> config t' = config t"
  using assms(1)
proof cases
  case (hit row l)
  then show ?thesis
    using try_get_result(1) [OF assms(2)] by (auto simp: admits_def)
next
  case (miss row)
  then show ?thesis
    using try_get_result(1) [OF assms(2)] by (auto simp: admits_def)
next
  case (admit rows failure new)
  then show ?thesis
    using admit_rows_result [OF assms(2)] by (auto simp: admits_def)
next
  case (release l xs ys)
  then show ?thesis
    by (auto simp: release_lease_def unpin_locked_def upd_slot_def split: if_splits)
next
  case (publish i result)
  then have "s_indexed (slots t ! i)" using table_invD(3) [OF assms(2)] by (simp add: slot_ok_def)
  then show ?thesis
    using publish_fill_fields(1,13) [OF publish(3) _ publish(1)] by auto
next
  case (prefetch rows r)
  then show ?thesis
    using prefetch_result(1) [OF assms(2)] by (auto simp: admits_def)
next
  case (discard i g)
  then show ?thesis
    by (auto simp: discard_ticket_def Let_def split: if_splits)
next
  case (invalidate g sources resolve st)
  then show ?thesis
    using invalidate_result(2,3) [OF assms(2)] by auto
qed (auto simp: upd_slot_def relinquish_fill_def)

lemma held_run_keeps:
  assumes "held_run tp i epoch s s'" and "sys_inv s"
  shows "sys_inv s' \<and> holds i epoch s' \<and> config (fst s') = config (fst s) \<and>
     slot_key (slots (fst s') ! i) = slot_key (slots (fst s) ! i) \<and>
     s_epoch (slots (fst s') ! i) = epoch \<and>
     (s_state (slots (fst s) ! i) \<noteq> Filling \<longrightarrow> s_state (slots (fst s') ! i) = s_state (slots (fst s) ! i)) \<and>
     published_span (fst s') i = published_span (fst s) i"
  using assms
proof (induction rule: held_run.induct)
  case (stay s)
  then show ?case using holdsD [of "fst s" "snd s" i epoch] by simp
next
  case (run s s' s'')
  obtain t' ls' t'' ls'' where s: "s' = (t', ls')" "s'' = (t'', ls'')" by fastforce
  have inv': "sys_inv (t', ls')" and ih: "holds i epoch (t', ls')" using run s by auto
  have step: "sys_step tp (t', ls') (t'', ls'')" using run s by simp
  have inv'': "sys_inv (t'', ls'')" by (rule sys_inv_step [OF step inv'])
  have ti: "table_inv t'" using inv' by (simp add: sys_inv_iff)
  have kept: "slot_kept (slots t' ! i) (slots t'' ! i)"
    by (rule sys_step_slot [OF step ti holdsD(1,4) [OF inv' ih]])
  have hold: "holds i epoch (t'', ls'')" using run s by simp
  show ?case
    using run s kept inv'' hold holdsD(2) [OF inv'' hold] sys_step_frame [OF step ti]
    by (auto simp: slot_kept_def published_span_def output_span_def)
qed

end
