(* ===== verification/Table_Calls.thy ===== *)
theory Table_Calls
  imports Table_Ops
begin

text \<open>
  The calls that give up the lock in between: phase B of \<open>resolve_into\<close>, \<open>wait\<close>, the completion worker,
  \<open>drain\<close> and the destructor. What other threads do meanwhile is a function on the table; \<open>interferes\<close>
  says what the calling thread relies on, given the pins it holds.
\<close>

section \<open>Interference\<close>

definition interferes :: "(nat \<Rightarrow> nat) \<Rightarrow> 'm table \<Rightarrow> 'm table \<Rightarrow> bool" where
  "interferes held t t' \<longleftrightarrow> table_inv t' \<and> config t' = config t \<and> active_codec t' = active_codec t \<and>
     length (slots t') = length (slots t) \<and>
     (\<forall>j < length (slots t). held j \<le> s_pins (slots t' ! j)) \<and>
     (\<forall>j < length (slots t). 0 < held j \<longrightarrow>
        s_epoch (slots t' ! j) = s_epoch (slots t ! j) \<and> slot_key (slots t' ! j) = slot_key (slots t ! j) \<and>
        s_published_bytes (slots t' ! j) = s_published_bytes (slots t ! j) \<and>
        s_published_offset (slots t' ! j) = s_published_offset (slots t ! j) \<and>
        (\<not> filling (slots t ! j) \<longrightarrow>
           s_state (slots t' ! j) = s_state (slots t ! j) \<and> s_failure (slots t' ! j) = s_failure (slots t ! j)))"

text \<open>What a thread relies on that holds the leases \<open>ls\<close> and finishes at most the fill of slot \<open>i\<close>.\<close>

definition relies :: "lease list \<Rightarrow> nat \<Rightarrow> (nat \<Rightarrow> 'm table \<Rightarrow> 'm table) \<Rightarrow> bool" where
  "relies ls i others \<longleftrightarrow>
     (\<forall>k t. table_inv t \<longrightarrow> held_ok t ls \<longrightarrow> interferes (pins_of ls) t (others k t)) \<and>
     (\<forall>t. table_inv t \<longrightarrow> filling (slots t ! i) \<longrightarrow> s_finishing (slots t ! i) \<longrightarrow> leaves_fill i t (others 1 t))"

lemma interferes_refl: "table_inv t \<Longrightarrow> held_ok t ls \<Longrightarrow> interferes (pins_of ls) t t"
  by (simp add: interferes_def held_ok_def)

lemma interferes_trans: "interferes held t t' \<Longrightarrow> interferes held t' t'' \<Longrightarrow> interferes held t t''"
  by (auto simp: interferes_def)

lemma interferes_held:
  assumes "held_ok t ls" and "interferes (pins_of ls) t t'"
  shows "held_ok t' ls"
  using assms pins_of_pos by (auto simp: held_ok_def interferes_def)

lemma interferes_span:
  "interferes held t t' \<Longrightarrow> j < length (slots t) \<Longrightarrow> 0 < held j \<Longrightarrow> published_span t' j = published_span t j"
  by (simp add: interferes_def published_span_def output_span_def)

text \<open>A wait without a deadline lasts until the transfer is terminal: MemPage's \<open>Claim::wait\<close>.\<close>

definition waits_out :: "'m transport \<Rightarrow> bool" where
  "waits_out tp \<longleftrightarrow> (\<forall>c m. fst (tp_wait tp c None m) \<noteq> MP_Timeout)"

lemma wait_chunks_out: "waits_out tp \<Longrightarrow> fst (wait_chunks tp cs None m) \<noteq> MP_Timeout"
proof (induction cs arbitrary: m)
  case (Cons c cs)
  obtain raw m1 where w: "tp_wait tp c None m = (raw, m1)" by fastforce
  then have "raw \<noteq> MP_Timeout" using Cons.prems unfolding waits_out_def by (metis fst_conv)
  then show ?case using Cons w by simp
qed simp

lemma await_fill_out: "waits_out tp \<Longrightarrow> fst (await_fill tp s None m) \<noteq> MP_Timeout"
  using wait_chunks_out [of tp "s_chunk_claims s" m] by (simp add: await_fill_def waits_out_def)

section \<open>One row of phase B\<close>

lemma finishing_interferes:
  assumes "table_inv t" and "held_ok t ls" and "i < length (slots t)" and "filling (slots t ! i)"
  defines "t1 \<equiv> upd_slot i (\<lambda>s. s\<lparr>s_finishing := True\<rparr>) t"
  shows "table_inv t1" and "held_ok t1 ls" and "interferes (pins_of ls) t t1"
    and "filling (slots t1 ! i)" and "s_finishing (slots t1 ! i)" and "length (slots t1) = length (slots t)"
proof -
  show inv: "table_inv t1" unfolding t1_def by (rule inv_finishing [OF assms(1,3,4)])
  have nth: "slots t1 ! j = (if j = i then (slots t ! j)\<lparr>s_finishing := True\<rparr> else slots t ! j)" for j
    using assms(3) by (simp add: t1_def upd_slot_def nth_list_update)
  show len: "length (slots t1) = length (slots t)" by (simp add: t1_def upd_slot_def)
  show "interferes (pins_of ls) t t1"
    using assms(2) inv by (simp add: interferes_def nth held_ok_def len) (simp add: t1_def upd_slot_def)
  then show "held_ok t1 ls" by (rule interferes_held [OF assms(2)])
  show "filling (slots t1 ! i)" "s_finishing (slots t1 ! i)" using assms(4) by (simp_all add: nth)
qed

lemma finish_interferes:
  assumes inv: "table_inv t" and held: "held_ok t ls" and i: "i < length (slots t)"
    and fill: "filling (slots t ! i)" and mine: "s_finishing (slots t ! i)" and rely: "relies ls i others"
  shows "interferes (pins_of ls) t (finish_fill tp (others 1) i deadline t)"
proof -
  obtain raw m where w: "await_fill tp (slots t ! i) deadline (mem t) = (raw, m)" by fastforce
  let ?u = "others 1 (t\<lparr>mem := m\<rparr>)" and ?t' = "finish_fill tp (others 1) i deadline t"
  have leave: "\<forall>u. table_inv u \<longrightarrow> filling (slots u ! i) \<longrightarrow> s_finishing (slots u ! i) \<longrightarrow> leaves_fill i u (others 1 u)"
    using rely by (simp add: relies_def)
  note f = finish_fill_result [OF inv i fill mine leave w]
  have "held_ok (t\<lparr>mem := m\<rparr>) ls" using held by (simp add: held_ok_def)
  then have u: "interferes (pins_of ls) t ?u"
    using rely inv by (auto simp: relies_def interferes_def)
  show ?thesis
    unfolding interferes_def
  proof (intro conjI allI impI)
    fix j assume j: "j < length (slots t)"
    show "pins_of ls j \<le> s_pins (slots ?t' ! j)"
      using u j f(5,6) by (cases "j = i") (auto simp: interferes_def)
    assume pos: "0 < pins_of ls j"
    have "s_epoch (slots ?t' ! j) = s_epoch (slots t ! j) \<and> slot_key (slots ?t' ! j) = slot_key (slots t ! j) \<and>
      s_published_bytes (slots ?t' ! j) = s_published_bytes (slots t ! j) \<and>
      s_published_offset (slots ?t' ! j) = s_published_offset (slots t ! j)"
    proof (cases "j = i")
      case False
      show ?thesis unfolding f(5) [OF False] using u j pos by (simp add: interferes_def)
    qed (use f(7-10) in simp)
    then show "s_epoch (slots ?t' ! j) = s_epoch (slots t ! j)" "slot_key (slots ?t' ! j) = slot_key (slots t ! j)"
      "s_published_bytes (slots ?t' ! j) = s_published_bytes (slots t ! j)"
      "s_published_offset (slots ?t' ! j) = s_published_offset (slots t ! j)" by blast+
    assume "\<not> filling (slots t ! j)"
    then show "s_state (slots ?t' ! j) = s_state (slots t ! j)" "s_failure (slots ?t' ! j) = s_failure (slots t ! j)"
      using u j f(5) fill pos by (cases "j = i"; simp add: interferes_def)+
  qed (use f(1-4) in auto)
qed

lemma drive_row_result:
  assumes run: "drive_row tp others l t = Some (st, l', t')"
    and inv: "table_inv t" and held: "held_ok t ls" and l: "l \<in> set ls" and rely: "relies ls (l_slot l) others"
    and out: "waits_out tp"
  shows "interferes (pins_of ls) t t'" and "st \<noteq> Ok \<Longrightarrow> l' = l"
    and "st = Ok \<Longrightarrow> (l' = l\<lparr>l_bytes := published_span t' (l_slot l)\<rparr> \<and> s_state (slots t' ! l_slot l) = Ready) \<or>
           (l' = l \<and> s_state (slots t' ! l_slot l) = Failed \<and> s_failure (slots t' ! l_slot l) = Ok)"
proof -
  let ?i = "l_slot l"
  have i: "?i < length (slots t)" and ep: "s_epoch (slots t ! ?i) = l_epoch l" and pos: "0 < pins_of ls ?i"
    using held l pins_of_pos by (auto simp: held_ok_def)
  define u where "u = others 0 t"
  have iu: "interferes (pins_of ls) t u" using rely inv held by (simp add: relies_def u_def)
  have invu: "table_inv u" and lenu: "length (slots u) = length (slots t)" and epu: "s_epoch (slots u ! ?i) = l_epoch l"
    using iu i pos ep by (simp_all add: interferes_def)
  have heldu: "held_ok u ls" by (rule interferes_held [OF held iu])
  define v where "v = (if filling (slots u ! ?i) \<and> \<not> s_finishing (slots u ! ?i)
      then finish_fill tp (others 1) ?i None (upd_slot ?i (\<lambda>s. s\<lparr>s_finishing := True\<rparr>) u)
      else if filling (slots u ! ?i) then others 2 u else u)"
  have iv: "interferes (pins_of ls) u v"
  proof (cases "filling (slots u ! ?i) \<and> \<not> s_finishing (slots u ! ?i)")
    case True
    note f = finishing_interferes [OF invu heldu, of ?i]
    have "interferes (pins_of ls) u (finish_fill tp (others 1) ?i None (upd_slot ?i (\<lambda>s. s\<lparr>s_finishing := True\<rparr>) u))"
      using interferes_trans [OF f(3) finish_interferes [OF f(1,2) _ f(4,5) rely]] f(6) i lenu True by simp
    then show ?thesis using True by (simp add: v_def)
  next
    case False
    then show ?thesis using rely invu heldu interferes_refl by (auto simp: v_def relies_def)
  qed
  have epv: "s_epoch (slots v ! ?i) = l_epoch l" and invv: "table_inv v" and iv': "?i < length (slots v)"
    and pv: "s_pins (slots v ! ?i) \<noteq> 0"
    using iv i lenu pos epu by (auto simp: interferes_def)
  have "s_state (slots v ! ?i) \<noteq> Free" using table_invD(3) [OF invv iv'] pv by (auto simp: slot_ok_def)
  moreover have "\<not> filling (slots v ! ?i)" if "filling (slots u ! ?i) \<Longrightarrow> s_finishing (slots u ! ?i) \<Longrightarrow> settled ?i (l_epoch l) v"
  proof (cases "filling (slots u ! ?i) \<and> \<not> s_finishing (slots u ! ?i)")
    case True
    let ?t1 = "upd_slot ?i (\<lambda>s. s\<lparr>s_finishing := True\<rparr>) u"
    note f = finishing_interferes [OF invu heldu, of ?i]
    obtain raw m where w: "await_fill tp (slots ?t1 ! ?i) None (mem ?t1) = (raw, m)" by fastforce
    have "raw \<noteq> MP_Timeout" using await_fill_out [OF out] w by (metis fst_conv)
    moreover have "\<forall>u. table_inv u \<longrightarrow> filling (slots u ! ?i) \<longrightarrow> s_finishing (slots u ! ?i) \<longrightarrow> leaves_fill ?i u (others 1 u)"
      using rely by (simp add: relies_def)
    ultimately have "s_state (slots (finish_fill tp (others 1) ?i None ?t1) ! ?i) \<in> {Ready, Failed}"
      using finish_fill_result(11) [OF f(1) _ f(4,5) _ w] f(6) i lenu True by simp
    then show ?thesis using True by (auto simp: v_def)
  next
    case False
    then show ?thesis using that epv by (auto simp: v_def settled_def)
  qed
  ultimately have cases: "s_state (slots v ! ?i) = Ready \<or> s_state (slots v ! ?i) = Failed"
    if "filling (slots u ! ?i) \<Longrightarrow> s_finishing (slots u ! ?i) \<Longrightarrow> settled ?i (l_epoch l) v"
    using that by (cases "s_state (slots v ! ?i)") auto
  have run': "(if filling (slots u ! ?i) \<and> s_finishing (slots u ! ?i) \<and> \<not> settled ?i (l_epoch l) v then None
      else if s_state (slots v ! ?i) = Ready then Some (Ok, l\<lparr>l_bytes := published_span v ?i\<rparr>, v)
      else Some (s_failure (slots v ! ?i), l, v)) = Some (st, l', t')"
    using run epu epv by (auto simp: drive_row_def Let_def simp flip: u_def v_def split: if_splits)
  then have t': "t' = v" by (auto split: if_splits)
  show "interferes (pins_of ls) t t'" using interferes_trans [OF iu iv] t' by simp
  show "st \<noteq> Ok \<Longrightarrow> l' = l" using run' by (auto split: if_splits)
  show "st = Ok \<Longrightarrow> (l' = l\<lparr>l_bytes := published_span t' ?i\<rparr> \<and> s_state (slots t' ! ?i) = Ready) \<or>
      (l' = l \<and> s_state (slots t' ! ?i) = Failed \<and> s_failure (slots t' ! ?i) = Ok)"
    using run' t' cases by (auto split: if_splits)
qed

section \<open>resolve_into\<close>

definition driven :: "'m table \<Rightarrow> lease \<Rightarrow> lease \<Rightarrow> bool" where
  "driven t l l' \<longleftrightarrow>
     (l' = l\<lparr>l_bytes := published_span t (l_slot l)\<rparr> \<and> s_state (slots t ! l_slot l) = Ready) \<or>
     (l' = l \<and> s_state (slots t ! l_slot l) = Failed \<and> s_failure (slots t ! l_slot l) = Ok)"

definition same_lease :: "lease \<Rightarrow> lease \<Rightarrow> bool" where
  "same_lease l l' \<longleftrightarrow> l'\<lparr>l_bytes := (0, 0)\<rparr> = l\<lparr>l_bytes := (0, 0)\<rparr>"

lemma same_lease_simps [simp]: "same_lease l l" "same_lease l (l\<lparr>l_bytes := b\<rparr>)"
  by (cases l; simp add: same_lease_def)+

lemma same_leaseD:
  "same_lease l l' \<Longrightarrow> l_slot l' = l_slot l \<and> l_epoch l' = l_epoch l \<and> l_row_index l' = l_row_index l \<and>
     l_generation l' = l_generation l"
  by (cases l; cases l'; simp add: same_lease_def)

lemma driven_same: "driven t l l' \<Longrightarrow> same_lease l l'"
  by (auto simp: driven_def)

lemma driven_interferes:
  assumes "driven t l l'" and "interferes held t t'" and "l_slot l < length (slots t)" and "0 < held (l_slot l)"
  shows "driven t' l l'"
  using assms interferes_span [OF assms(2-4)] by (auto simp: driven_def interferes_def)

lemma drive_rows_result:
  assumes "drive_rows tp others rest t = Some (st, out, t')" and "table_inv t" and "held_ok t ls"
    and "set rest \<subseteq> set ls" and "\<And>k l. l \<in> set ls \<Longrightarrow> relies ls (l_slot l) (others k)" and "waits_out tp"
  shows "interferes (pins_of ls) t t' \<and> list_all2 same_lease rest out \<and> (st = Ok \<longrightarrow> list_all2 (driven t') rest out)"
  using assms(1-4)
proof (induction rest arbitrary: t out)
  case Nil
  then show ?case using interferes_refl by auto
next
  case (Cons l rest)
  obtain st1 l1 u where row: "drive_row tp (others (length rest)) l t = Some (st1, l1, u)"
    using Cons.prems(1) by (auto split: option.splits)
  have lin: "l \<in> set ls" using Cons.prems(4) by simp
  note r = drive_row_result [OF row Cons.prems(2,3) lin assms(5) [OF lin] assms(6)]
  show ?case
  proof (cases "st1 = Ok")
    case False
    then show ?thesis using Cons.prems(1) row r(1,2) by (auto simp: list_all2_refl)
  next
    case True
    then obtain out' where rest: "drive_rows tp others rest u = Some (st, out', t')" and out: "out = l1 # out'"
      using Cons.prems(1) row by (auto split: option.splits)
    have invu: "table_inv u" and heldu: "held_ok u ls"
      using r(1) interferes_held [OF Cons.prems(3) r(1)] by (simp_all add: interferes_def)
    have lu: "l_slot l < length (slots u)" using heldu lin by (simp add: held_ok_def)
    have ih: "interferes (pins_of ls) u t'" "list_all2 same_lease rest out'" "st = Ok \<longrightarrow> list_all2 (driven t') rest out'"
      using Cons.IH [OF rest invu heldu] Cons.prems(4) by simp_all
    have d: "driven u l l1" using r(3) [OF True] by (simp add: driven_def)
    have "driven t' l l1" by (rule driven_interferes [OF d ih(1) lu pins_of_pos [OF lin]])
    then show ?thesis using interferes_trans [OF r(1) ih(1)] ih(2,3) driven_same [OF d] by (simp add: out)
  qed
qed

lemma same_leases_held:
  "list_all2 same_lease ls ls' \<Longrightarrow> pins_of ls' = pins_of ls \<and> (held_ok t ls' \<longleftrightarrow> held_ok t ls)"
proof -
  assume "list_all2 same_lease ls ls'"
  then have "pins_of ls' = pins_of ls \<and>
      (\<forall>P. (\<forall>l \<in> set ls'. P (l_slot l) (l_epoch l)) \<longleftrightarrow> (\<forall>l \<in> set ls. P (l_slot l) (l_epoch l)))"
    by (induction rule: list_all2_induct) (auto dest!: same_leaseD)
  then have eq: "pins_of ls' = pins_of ls"
    and "\<And>P. (\<forall>l \<in> set ls'. P (l_slot l) (l_epoch l)) \<longleftrightarrow> (\<forall>l \<in> set ls. P (l_slot l) (l_epoch l))" by blast+
  note this(2) [of "\<lambda>i e. i < length (slots t) \<and> s_epoch (slots t ! i) = e"]
  then show ?thesis unfolding held_ok_def eq by simp
qed

text \<open>
  The leases the call takes in phase A. Its rely condition is about these: other threads may do
  anything but touch the pins and the finishing rights the call has.
\<close>

definition call_leases :: "'m transport \<Rightarrow> u64 list \<Rightarrow> lease option list \<Rightarrow> 'm table \<Rightarrow> lease list" where
  "call_leases tp rows out t =
     (case release_leases (take (length rows) out) t of
        None \<Rightarrow> []
      | Some t1 \<Rightarrow> fst (snd (admit_rows tp rows t1)))"

definition call_relies :: "'m transport \<Rightarrow> (nat \<Rightarrow> nat \<Rightarrow> 'm table \<Rightarrow> 'm table) \<Rightarrow> u64 list \<Rightarrow>
    lease option list \<Rightarrow> 'm table \<Rightarrow> bool" where
  "call_relies tp others rows out t \<longleftrightarrow>
     (\<forall>k. \<forall>l \<in> set (call_leases tp rows out t). relies (call_leases tp rows out t) (l_slot l) (others k))"

lemma admit_rows_held:
  assumes "table_inv t" and "admit_rows tp rows t = (failure, ls, t')"
  shows "held_ok t' ls"
  using admit_rows_result [OF assms] by (auto simp: held_ok_def list_all_iff lease_ok_def admits_def)

definition resolved :: "'m table \<Rightarrow> u64 \<Rightarrow> u64 \<Rightarrow> lease option \<Rightarrow> bool" where
  "resolved t row g entry \<longleftrightarrow>
     (\<exists>l. entry = Some l \<and> l_row_index l = row \<and> l_generation l = g \<and> lease_ok t l \<and>
        (s_state (slots t ! l_slot l) = Ready \<and> l_bytes l = published_span t (l_slot l) \<or>
         s_state (slots t ! l_slot l) = Failed \<and> s_failure (slots t ! l_slot l) = Ok))"

lemma driven_resolved:
  assumes "driven t l l'" and "lease_ok t l"
  shows "resolved t (l_row_index l) (l_generation l) (Some l')"
  using assms by (auto simp: driven_def resolved_def lease_ok_def published_span_def output_span_def)

lemma lease_ok_interferes:
  assumes "lease_ok t l" and "l \<in> set ls" and "interferes (pins_of ls) t t'"
  shows "lease_ok t' l"
  using assms pins_of_pos [OF assms(2)] by (auto simp: lease_ok_def interferes_def)

lemma resolve_into_result:
  assumes run: "resolve_into tp others rows out t = Some (r, out', t')" and inv: "table_inv t"
    and own: "held_ok t (leases_in (take (length rows) out))"
    and rely: "call_relies tp others rows out t" and out: "waits_out tp"
  shows "table_inv t'"
    and "r = Inl e \<Longrightarrow> out' = out \<and> t' = t \<or> out' = replicate (length rows) None @ drop (length rows) out"
    and "r = Inr k \<Longrightarrow> k = length rows \<and> length out' = length out \<and> drop k out' = drop k out \<and>
           (\<forall>q < k. resolved t' (rows ! q) (current_generation t) (out' ! q))"
proof -
  let ?n = "length rows" and ?empty = "replicate (length rows) None @ drop (length rows) out"
  have "table_inv t' \<and> (\<forall>e. r = Inl e \<longrightarrow> out' = out \<and> t' = t \<or> out' = ?empty) \<and>
    (\<forall>k. r = Inr k \<longrightarrow> k = ?n \<and> length out' = length out \<and> drop k out' = drop k out \<and>
       (\<forall>q < k. resolved t' (rows ! q) (current_generation t) (out' ! q)))"
  proof (cases "rows = [] \<or> ?n > unat (c_max_batch_rows (config t)) \<or> length out < ?n")
    case True
    then have "r = Inl Empty_range \<or> r = Inl Batch_too_large \<or> r = Inl Invalid_argument" "out' = out" "t' = t"
      using run by (auto simp: resolve_into_def Let_def split: if_splits)
    then show ?thesis using inv by auto
  next
    case False
    obtain t1 where t1: "release_leases (take ?n out) t = Some t1" and rel: "releases (pins_of (leases_in (take ?n out))) t t1"
      using release_leases_result [OF inv own] by blast
    have inv1: "table_inv t1" and gen1: "current_generation t1 = current_generation t" and cfg1: "config t1 = config t"
      using rel by (simp_all add: releases_def)
    show ?thesis
    proof (cases "\<exists>row \<in> set rows. row \<ge> c_row_count (config t1)")
      case True
      then have "r = Inl Out_of_range" "out' = ?empty" "t' = t1"
        using run False t1 by (auto simp: resolve_into_def Let_def)
      then show ?thesis using inv1 by simp
    next
      case inrange: False
      obtain failure ls t2 where ad: "admit_rows tp rows t1 = (failure, ls, t2)" by (metis prod_cases3)
      note a = admit_rows_result [OF inv1 ad]
      have inv2: "table_inv t2" and held2: "held_ok t2 ls"
        using a admit_rows_held [OF inv1 ad] by (simp_all add: admits_def)
      have cl: "call_leases tp rows out t = ls" by (simp add: call_leases_def t1 ad)
      have run1: "(if failure \<noteq> Ok then map_option (\<lambda>t. (Inl failure, ?empty, t)) (release_leases (map Some ls) t2)
          else case drive_rows tp others ls t2 of None \<Rightarrow> None
            | Some (failure, leases, t) \<Rightarrow>
                if failure \<noteq> Ok then map_option (\<lambda>t. (Inl failure, ?empty, t)) (release_leases (map Some leases) t)
                else Some (Inr ?n, map Some leases @ drop ?n out, t)) = Some (r, out', t')"
        using run False t1 inrange ad by (auto simp: resolve_into_def Let_def)
      show ?thesis
      proof (cases "failure = Ok")
        case False
        obtain t3 where "release_leases (map Some ls) t2 = Some t3" "releases (pins_of ls) t2 t3"
          using release_leases_result [OF inv2, of "map Some ls"] held2 by auto
        then show ?thesis using run1 False by (auto simp: releases_def)
      next
        case True
        then obtain st leases t3 where dr: "drive_rows tp others ls t2 = Some (st, leases, t3)"
          using run1 by (auto split: option.splits)
        have rely': "\<And>k l. l \<in> set ls \<Longrightarrow> relies ls (l_slot l) (others k)"
          using rely by (auto simp: call_relies_def cl)
        note d = drive_rows_result [OF dr inv2 held2 subset_refl rely' out]
        have inv3: "table_inv t3" and held3: "held_ok t3 leases"
          using d interferes_held [OF held2] same_leases_held by (auto simp: interferes_def)
        show ?thesis
        proof (cases "st = Ok")
          case False
          obtain t4 where "release_leases (map Some leases) t3 = Some t4" "releases (pins_of leases) t3 t4"
            using release_leases_result [OF inv3, of "map Some leases"] held3 by auto
          then show ?thesis using run1 True dr False by (auto simp: releases_def)
        next
          case ok: True
          have t': "r = Inr ?n" "out' = map Some leases @ drop ?n out" "t' = t3" using run1 True dr ok by auto
          have len: "length leases = ?n" "length ls = ?n"
            using d a True list_all2_lengthD by fastforce+
          have "resolved t3 (rows ! q) (current_generation t) (Some (leases ! q))" if q: "q < ?n" for q
          proof -
            have "driven t3 (ls ! q) (leases ! q)" using d ok q len by (auto simp: list_all2_conv_all_nth)
            moreover have "lease_ok t3 (ls ! q)"
              using lease_ok_interferes [of t2 "ls ! q" ls t3] d a q len by (auto simp: list_all_iff)
            moreover have "l_row_index (ls ! q) = rows ! q" using a q len by (metis nth_map take_all_iff order_refl)
            moreover have "l_generation (ls ! q) = current_generation t"
              using a q len gen1 by (auto simp: list_all_iff)
            ultimately show ?thesis using driven_resolved by metis
          qed
          then show ?thesis using t' inv3 len False by (simp add: nth_append)
        qed
      qed
    qed
  qed
  then show "table_inv t'" and "r = Inl e \<Longrightarrow> out' = out \<and> t' = t \<or> out' = ?empty"
    and "r = Inr k \<Longrightarrow> k = ?n \<and> length out' = length out \<and> drop k out' = drop k out \<and>
           (\<forall>q < k. resolved t' (rows ! q) (current_generation t) (out' ! q))" by blast+
qed

text \<open>
  The call returns: no release inside it terminates the process, and it can only hang in a wait on
  another thread's fill that never settles.
\<close>

definition waits_settle :: "(nat \<Rightarrow> 'm table \<Rightarrow> 'm table) \<Rightarrow> bool" where
  "waits_settle others \<longleftrightarrow> (\<forall>t slot epoch. table_inv t \<longrightarrow> slot < length (slots t) \<longrightarrow>
     filling (slots t ! slot) \<longrightarrow> s_finishing (slots t ! slot) \<longrightarrow> settled slot epoch (others 2 t))"

lemma drive_row_returns:
  assumes "table_inv t" and "held_ok t ls" and "l \<in> set ls" and "relies ls (l_slot l) others" and "waits_settle others"
  shows "drive_row tp others l t \<noteq> None"
proof -
  have "interferes (pins_of ls) t (others 0 t)" using assms by (simp add: relies_def)
  then have "table_inv (others 0 t)" "l_slot l < length (slots (others 0 t))"
    using assms(2,3) by (auto simp: interferes_def held_ok_def)
  then show ?thesis using assms(5) by (auto simp: drive_row_def Let_def waits_settle_def)
qed

lemma drive_rows_returns:
  assumes "table_inv t" and "held_ok t ls" and "set rest \<subseteq> set ls" and "waits_out tp"
    and rely: "\<forall>k. \<forall>l \<in> set ls. relies ls (l_slot l) (others k)" and settle: "\<forall>k. waits_settle (others k)"
  shows "drive_rows tp others rest t \<noteq> None"
  using assms(1-3)
proof (induction rest arbitrary: t)
  case (Cons l rest)
  have lin: "l \<in> set ls" using Cons.prems(3) by simp
  have "drive_row tp (others (length rest)) l t \<noteq> None"
    by (rule drive_row_returns [OF Cons.prems(1,2) lin]) (use rely settle lin in blast)+
  then obtain st l' u where row: "drive_row tp (others (length rest)) l t = Some (st, l', u)"
    by (metis not_None_eq prod_cases3)
  have "relies ls (l_slot l) (others (length rest))" using rely lin by blast
  note r = drive_row_result(1) [OF row Cons.prems(1,2) lin this assms(4)]
  have "drive_rows tp others rest u \<noteq> None"
    by (rule Cons.IH) (use r interferes_held [OF Cons.prems(2) r] Cons.prems(3) in \<open>simp_all add: interferes_def\<close>)
  then show ?case using row by auto
qed simp

lemma resolve_into_returns:
  assumes inv: "table_inv t" and own: "held_ok t (leases_in (take (length rows) out))"
    and rely: "call_relies tp others rows out t" and out: "waits_out tp" and settle: "\<forall>k. waits_settle (others k)"
  shows "resolve_into tp others rows out t \<noteq> None"
proof -
  obtain t1 where t1: "release_leases (take (length rows) out) t = Some t1"
    and rel: "releases (pins_of (leases_in (take (length rows) out))) t t1"
    using release_leases_result [OF inv own] by blast
  have inv1: "table_inv t1" using rel by (simp add: releases_def)
  obtain failure ls t2 where ad: "admit_rows tp rows t1 = (failure, ls, t2)" by (metis prod_cases3)
  have inv2: "table_inv t2" and held2: "held_ok t2 ls"
    using admit_rows_result [OF inv1 ad] admit_rows_held [OF inv1 ad] by (simp_all add: admits_def)
  have cl: "call_leases tp rows out t = ls" by (simp add: call_leases_def t1 ad)
  then have rely': "\<And>k l. l \<in> set ls \<Longrightarrow> relies ls (l_slot l) (others k)"
    using rely by (auto simp: call_relies_def)
  obtain st leases t3 where dr: "drive_rows tp others ls t2 = Some (st, leases, t3)"
    using drive_rows_returns [OF inv2 held2 subset_refl out _ settle] rely' by (cases "drive_rows tp others ls t2") auto
  note d = drive_rows_result [OF dr inv2 held2 subset_refl rely' out]
  have inv3: "table_inv t3" and held3: "held_ok t3 leases"
    using d interferes_held [OF held2] same_leases_held by (auto simp: interferes_def)
  have "release_leases (map Some ls) t2 \<noteq> None" "release_leases (map Some leases) t3 \<noteq> None"
    using release_leases_result [OF inv2, of "map Some ls"] release_leases_result [OF inv3, of "map Some leases"]
      held2 held3 by auto
  then show ?thesis by (auto simp: resolve_into_def Let_def t1 ad dr)
qed

section \<open>wait\<close>

definition outcome_total :: "wait_outcome \<Rightarrow> nat" where
  "outcome_total o' = wo_filled o' + wo_failed o' + wo_pending o' + wo_evicted o'"

lemma wait_entry_result:
  assumes "wait_entry tp others deadline entry o1 t = Some (o2, t')"
  shows "outcome_total o2 = outcome_total o1 + 1"
    and "(wo_pending o1 \<noteq> 0 \<longrightarrow> wo_status o1 = Timeout) \<Longrightarrow> wo_pending o2 \<noteq> 0 \<longrightarrow> wo_status o2 = Timeout"
    and "wo_status o2 = Ok \<Longrightarrow> wo_status o1 = Ok"
  using assms
  by (auto simp: wait_entry_def Let_def outcome_total_def split: option.splits prod.splits if_splits)

lemma wait_entries_result:
  assumes "wait_entries tp others deadline entries' o1 t = Some (o2, t')"
  shows "outcome_total o2 = outcome_total o1 + length entries'"
    and "(wo_pending o1 \<noteq> 0 \<longrightarrow> wo_status o1 = Timeout) \<Longrightarrow> wo_pending o2 \<noteq> 0 \<longrightarrow> wo_status o2 = Timeout"
proof -
  have "outcome_total o2 = outcome_total o1 + length entries' \<and>
     ((wo_pending o1 \<noteq> 0 \<longrightarrow> wo_status o1 = Timeout) \<longrightarrow> wo_pending o2 \<noteq> 0 \<longrightarrow> wo_status o2 = Timeout)"
    using assms
  proof (induction entries' arbitrary: o1 t)
    case (Cons entry rest)
    obtain o' u where e: "wait_entry tp (others (length rest)) deadline entry o1 t = Some (o', u)"
      using Cons.prems by (auto split: option.splits)
    have "wait_entries tp others deadline rest o' u = Some (o2, t')" using Cons.prems e by simp
    from Cons.IH [OF this] show ?case using wait_entry_result [OF e] by auto
  qed simp
  then show "outcome_total o2 = outcome_total o1 + length entries'"
    and "(wo_pending o1 \<noteq> 0 \<longrightarrow> wo_status o1 = Timeout) \<Longrightarrow> wo_pending o2 \<noteq> 0 \<longrightarrow> wo_status o2 = Timeout" by blast+
qed

section \<open>The completion worker\<close>

definition unclaimed :: "'m table \<Rightarrow> nat" where
  "unclaimed t = tally (\<lambda>s. of_bool (filling s \<and> \<not> s_finishing s)) (slots t)"

lemma find_unclaimed_Some:
  "find_unclaimed ss = Some i \<Longrightarrow> i < length ss \<and> filling (ss ! i) \<and> \<not> s_finishing (ss ! i)"
  by (induction ss arbitrary: i) (auto split: if_splits)

lemma find_unclaimed_None:
  "find_unclaimed ss = None \<longleftrightarrow> (\<forall>s \<in> set ss. \<not> (filling s \<and> \<not> s_finishing s))"
  by (induction ss) auto

lemma unclaimed_0: "unclaimed t = 0 \<longleftrightarrow> find_unclaimed (slots t) = None"
  by (auto simp: unclaimed_def tally_eq_0 find_unclaimed_None all_set_conv_all_nth)

text \<open>Other threads, as the worker sees them: they leave its fill alone and start no new fills.\<close>

definition quiet :: "('m table \<Rightarrow> 'm table) \<Rightarrow> bool" where
  "quiet others \<longleftrightarrow> (\<forall>i t. table_inv t \<longrightarrow> filling (slots t ! i) \<longrightarrow> s_finishing (slots t ! i) \<longrightarrow>
     leaves_fill i t (others t) \<and> unclaimed (others t) \<le> unclaimed t)"

lemma worker_turn_result:
  assumes inv: "table_inv t" and q: "quiet others" and out: "waits_out tp"
    and i: "find_unclaimed (slots t) = Some i"
  defines "t' \<equiv> snd (worker_turn tp others t)"
  shows "fst (worker_turn tp others t)" and "table_inv t'" and "unclaimed t' < unclaimed t"
proof -
  let ?t1 = "upd_slot i (\<lambda>s. s\<lparr>s_finishing := True\<rparr>) t"
  have f: "i < length (slots t)" "filling (slots t ! i)" "\<not> s_finishing (slots t ! i)"
    using find_unclaimed_Some [OF i] by blast+
  have inv1: "table_inv ?t1" by (rule inv_finishing [OF inv f(1,2)])
  have f1: "i < length (slots ?t1)" "filling (slots ?t1 ! i)" "s_finishing (slots ?t1 ! i)"
    using f by (simp_all add: upd_slot_def)
  have less: "unclaimed ?t1 + 1 = unclaimed t"
    using tally_update [OF f(1), of "\<lambda>s. of_bool (filling s \<and> \<not> s_finishing s)" "(slots t ! i)\<lparr>s_finishing := True\<rparr>"] f
    by (simp add: unclaimed_def upd_slot_def)
  obtain raw m where w: "await_fill tp (slots ?t1 ! i) None (mem ?t1) = (raw, m)" by fastforce
  have raw: "raw \<noteq> MP_Timeout" using await_fill_out [OF out] w by (metis fst_conv)
  have leave: "\<forall>u. table_inv u \<longrightarrow> filling (slots u ! i) \<longrightarrow> s_finishing (slots u ! i) \<longrightarrow> leaves_fill i u (others u)"
    using q by (simp add: quiet_def)
  have t': "t' = finish_fill tp others i None ?t1" by (simp add: t'_def worker_turn_def i)
  note r = finish_fill_result [OF inv1 f1 leave w]
  let ?u = "others (?t1\<lparr>mem := m\<rparr>)"
  have u: "leaves_fill i (?t1\<lparr>mem := m\<rparr>) ?u" "unclaimed ?u \<le> unclaimed ?t1"
    using q [unfolded quiet_def, rule_format, of "?t1\<lparr>mem := m\<rparr>" i] inv1 f1 by (simp_all add: unclaimed_def)
  have iu: "i < length (slots ?u)" "length (slots ?u) = length (slots t)"
    using u(1) f(1) by (simp_all add: leaves_fill_def upd_slot_def)
  have "slots t' = (slots ?u)[i := slots t' ! i]"
    using r(2,5) iu by (intro nth_equalityI) (auto simp: t' nth_list_update upd_slot_def)
  moreover have "\<not> filling (slots t' ! i)" using r(11) raw by (simp add: t')
  ultimately have "unclaimed t' \<le> unclaimed ?u"
    using tally_update [OF iu(1), of "\<lambda>s. of_bool (filling s \<and> \<not> s_finishing s)" "slots t' ! i"]
    by (simp add: unclaimed_def)
  then show "unclaimed t' < unclaimed t" using u(2) less by linarith
  show "table_inv t'" using r(1) by (simp add: t')
  show "fst (worker_turn tp others t)" by (simp add: worker_turn_def i)
qed

lemma worker_turns_result:
  assumes "table_inv t" and "quiet others" and "waits_out tp" and "unclaimed t \<le> turns"
  shows "table_inv (worker_turns tp others turns t) \<and> unclaimed (worker_turns tp others turns t) = 0"
  using assms
proof (induction turns arbitrary: t)
  case (Suc turns)
  show ?case
  proof (cases "find_unclaimed (slots t)")
    case None
    then show ?thesis using Suc.prems by (simp add: worker_turn_def unclaimed_0)
  next
    case (Some i)
    note w = worker_turn_result [OF Suc.prems(1-3) Some]
    obtain t' where t': "worker_turn tp others t = (True, t')" using w(1) by (cases "worker_turn tp others t") auto
    then show ?thesis using Suc.IH [of t'] w(2,3) Suc.prems by simp
  qed
qed simp

lemma in_flight_0:
  assumes "table_inv t"
  shows "in_flight t = 0 \<longleftrightarrow> (\<forall>i < length (slots t). \<not> filling (slots t ! i))"
  using table_invD(5) [OF assms] by (simp add: counts_ok_def tally_eq_0)

section \<open>An environment that meets the rely conditions\<close>

text \<open>Another thread that finishes every fill it has claimed, and otherwise does nothing.\<close>

definition publish_claimed :: "'m transport \<Rightarrow> nat \<Rightarrow> 'm table \<Rightarrow> 'm table" where
  "publish_claimed tp i t =
     (if i < length (slots t) \<and> filling (slots t ! i) \<and> s_finishing (slots t ! i)
      then publish_fill tp i (s_scratch_slot (slots t ! i)) Ok t else t)"

definition publish_all :: "'m transport \<Rightarrow> 'm table \<Rightarrow> 'm table" where
  "publish_all tp t = fold (publish_claimed tp) [0 ..< length (slots t)] t"

definition finisher :: "'m transport \<Rightarrow> nat \<Rightarrow> 'm table \<Rightarrow> 'm table" where
  "finisher tp k t = (if k = 2 then publish_all tp t else t)"

lemma publish_claimed_result:
  assumes inv: "table_inv t" and t'_def: "t' = publish_claimed tp i t"
  shows "table_inv t'" and "length (slots t') = length (slots t)" and "held_ok t ls \<Longrightarrow> interferes (pins_of ls) t t'"
    and "filling (slots t' ! j) \<Longrightarrow> slots t' ! j = slots t ! j"
    and "i < length (slots t) \<Longrightarrow> \<not> (filling (slots t' ! i) \<and> s_finishing (slots t' ! i))"
proof -
  have "table_inv t' \<and> length (slots t') = length (slots t) \<and> (held_ok t ls \<longrightarrow> interferes (pins_of ls) t t') \<and>
    (\<forall>j. filling (slots t' ! j) \<longrightarrow> slots t' ! j = slots t ! j) \<and>
    (i < length (slots t) \<longrightarrow> \<not> (filling (slots t' ! i) \<and> s_finishing (slots t' ! i)))"
  proof (cases "i < length (slots t) \<and> filling (slots t ! i) \<and> s_finishing (slots t ! i)")
    case True
    then have ix: "s_indexed (slots t ! i)" using table_invD(3) [OF inv] by (simp add: slot_ok_def)
    have t': "t' = publish_fill tp i (s_scratch_slot (slots t ! i)) Ok t" using True by (simp add: t'_def publish_claimed_def)
    have inv': "table_inv t'" unfolding t' using inv_publish_fill [OF inv] True by simp
    note f = publish_fill_fields [OF conjunct1 [OF True] ix t']
    have nth: "slots t' ! j = (if j = i then published_slot (active_codec t \<noteq> None) Ok (slots t ! i) else slots t ! j)" for j
      using f(1) True by simp
    show ?thesis
      using inv' True f(1,11,13) unfolding interferes_def held_ok_def nth
      by (auto simp: published_slot_def)
  next
    case False
    then have "t' = t" by (auto simp: t'_def publish_claimed_def)
    then show ?thesis using inv False interferes_refl by auto
  qed
  then show "table_inv t'" and "length (slots t') = length (slots t)" and "held_ok t ls \<Longrightarrow> interferes (pins_of ls) t t'"
    and "filling (slots t' ! j) \<Longrightarrow> slots t' ! j = slots t ! j"
    and "i < length (slots t) \<Longrightarrow> \<not> (filling (slots t' ! i) \<and> s_finishing (slots t' ! i))" by blast+
qed

lemma publish_all_result:
  assumes "table_inv t"
  shows "table_inv (fold (publish_claimed tp) is t) \<and> length (slots (fold (publish_claimed tp) is t)) = length (slots t) \<and>
     (held_ok t ls \<longrightarrow> interferes (pins_of ls) t (fold (publish_claimed tp) is t)) \<and>
     (\<forall>j < length (slots t). filling (slots (fold (publish_claimed tp) is t) ! j) \<longrightarrow>
        slots (fold (publish_claimed tp) is t) ! j = slots t ! j \<and> (j \<in> set is \<longrightarrow> \<not> s_finishing (slots t ! j)))"
  using assms
proof (induction "is" arbitrary: t)
  case Nil
  then show ?case by (auto intro: interferes_refl)
next
  case (Cons i "is")
  let ?u = "publish_claimed tp i t"
  note p = publish_claimed_result [OF Cons.prems refl, where tp = tp and i = i]
  note ih = Cons.IH [OF p(1)]
  have rel: "interferes (pins_of ls) t (fold (publish_claimed tp) is ?u)" if "held_ok t ls"
    using interferes_trans [OF p(3) [OF that]] interferes_held [OF that p(3) [OF that]] ih by blast
  have each: "slots (fold (publish_claimed tp) is ?u) ! j = slots t ! j \<and> (j \<in> set (i # is) \<longrightarrow> \<not> s_finishing (slots t ! j))"
    if "j < length (slots t)" "filling (slots (fold (publish_claimed tp) is ?u) ! j)" for j
  proof -
    have 1: "slots (fold (publish_claimed tp) is ?u) ! j = slots ?u ! j" "j \<in> set is \<longrightarrow> \<not> s_finishing (slots ?u ! j)"
      using ih that p(2) by auto
    then have 2: "slots ?u ! j = slots t ! j" using that p(4) by simp
    then show ?thesis using 1 that p(5) by (cases "j = i") auto
  qed
  have eq: "fold (publish_claimed tp) (i # is) t = fold (publish_claimed tp) is ?u" by simp
  have "table_inv (fold (publish_claimed tp) is ?u)" "length (slots (fold (publish_claimed tp) is ?u)) = length (slots t)"
    using ih p(2) by simp_all
  then show ?case unfolding eq using rel each by blast
qed

lemma finisher_relies: "relies ls i (finisher tp)"
  using publish_all_result [where tp = tp and ls = ls] interferes_refl
  by (auto simp: relies_def finisher_def publish_all_def leaves_fill_def)

lemma finisher_settles: "waits_settle (finisher tp)"
  unfolding waits_settle_def
proof (intro allI impI)
  fix t :: "'a table" and slot epoch
  assume t: "table_inv t" "slot < length (slots t)" "filling (slots t ! slot)" "s_finishing (slots t ! slot)"
  have "\<not> filling (slots (publish_all tp t) ! slot)"
    using publish_all_result [OF t(1), where tp = tp and ?is = "[0 ..< length (slots t)]"] t(2,4) by (auto simp: publish_all_def)
  then show "settled slot epoch (finisher tp 2 t)" by (simp add: settled_def finisher_def)
qed

end
