(* ===== verification/Table_Pins.thy ===== *)
theory Table_Pins
  imports Table_Calls
begin

text \<open>
  No call leaks a pin. When the other threads leave the pin counts as they are, a call changes the count of a slot by
  exactly the leases it released and the leases it hands out.
\<close>

definition same_pins :: "'m table \<Rightarrow> 'm table \<Rightarrow> bool" where
  "same_pins t t' \<longleftrightarrow> map s_pins (slots t') = map s_pins (slots t)"

definition keeps_pins :: "(nat \<Rightarrow> 'm table \<Rightarrow> 'm table) \<Rightarrow> bool" where
  "keeps_pins others \<longleftrightarrow> (\<forall>k t. same_pins t (others k t))"

lemma same_pins_refl [simp]: "same_pins t t" by (simp add: same_pins_def)

lemma same_pins_trans: "same_pins t t' \<Longrightarrow> same_pins t' t'' \<Longrightarrow> same_pins t t''" by (simp add: same_pins_def)

lemma same_pinsD:
  assumes "same_pins t t'"
  shows "length (slots t') = length (slots t)" and "j < length (slots t) \<Longrightarrow> s_pins (slots t' ! j) = s_pins (slots t ! j)"
proof -
  show len: "length (slots t') = length (slots t)" using assms unfolding same_pins_def by (metis length_map)
  show "s_pins (slots t' ! j) = s_pins (slots t ! j)" if "j < length (slots t)"
    using assms that len unfolding same_pins_def by (metis nth_map)
qed

lemma same_pinsI:
  "length (slots t') = length (slots t) \<Longrightarrow> (\<And>j. j < length (slots t) \<Longrightarrow> s_pins (slots t' ! j) = s_pins (slots t ! j)) \<Longrightarrow>
     same_pins t t'"
  unfolding same_pins_def by (rule nth_equalityI) simp_all

lemma finish_fill_pins:
  assumes inv: "table_inv t" and i: "i < length (slots t)" and fill: "filling (slots t ! i)" and mine: "s_finishing (slots t ! i)"
    and rely: "relies ls i others" and pins: "keeps_pins others"
  shows "same_pins t (finish_fill tp (others 1) i None t)"
proof -
  obtain raw m where w: "await_fill tp (slots t ! i) None (mem t) = (raw, m)" by fastforce
  have leave: "\<forall>u. table_inv u \<longrightarrow> filling (slots u ! i) \<longrightarrow> s_finishing (slots u ! i) \<longrightarrow> leaves_fill i u (others 1 u)"
    using rely by (simp add: relies_def)
  note f = finish_fill_result [OF inv i fill mine leave w]
  have "same_pins (t\<lparr>mem := m\<rparr>) (others 1 (t\<lparr>mem := m\<rparr>))" using pins unfolding keeps_pins_def by blast
  note u = same_pinsD [OF this]
  show ?thesis
  proof (rule same_pinsI)
    fix j assume "j < length (slots t)"
    then show "s_pins (slots (finish_fill tp (others 1) i None t) ! j) = s_pins (slots t ! j)"
      using f(5,6) u by (cases "j = i") simp_all
  qed (rule f(2))
qed

lemma drive_row_pins:
  assumes run: "drive_row tp others l t = Some (st, l', t')" and inv: "table_inv t" and held: "held_ok t ls" and l: "l \<in> set ls"
    and rely: "relies ls (l_slot l) others" and pins: "keeps_pins others"
  shows "same_pins t t'"
proof -
  define u where "u = others 0 t"
  have iu: "interferes (pins_of ls) t u" using rely inv held by (simp add: relies_def u_def)
  then have invu: "table_inv u" and lu: "l_slot l < length (slots u)" using held l by (auto simp: interferes_def held_ok_def)
  have tu: "same_pins t u" using pins by (simp add: keeps_pins_def u_def)
  define v where "v = (if filling (slots u ! l_slot l) \<and> \<not> s_finishing (slots u ! l_slot l)
      then finish_fill tp (others 1) (l_slot l) None (upd_slot (l_slot l) (\<lambda>s. s\<lparr>s_finishing := True\<rparr>) u)
      else if filling (slots u ! l_slot l) then others 2 u else u)"
  have out: "t' = u \<or> t' = v" using run by (auto simp: drive_row_def Let_def simp flip: u_def v_def split: if_splits)
  consider (stay) "t' = u" | (wait) "t' = others 2 u"
    | (finish) "filling (slots u ! l_slot l)"
        "t' = finish_fill tp (others 1) (l_slot l) None (upd_slot (l_slot l) (\<lambda>s. s\<lparr>s_finishing := True\<rparr>) u)"
    using out by (auto simp: v_def split: if_splits)
  then show ?thesis
  proof cases
    case stay
    then show ?thesis using tu by simp
  next
    case wait
    then show ?thesis using same_pins_trans [OF tu] pins by (simp add: keeps_pins_def)
  next
    case finish
    note f = finishing_interferes [OF invu interferes_held [OF held iu] lu finish(1)]
    let ?v = "upd_slot (l_slot l) (\<lambda>s. s\<lparr>s_finishing := True\<rparr>) u"
    have "same_pins u ?v" using lu by (auto intro!: same_pinsI simp: upd_slot_def nth_list_update)
    moreover have "same_pins ?v t'" unfolding finish(2)
      using finish_fill_pins [OF f(1) _ f(4,5) rely pins] f(6) lu by simp
    ultimately show ?thesis using same_pins_trans [OF tu] same_pins_trans by blast
  qed
qed

lemma drive_rows_pins:
  assumes "drive_rows tp others rest t = Some (st, out, t')" and "table_inv t" and "held_ok t ls" and "set rest \<subseteq> set ls"
    and "\<And>k l. l \<in> set ls \<Longrightarrow> relies ls (l_slot l) (others k)" and "waits_out tp" and "\<And>k. keeps_pins (others k)"
  shows "same_pins t t'"
  using assms(1-4)
proof (induction rest arbitrary: t out)
  case (Cons l rest)
  obtain st1 l1 u where row: "drive_row tp (others (length rest)) l t = Some (st1, l1, u)"
    using Cons.prems(1) by (auto split: option.splits)
  have lin: "l \<in> set ls" using Cons.prems(4) by simp
  have r: "interferes (pins_of ls) t u" by (rule drive_row_result(1) [OF row Cons.prems(2,3) lin assms(5) [OF lin] assms(6)])
  have tu: "same_pins t u" by (rule drive_row_pins [OF row Cons.prems(2,3) lin assms(5) [OF lin] assms(7)])
  show ?case
  proof (cases "st1 = Ok")
    case False
    then show ?thesis using Cons.prems(1) row tu by auto
  next
    case True
    then obtain out' where rest: "drive_rows tp others rest u = Some (st, out', t')"
      using Cons.prems(1) row by (auto split: option.splits)
    have "same_pins u t'"
      by (rule Cons.IH [OF rest]) (use r interferes_held [OF Cons.prems(3) r] Cons.prems(4) in \<open>simp_all add: interferes_def\<close>)
    then show ?thesis by (rule same_pins_trans [OF tu])
  qed
qed simp

text \<open>The pins released are those of the leases, none more.\<close>

lemma release_leases_pins:
  assumes "table_inv t" and "held_ok t (leases_in out)" and "release_leases out t = Some t'"
  shows "length (slots t') = length (slots t)"
    and "j < length (slots t) \<Longrightarrow> s_pins (slots t' ! j) + pins_of (leases_in out) j = s_pins (slots t ! j)"
  using release_leases_result [OF assms(1,2)] assms(2,3) by (auto simp: releases_def held_ok_def)

lemma resolve_into_pins:
  assumes run: "resolve_into tp others rows out t = Some (r, out', t')" and inv: "table_inv t"
    and own: "held_ok t (leases_in (take (length rows) out))"
    and rely: "call_relies tp others rows out t" and out: "waits_out tp" and pins: "\<And>k. keeps_pins (others k)"
    and j: "j < length (slots t)"
  shows "s_pins (slots t' ! j) + pins_of (leases_in (take (length rows) out)) j =
     s_pins (slots t ! j) + pins_of (leases_in (take (length rows) out')) j"
proof (cases "rows = [] \<or> length rows > unat (c_max_batch_rows (config t)) \<or> length out < length rows")
  case True
  then have "out' = out" "t' = t" using run by (auto simp: resolve_into_def Let_def split: if_splits)
  then show ?thesis by simp
next
  case False
  let ?n = "length rows" and ?empty = "replicate (length rows) None @ drop (length rows) out"
  have none: "pins_of (leases_in (replicate k None)) j = 0" for k by (induction k) simp_all
  obtain t1 where t1: "release_leases (take ?n out) t = Some t1" and rel: "releases (pins_of (leases_in (take ?n out))) t t1"
    using release_leases_result [OF inv own] by blast
  have inv1: "table_inv t1" using rel by (simp add: releases_def)
  note p1 = release_leases_pins [OF inv own t1]
  show ?thesis
  proof (cases "\<exists>row \<in> set rows. row \<ge> c_row_count (config t1)")
    case True
    then have "out' = ?empty" "t' = t1" using run False t1 by (auto simp: resolve_into_def Let_def)
    then show ?thesis using p1 j none by simp
  next
    case inrange: False
    obtain failure ls t2 where ad: "admit_rows tp rows t1 = (failure, ls, t2)" by (metis prod_cases3)
    note a = admit_rows_result [OF inv1 ad]
    have inv2: "table_inv t2" and held2: "held_ok t2 ls" and len2: "length (slots t2) = length (slots t)"
      using a admit_rows_held [OF inv1 ad] p1(1) by (simp_all add: admits_def)
    have p2: "s_pins (slots t2 ! j) = s_pins (slots t1 ! j) + pins_of ls j" using a j p1(1) by simp
    have cl: "call_leases tp rows out t = ls" by (simp add: call_leases_def t1 ad)
    have run1: "(if failure \<noteq> Ok then map_option (\<lambda>t. (Inl failure, ?empty, t)) (release_leases (map Some ls) t2)
        else case drive_rows tp others ls t2 of None \<Rightarrow> None
          | Some (failure, leases, t) \<Rightarrow>
              if failure \<noteq> Ok then map_option (\<lambda>t. (Inl failure, ?empty, t)) (release_leases (map Some leases) t)
              else Some (Inr ?n, map Some leases @ drop ?n out, t)) = Some (r, out', t')"
      using run False t1 inrange ad by (auto simp: resolve_into_def Let_def)
    show ?thesis
    proof (cases "failure = Ok")
      case False
      then have rel2: "release_leases (map Some ls) t2 = Some t'" and o: "out' = ?empty" using run1 by auto
      have "s_pins (slots t' ! j) + pins_of ls j = s_pins (slots t2 ! j)"
        using release_leases_pins(2) [OF inv2 _ rel2, of j] held2 j len2 by simp
      then show ?thesis using p2 p1(2) [OF j] none o by simp
    next
      case True
      then obtain st leases t3 where dr: "drive_rows tp others ls t2 = Some (st, leases, t3)"
        using run1 by (auto split: option.splits)
      have rely': "\<And>k l. l \<in> set ls \<Longrightarrow> relies ls (l_slot l) (others k)" using rely by (auto simp: call_relies_def cl)
      note d = drive_rows_result [OF dr inv2 held2 subset_refl rely' out]
      have inv3: "table_inv t3" and same: "pins_of leases = pins_of ls" and held3: "held_ok t3 leases"
        using d interferes_held [OF held2] same_leases_held by (auto simp: interferes_def)
      note sp = same_pinsD [OF drive_rows_pins [OF dr inv2 held2 subset_refl rely' out pins]]
      have p3: "s_pins (slots t3 ! j) = s_pins (slots t2 ! j)" "length (slots t3) = length (slots t)"
        using sp j len2 by simp_all
      show ?thesis
      proof (cases "st = Ok")
        case False
        then have rel3: "release_leases (map Some leases) t3 = Some t'" and o: "out' = ?empty" using run1 True dr by auto
        have "s_pins (slots t' ! j) + pins_of leases j = s_pins (slots t3 ! j)"
          using release_leases_pins(2) [OF inv3 _ rel3, of j] held3 j p3 by simp
        then show ?thesis using p3 p2 p1(2) [OF j] none o same by simp
      next
        case ok: True
        have "length leases = ?n" using d a True list_all2_lengthD by fastforce
        moreover have "out' = map Some leases @ drop ?n out" "t' = t3" using run1 True dr ok by auto
        ultimately show ?thesis using p3 p2 p1(2) [OF j] same by simp
      qed
    qed
  qed
qed

text \<open>The thread that only finishes the fills it has claimed keeps every pin.\<close>

lemma finisher_pins: "keeps_pins (finisher tp)"
proof -
  have one: "same_pins t (publish_claimed tp i t)" for i and t :: "'a table"
    by (rule same_pinsI) (auto simp: publish_claimed_def publish_fill_def Let_def upd_slot_def nth_list_update
      unindex_locked_def release_scratch_def leave_binding_def count_def split: option.splits)
  have "same_pins t (fold (publish_claimed tp) is t)" for "is" and t :: "'a table"
  proof (induction "is" arbitrary: t)
    case (Cons i "is")
    show ?case using same_pins_trans [OF one Cons.IH] by simp
  qed simp
  then show ?thesis by (simp add: keeps_pins_def finisher_def publish_all_def)
qed

end
