(* ===== verification/Ram_Transport.thy ===== *)
theory Ram_Transport
  imports Table_Model
begin

text \<open>
  A concrete transport over memory: a submitted read is copied at once, or refused when it lies outside its source or its
  storage, and every wait returns. It instantiates the transport parameter of the model, for a table of two slots over one source of
  four rows of four bytes.
\<close>

record ram =
  ram_source :: "source_id \<Rightarrow> bytes"
  ram_sets :: "(source_id \<times> nat \<times> storage) list"
  ram_output :: bytes
  ram_scratch :: bytes
  ram_claims :: "((storage \<times> nat \<times> nat) \<times> source_id \<times> nat) list"

definition ram_create :: "source_id \<Rightarrow> u64 \<Rightarrow> storage \<Rightarrow> u32 \<Rightarrow> ram \<Rightarrow> (mp_status + transfer_set) \<times> ram" where
  "ram_create src bytes st max_claims m = (Inr (length (ram_sets m)), m\<lparr>ram_sets := ram_sets m @ [(src, unat bytes, st)]\<rparr>)"

definition ram_submit :: "transfer_set \<Rightarrow> byte_range \<Rightarrow> u64 \<Rightarrow> ram \<Rightarrow> (mp_status + claim) \<times> ram" where
  "ram_submit ts rng dst m =
     (if length (ram_sets m) \<le> ts then (Inl MP_Invalid_argument, m)
      else
        let (src, size, st) = ram_sets m ! ts; off = unat (br_offset rng); len = unat (br_length rng);
            target = (case st of Output_storage \<Rightarrow> ram_output m | Scratch_storage \<Rightarrow> ram_scratch m);
            data = slice (ram_source m src) off len;
            m' = m\<lparr>ram_claims := ram_claims m @ [((st, unat dst, len), src, off)]\<rparr>
        in if size < off + len \<or> length (ram_source m src) < off + len \<or> length target < unat dst + len
           then (Inl MP_Out_of_range, m)
           else (Inr (length (ram_claims m)),
             case st of
               Output_storage \<Rightarrow> m'\<lparr>ram_output := put_at target (unat dst) data\<rparr>
             | Scratch_storage \<Rightarrow> m'\<lparr>ram_scratch := put_at target (unat dst) data\<rparr>))"

definition ram_bytes :: "claim \<Rightarrow> ram \<Rightarrow> bytes" where
  "ram_bytes c m =
     (case fst (ram_claims m ! c) of
        (Output_storage, off, len) \<Rightarrow> slice (ram_output m) off len
      | (Scratch_storage, off, len) \<Rightarrow> slice (ram_scratch m) off len)"

definition ram_transport :: "ram transport" where
  "ram_transport = \<lparr>tp_create = ram_create, tp_submit = ram_submit, tp_wait = (\<lambda>c deadline m. (MP_Ok, m)),
     tp_bytes = ram_bytes, tp_reset = (\<lambda>c m. m), tp_output = ram_output,
     tp_put = (\<lambda>off bs m. m\<lparr>ram_output := put_at (ram_output m) off bs\<rparr>)\<rparr>"

definition sample_source :: bytes where
  "sample_source = map of_nat [0 ..< 16]"

definition sample_memory :: ram where
  "sample_memory = \<lparr>ram_source = (\<lambda>_. sample_source), ram_sets = [], ram_output = replicate 8 0,
     ram_scratch = [], ram_claims = []\<rparr>"

definition sample_resolver :: resolver where
  "sample_resolver row = Inr \<lparr>loc_shard = 0, loc_range = \<lparr>br_offset = row * 4, br_length = 4\<rparr>\<rparr>"

definition sample_config :: table_config where
  "sample_config = \<lparr>c_row_count = 4, c_source_row_bytes = 4, c_row_extent = Exact, c_fill_chunk_bytes = 0,
     c_fill_alignment = 0, c_output_row_bytes = 4, c_representation = Identity, c_codec = None,
     c_sources = [\<lparr>sh_source = 7, sh_bytes = 16\<rparr>], c_generation = 1, c_resolve_extent = Some sample_resolver,
     c_output_addr = 0, c_output_size = 8, c_budget_rows = 2, c_scratch_size = 0, c_scratch_rows = 0,
     c_max_tickets = 2, c_max_batch_rows = 2\<rparr>"

text \<open>The table \<open>create\<close> makes from it, written out.\<close>

definition sample_binding :: binding where
  "sample_binding = \<lparr>b_id = 0, b_sources = [\<lparr>sh_source = 7, sh_bytes = 16\<rparr>], b_resolver = sample_resolver,
     b_row_transfers = [0], b_scratch_transfers = [], b_in_flight = 0\<rparr>"

definition sample_ram :: ram where
  "sample_ram = sample_memory\<lparr>ram_sets := [(7, 16, Output_storage)]\<rparr>"

definition sample_table :: "ram table" where
  "sample_table = \<lparr>config = sample_config, active_codec = None, chunks_per_row = 1,
     current_binding = sample_binding, retiring_binding = None, slots = [fresh_slot, fresh_slot],
     index = [None, None, None, None], index_shift = 62, tickets = [fresh_ticket, fresh_ticket],
     waiters = [(None, 0), (None, 0), (None, 0), (None, 0)], clock_hand = 0, current_generation = 1,
     pins_total = 0, tickets_held = 0, in_flight = 0, non_free = 0, counters = zero_stats,
     scratch_used = [], worker_stopping = False, next_binding = 1, mem = sample_ram\<rparr>"

lemma replicate_small: "replicate 2 x = [x, x]" "replicate 4 x = [x, x, x, x]"
  by (simp_all add: numeral_eq_Suc)

lemma sample_table_new: "new_table sample_config sample_binding sample_ram = sample_table"
proof -
  have "bit_ceil 4 = 4" "countr_zero 4 = 2" by code_simp+
  then show ?thesis
    by (simp add: replicate_small sample_table_def new_table_def sample_config_def active_codec_of_def chunks_per_row_of_def Let_def)
qed

lemma sample_create: "create ram_transport sample_config sample_memory = Inr sample_table"
  unfolding sample_table_new [symmetric]
  by (simp add: create_def sample_config_def create_check_def representation_check_def SIZE_MAX_def NONE_def
      make_binding_def active_codec_of_def chunks_per_row_of_def ram_transport_def ram_create_def
      sample_memory_def sample_ram_def sample_binding_def)

section \<open>A run: row 2 is admitted, finished and published\<close>

definition sample_slot :: slot where
  "sample_slot = fresh_slot\<lparr>s_row_index := 2, s_row_generation := 1, s_epoch := 1, s_pins := 1,
     s_state := Filling, s_referenced := True, s_indexed := True, s_fill_binding := Some 0,
     s_claim := Some 0, s_published_bytes := 4\<rparr>"

definition filled_ram :: ram where
  "filled_ram = sample_ram\<lparr>ram_claims := [((Output_storage, 0, 4), 7, 8)],
     ram_output := [8, 9, 10, 11, 0, 0, 0, 0]\<rparr>"

definition filling_table :: "ram table" where
  "filling_table = sample_table\<lparr>slots := [sample_slot, fresh_slot], index := [None, None, Some 0, None],
     clock_hand := 1, pins_total := 1, in_flight := 1, non_free := 1,
     counters := zero_stats\<lparr>fetches := 1\<rparr>, current_binding := sample_binding\<lparr>b_in_flight := 1\<rparr>,
     mem := filled_ram\<rparr>"

definition sample_lease :: lease where
  "sample_lease = \<lparr>l_slot = 0, l_epoch = 1, l_bytes = (0, 0), l_row_index = 2, l_generation = 1\<rparr>"

definition claimed_table :: "ram table" where
  "claimed_table = filling_table\<lparr>slots := [sample_slot\<lparr>s_finishing := True\<rparr>, fresh_slot]\<rparr>"

definition ready_table :: "ram table" where
  "ready_table = filling_table\<lparr>slots := [sample_slot\<lparr>s_state := Ready, s_claim := None, s_fill_binding := None\<rparr>,
     fresh_slot], in_flight := 0, current_binding := sample_binding\<rparr>"

lemmas sample_defs = sample_table_def sample_binding_def sample_config_def sample_ram_def sample_memory_def
  sample_resolver_def sample_slot_def filled_ram_def filling_table_def sample_lease_def claimed_table_def
  ready_table_def fresh_slot_def fresh_ticket_def zero_stats_def

lemma sample_home: "index_home 62 (2, 1) = 2"
  by (simp add: index_home_def index_hash_def Let_def)

lemma sample_miss: "table_find sample_table 2 1 = None"
  by (simp add: sample_table_def index_find_def sample_home find_stop_def)

lemma sample_victim: "claim_victim ram_transport sample_table = (Some 0, sample_table\<lparr>clock_hand := Suc 0\<rparr>)"
proof -
  have "unat (2 * of_nat (length (slots sample_table)) :: u32) = Suc 3" by (simp add: sample_table_def)
  then show ?thesis unfolding claim_victim_def by (simp only: claim_victim_loop.simps) (simp add: sample_table_def fresh_slot_def Let_def)
qed

lemma sample_bytes: "slice sample_source 8 4 = [8, 9, 10, 11]" "length sample_source = 16"
  by code_simp (simp add: sample_source_def)

lemma sample_start:
  "start_fill_locked ram_transport 0 2 (sample_table\<lparr>clock_hand := Suc 0\<rparr>) =
     (Ok, filling_table\<lparr>slots := [sample_slot\<lparr>s_pins := 0, s_referenced := False\<rparr>, fresh_slot], pins_total := 0\<rparr>)"
  by (simp add: start_fill_locked_def Let_def admit_slot_def upd_slot_def sample_defs resolve_location_def
      fill_window_def submit_fill_def ram_transport_def ram_submit_def fill_started_def count_def
      index_insert_def sample_home sample_bytes put_at_def replicate_small)

lemma sample_admit: "admit_rows ram_transport [2] sample_table = (Ok, [sample_lease], filling_table)"
proof -
  have "current_generation sample_table = 1" by (simp add: sample_table_def)
  then show ?thesis
    by (simp add: admit_row_def sample_miss sample_victim sample_start)
      (simp add: pin_slot_def upd_slot_def make_lease_def sample_defs)
qed

lemma sample_publish: "publish_fill ram_transport 0 None Ok claimed_table = ready_table"
  by (simp add: publish_fill_def upd_slot_def leave_binding_def reset_claims_def ram_transport_def Let_def sample_defs)

end
