(* ===== verification/Table_Properties.thy ===== *)
theory Table_Properties
  imports Table_System Table_Pins Ram_Transport
begin

text \<open>
  What the row cache promises its callers, over the reachable states of \<open>Table_System\<close> and the calls
  of \<open>Table_Calls\<close>. Each property with hypotheses is applied to the sample run of \<open>Ram_Transport\<close>.
\<close>

section \<open>The sample run\<close>

lemma sample_reachable: "reachable ram_transport sample_config (sample_table, [])"
  by (rule created [OF sample_create])

lemma sample_filling: "reachable ram_transport sample_config (filling_table, [sample_lease])"
  using stepped [OF sample_reachable admit [OF sample_admit, of "[]"]] by simp

lemma sample_claimed: "reachable ram_transport sample_config (claimed_table, [sample_lease])"
proof -
  have "upd_slot 0 (\<lambda>s. s\<lparr>s_finishing := True\<rparr>) filling_table = claimed_table"
    by (simp add: upd_slot_def sample_defs)
  then show ?thesis
    using stepped [OF sample_filling claim [of 0 filling_table]] by (simp add: sample_defs)
qed

lemma sample_ready_step:
  "sys_step ram_transport (claimed_table, [sample_lease]) (ready_table, [sample_lease])"
proof -
  have "filling (slots claimed_table ! 0)" "s_finishing (slots claimed_table ! 0)" "0 < length (slots claimed_table)"
    "s_scratch_slot (slots claimed_table ! 0) = None" by (simp_all add: sample_defs)
  then show ?thesis using publish [of 0 claimed_table ram_transport "[sample_lease]" Ok] sample_publish by simp
qed

lemma sample_ready: "reachable ram_transport sample_config (ready_table, [sample_lease])"
  by (rule stepped [OF sample_claimed sample_ready_step])

lemma sample_inv: "table_inv sample_table" "table_inv filling_table" "table_inv claimed_table" "table_inv ready_table"
  using reachable_inv [OF sample_reachable] reachable_inv [OF sample_filling] reachable_inv [OF sample_claimed]
    reachable_inv [OF sample_ready] by (simp_all add: sys_inv_iff)

lemma sample_waits: "waits_out ram_transport"
  by (simp add: waits_out_def ram_transport_def)

section \<open>Leases\<close>

text \<open>
  C1. A leased row stays put. In any run of the system during which a lease is not released, its slot
  keeps the epoch, the row and the generation the lease names; once the row is Ready it stays Ready,
  and the span of bytes it publishes does not change, whatever the other threads do.
\<close>

theorem lease_stability:
  assumes "reachable tp cfg s" and "held_run tp i epoch s s'"
  shows "slot_key (slots (fst s') ! i) = slot_key (slots (fst s) ! i) \<and>
     s_epoch (slots (fst s') ! i) = epoch \<and> s_pins (slots (fst s') ! i) \<noteq> 0 \<and>
     (s_state (slots (fst s) ! i) = Ready \<longrightarrow> s_state (slots (fst s') ! i) = Ready) \<and>
     published_span (fst s') i = published_span (fst s) i"
proof -
  note k = held_run_keeps [OF assms(2) reachable_inv [OF assms(1)]]
  then have "s_pins (slots (fst s') ! i) \<noteq> 0" using holdsD(3) [of "fst s'" "snd s'" i epoch] by simp
  then show ?thesis using k by simp
qed

theorem lease_stability_witness:
  "published_span ready_table 0 = published_span claimed_table 0 \<and> s_epoch (slots ready_table ! 0) = 1"
proof -
  have h: "holds 0 1 (t, [sample_lease])" for t :: "ram table" by (simp add: holds_def sample_lease_def)
  have "held_run ram_transport 0 1 (claimed_table, [sample_lease]) (ready_table, [sample_lease])"
    by (rule held_run.run [OF held_run.stay [OF h] sample_ready_step h])
  from lease_stability [OF sample_claimed this] show ?thesis by simp
qed

text \<open>
  C2. In every reachable state the table's invariant holds, every pin is accounted for by exactly one
  lease that is held, and every lease held names the row its slot holds.
\<close>

theorem reachable_pins:
  assumes "reachable tp cfg (t, ls)"
  shows "table_inv t \<and> (\<forall>j < length (slots t). s_pins (slots t ! j) = pins_of ls j) \<and>
     pins_total t = length ls \<and> list_all (lease_ok t) ls"
proof -
  have inv: "sys_inv (t, ls)" by (rule reachable_inv [OF assms])
  then have t: "table_inv t" and ok: "\<And>l. l \<in> set ls \<Longrightarrow> l_slot l < length (slots t)"
    and pins: "\<forall>j < length (slots t). s_pins (slots t ! j) = pins_of ls j"
    by (auto simp: sys_inv_iff lease_ok_def)
  have "(\<Sum>j < n. pins_of ls j) = length ls" if "\<And>l. l \<in> set ls \<Longrightarrow> l_slot l < n" for n
    using that by (induction ls) (auto simp: sum.distrib)
  then have "(\<Sum>j < length (slots t). s_pins (slots t ! j)) = length ls" using ok pins by simp
  moreover have "pins_total t = (\<Sum>j < length (slots t). s_pins (slots t ! j))"
    using table_invD(5) [OF t] by (simp add: counts_ok_def tally_def sum_list_sum_nth atLeast0LessThan)
  ultimately show ?thesis using inv t pins by (auto simp: sys_inv_iff list_all_iff)
qed

theorem reachable_pins_witness: "table_inv ready_table \<and> pins_total ready_table = 1"
  using reachable_pins [OF sample_ready] by simp

text \<open>
  Releasing a lease that is held never terminates the process: the epoch check and the pin check of
  \<open>release_lease\<close> cannot fail in a reachable state.
\<close>

lemma release_held_lease:
  assumes "reachable tp cfg (t, ls)" and "l \<in> set ls"
  shows "\<exists>t'. release_lease (l_slot l) (l_epoch l) t = Some t' \<and>
     s_pins (slots t' ! l_slot l) + 1 = s_pins (slots t ! l_slot l) \<and> mem t' = mem t"
proof -
  have inv: "sys_inv (t, ls)" by (rule reachable_inv [OF assms(1)])
  then have t: "table_inv t" and l: "l_slot l < length (slots t)" "s_epoch (slots t ! l_slot l) = l_epoch l"
    "s_pins (slots t ! l_slot l) \<noteq> 0" using assms(2) by (auto simp: sys_inv_iff lease_ok_def)
  obtain t' where "release_lease (l_slot l) (l_epoch l) t = Some t'" "releases (\<lambda>j. of_bool (l_slot l = j)) t t'"
    by (rule release_lease_result [OF t l])
  then show ?thesis using l by (auto simp: releases_def)
qed

lemma release_held_lease_sample: "\<exists>t'. release_lease 0 1 ready_table = Some t'"
  using release_held_lease [OF sample_ready, of sample_lease] by (auto simp: sample_lease_def)

section \<open>Batch resolution\<close>

lemma sample_call_relies: "call_relies ram_transport (\<lambda>k. finisher ram_transport) rows out t"
  by (simp add: call_relies_def finisher_relies)

text \<open>
  C4. \<open>resolve_into\<close> is all or nothing under any interference by other threads. On an error the caller
  holds none of the batch's leases: either nothing was touched, or the leading entries of \<open>out\<close> are
  empty. On success entry \<open>q\<close> is a lease on row \<open>rows[q]\<close> of the current generation, pinned in its slot,
  Ready, with the span that slot publishes (a row that failed with the status \<open>ok\<close>, which no failure
  reports, is the only exception). And no pin leaks: when the other threads leave the pin counts alone, each
  slot's count changes by exactly the leases that left and entered \<open>out\<close>.
\<close>

theorem resolve_into_all_or_nothing:
  assumes "resolve_into tp others rows out t = Some (r, out', t')" and "table_inv t"
    and "held_ok t (leases_in (take (length rows) out))"
    and "call_relies tp others rows out t" and "waits_out tp"
  shows "table_inv t' \<and>
     (case r of
        Inl e \<Rightarrow> out' = out \<and> t' = t \<or> out' = replicate (length rows) None @ drop (length rows) out
      | Inr n \<Rightarrow> n = length rows \<and> length out' = length out \<and> drop n out' = drop n out \<and>
          (\<forall>q < n. resolved t' (rows ! q) (current_generation t) (out' ! q))) \<and>
     ((\<forall>k. keeps_pins (others k)) \<longrightarrow> (\<forall>j < length (slots t).
        s_pins (slots t' ! j) + pins_of (leases_in (take (length rows) out)) j =
        s_pins (slots t ! j) + pins_of (leases_in (take (length rows) out')) j))"
  using resolve_into_result [OF assms] resolve_into_pins [OF assms] by (auto split: sum.split)

theorem resolve_into_all_or_nothing_witness:
  "\<exists>r out' t'. resolve_into ram_transport (\<lambda>k. finisher ram_transport) [2] [None] sample_table = Some (r, out', t') \<and>
     table_inv t' \<and> s_pins (slots t' ! 0) = pins_of (leases_in (take 1 out')) 0"
proof -
  have own: "held_ok sample_table (leases_in (take (length [2]) [None]))" by (simp add: held_ok_def)
  have "\<forall>k. waits_settle (finisher ram_transport)" by (simp add: finisher_settles)
  then obtain r out' t' where run: "resolve_into ram_transport (\<lambda>k. finisher ram_transport) [2] [None] sample_table = Some (r, out', t')"
    using resolve_into_returns [OF sample_inv(1) own sample_call_relies sample_waits] by auto
  have "length (slots sample_table) = 2" "s_pins (slots sample_table ! 0) = 0" by (simp_all add: sample_defs)
  with resolve_into_all_or_nothing [OF run sample_inv(1) own sample_call_relies sample_waits] finisher_pins run
  show ?thesis by auto
qed



section \<open>Eviction, coalescing and failure\<close>

text \<open>
  C6. The clock sweep never takes a row in use and never gives up too early. \<open>claim_victim\<close> leaves every
  pinned or Filling slot exactly as it was, the slot it returns is free afterwards, and for tables of
  fewer than \<open>2 ^ 31\<close> slots it returns none only if every slot is pinned or Filling.
\<close>

theorem claim_victim_correct:
  assumes "table_inv t" and "claim_victim tp t = (r, t')"
  shows "table_inv t' \<and>
     (\<forall>i < length (slots t). s_pins (slots t ! i) \<noteq> 0 \<or> s_state (slots t ! i) = Filling \<longrightarrow> slots t' ! i = slots t ! i) \<and>
     (\<forall>i. r = Some i \<longrightarrow> i < length (slots t) \<and> s_state (slots t' ! i) = Free) \<and>
     (length (slots t) < 2 ^ 31 \<longrightarrow>
        (r = None \<longleftrightarrow> (\<forall>i < length (slots t). s_pins (slots t ! i) \<noteq> 0 \<or> s_state (slots t ! i) = Filling)))"
proof -
  have "evicts t t'" "\<And>i. r = Some i \<Longrightarrow> i < length (slots t) \<and> s_state (slots t' ! i) = Free"
    using claim_victim_result [OF assms(2,1)] by blast+
  moreover have "r = None \<longleftrightarrow> (\<forall>i < length (slots t). blocked (slots t ! i))" if "length (slots t) < 2 ^ 31"
    using claim_victim_None_iff [OF assms(1) that, of tp] assms(2) by simp
  ultimately show ?thesis by (auto simp: evicts_def blocked_def)
qed

theorem claim_victim_correct_witness:
  "claim_victim ram_transport sample_table = (Some 0, sample_table\<lparr>clock_hand := Suc 0\<rparr>) \<and>
   s_state (slots sample_table ! 0) = Free"
  using claim_victim_correct [OF sample_inv(1) sample_victim] sample_victim by simp

text \<open>
  C7. Requests for one row share one fill. In a reachable state at most one slot is Filling or Ready for a
  given row and generation, so a row is never fetched twice at the same time, and the index finds that slot, so every
  later request joins it.
\<close>

theorem one_fill_per_row:
  assumes "reachable tp cfg (t, ls)" and "i < length (slots t)" and "j < length (slots t)"
    and "s_state (slots t ! i) \<in> {Filling, Ready}" and "s_state (slots t ! j) \<in> {Filling, Ready}"
    and "s_row_index (slots t ! i) = s_row_index (slots t ! j)"
    and "s_row_generation (slots t ! i) = s_row_generation (slots t ! j)"
  shows "i = j \<and> table_find t (s_row_index (slots t ! i)) (s_row_generation (slots t ! i)) = Some i"
proof -
  have t: "table_inv t" using reachable_inv [OF assms(1)] by (simp add: sys_inv_iff)
  have ix: "s_indexed (slots t ! i)" "s_indexed (slots t ! j)"
    using assms(4,5) table_invD(3) [OF t assms(2)] table_invD(3) [OF t assms(3)] by (auto simp: slot_ok_def)
  let ?r = "s_row_index (slots t ! i)" and ?g = "s_row_generation (slots t ! i)"
  have "table_find t ?r ?g = Some i" "table_find t ?r ?g = Some j"
    using table_find_iff [OF t] assms ix by (simp_all add: slot_key_def)
  then show ?thesis by simp
qed

theorem one_fill_per_row_witness:
  "s_state (slots ready_table ! 0) = Ready \<and> table_find ready_table 2 1 = Some 0"
proof -
  have "0 < length (slots ready_table)" "s_state (slots ready_table ! 0) = Ready"
    "s_row_index (slots ready_table ! 0) = 2" "s_row_generation (slots ready_table ! 0) = 1"
    by (simp_all add: sample_defs)
  with one_fill_per_row [OF sample_ready, of 0 0] show ?thesis by simp
qed

text \<open>
  C8. A failed fill is forgotten at once (R14). When the finisher of a claimed fill publishes a result other than
  \<open>ok\<close>, the slot is Failed with that result, the row is no longer found in the index, so the next request
  starts a new fill, and no pin of any slot changes.
\<close>

theorem failed_fill_forgotten:
  assumes "reachable tp cfg (t, ls)" and "i < length (slots t)" and "s_state (slots t ! i) = Filling"
    and "result \<noteq> Ok" and "t' = publish_fill tp i (s_scratch_slot (slots t ! i)) result t"
  shows "s_state (slots t' ! i) = Failed \<and> s_failure (slots t' ! i) = result \<and>
     table_find t' (s_row_index (slots t ! i)) (s_row_generation (slots t ! i)) = None \<and>
     in_flight t' + 1 = in_flight t \<and> (\<forall>j < length (slots t). s_pins (slots t' ! j) = s_pins (slots t ! j))"
proof -
  have t: "table_inv t" using reachable_inv [OF assms(1)] by (simp add: sys_inv_iff)
  then have t': "table_inv t'" using inv_publish_fill [OF t assms(2,3) refl] assms(5) by simp
  have ix: "s_indexed (slots t ! i)" using assms(3) table_invD(3) [OF t assms(2)] by (simp add: slot_ok_def)
  note f = publish_fill_fields [OF assms(2) ix assms(5)]
  have st: "s_state (slots t' ! i) = Failed" "s_failure (slots t' ! i) = result"
    using f(1) assms(2,4) by (simp_all add: published_slot_def)
  have pins: "s_pins (slots t' ! j) = s_pins (slots t ! j)" for j
    using f(1) assms(2) by (cases "j = i") (simp_all add: published_slot_def)
  have "table_find t' (s_row_index (slots t ! i)) (s_row_generation (slots t ! i)) = None"
  proof (rule ccontr)
    assume "table_find t' (s_row_index (slots t ! i)) (s_row_generation (slots t ! i)) \<noteq> None"
    then obtain j where "table_find t' (s_row_index (slots t ! i)) (s_row_generation (slots t ! i)) = Some j" by auto
    then have j: "j < length (slots t')" "s_indexed (slots t' ! j)" "slot_key (slots t' ! j) = slot_key (slots t ! i)"
      using table_find_iff [OF t'] by (auto simp: slot_key_def)
    have "j \<noteq> i" using j st table_invD(3) [OF t' j(1)] by (auto simp: slot_ok_def)
    then have "s_indexed (slots t ! j)" "slot_key (slots t ! j) = slot_key (slots t ! i)" "j < length (slots t)"
      using f(1) j by simp_all
    then have "table_find t (s_row_index (slots t ! i)) (s_row_generation (slots t ! i)) = Some j"
      "table_find t (s_row_index (slots t ! i)) (s_row_generation (slots t ! i)) = Some i"
      using table_find_iff [OF t] ix assms(2) by (simp_all add: slot_key_def)
    then show False using \<open>j \<noteq> i\<close> by simp
  qed
  moreover have "in_flight t' + 1 = in_flight t"
    using f(4) counts_ok_flying [OF table_invD(5) [OF t] assms(2,3)] by simp
  ultimately show ?thesis using st pins by simp
qed

theorem failed_fill_forgotten_witness:
  "table_find (publish_fill ram_transport 0 None Io_error claimed_table) 2 1 = None"
proof -
  have s: "s_state (slots claimed_table ! 0) = Filling" "0 < length (slots claimed_table)"
    "s_scratch_slot (slots claimed_table ! 0) = None" "s_row_index (slots claimed_table ! 0) = 2"
    "s_row_generation (slots claimed_table ! 0) = 1" by (simp_all add: sample_defs)
  from failed_fill_forgotten [OF sample_claimed s(2,1) _ refl, of Io_error] show ?thesis unfolding s by simp
qed

section \<open>Lookup\<close>

text \<open>
  C9. \<open>try_get\<close> returns a lease exactly when the row is in range and a slot holds it Ready for the current
  generation; the lease then names that row and the slot's published span, and exactly one pin is added.
  It never starts, waits for or finishes a transfer, and on a miss it changes no slot.
\<close>

theorem try_get_exact:
  assumes "table_inv t" and "try_get row t = (r, t')"
  shows "(r \<noteq> None \<longleftrightarrow> row < c_row_count (config t) \<and>
       (\<exists>i < length (slots t). s_state (slots t ! i) = Ready \<and> slot_key (slots t ! i) = (row, current_generation t))) \<and>
     (\<forall>l. r = Some l \<longrightarrow> l_row_index l = row \<and> l_generation l = current_generation t \<and> lease_ok t' l \<and>
        s_state (slots t' ! l_slot l) = Ready \<and> l_bytes l = published_span t' (l_slot l) \<and>
        (\<forall>j < length (slots t). s_pins (slots t' ! j) = s_pins (slots t ! j) + of_bool (j = l_slot l))) \<and>
     (r = None \<longrightarrow> slots t' = slots t) \<and> mem t' = mem t \<and> in_flight t' = in_flight t \<and> table_inv t'"
  using try_get_result [OF assms] by (auto simp: admits_def)

theorem try_get_exact_witness:
  "fst (try_get 2 sample_table) = None \<and> (\<exists>l. fst (try_get 2 ready_table) = Some l \<and> l_row_index l = 2)"
proof -
  obtain r t' r2 t2 where run: "try_get 2 sample_table = (r, t')" "try_get 2 ready_table = (r2, t2)" by fastforce
  have "i < length (slots sample_table) \<Longrightarrow> s_state (slots sample_table ! i) = Free" for i
    by (auto simp: sample_table_def fresh_slot_def nth_Cons split: nat.splits)
  then have "r = None" using try_get_exact [OF sample_inv(1) run(1)] by auto
  moreover have "s_state (slots ready_table ! 0) = Ready" "slot_key (slots ready_table ! 0) = (2, current_generation ready_table)"
    "(0::nat) < length (slots ready_table)" "(2 :: u64) < c_row_count (config ready_table)"
    by (simp_all add: sample_defs slot_key_def)
  then have "r2 \<noteq> None" using try_get_exact [OF sample_inv(4) run(2)] by blast
  ultimately show ?thesis using try_get_exact [OF sample_inv(4) run(2)] run by auto
qed

section \<open>Generations\<close>

text \<open>
  C10. \<open>invalidate\<close> refuses with \<open>busy\<close> while the previous generation still has fills in flight, and it never
  touches a slot: every lease of the old generation stays valid. After it succeeds with a generation no slot
  carries, no row is found until it is fetched again from the new sources.
\<close>

theorem invalidate_safe:
  assumes "table_inv t" and "invalidate tp g sources resolve t = (st, t')"
  shows "table_inv t' \<and> slots t' = slots t \<and>
     ((\<exists>b. retiring_binding t = Some b \<and> b_in_flight b \<noteq> 0) \<and> sources \<noteq> [] \<and> (\<forall>s \<in> set sources. sh_bytes s \<noteq> 0)
        \<longrightarrow> st = Busy \<and> t' = t) \<and>
     (current_generation t' = g \<and> (\<forall>i < length (slots t). s_row_generation (slots t ! i) \<noteq> g)
        \<longrightarrow> (\<forall>row. fst (try_get row t') = None))"
proof (intro conjI impI allI)
  note r = invalidate_result [OF assms]
  show "table_inv t'" "slots t' = slots t" by (rule r)+
  show "st = Busy" "t' = t" if "(\<exists>b. retiring_binding t = Some b \<and> b_in_flight b \<noteq> 0) \<and> sources \<noteq> [] \<and> (\<forall>s \<in> set sources. sh_bytes s \<noteq> 0)"
    using assms(2) that by (auto simp: invalidate_def)
  fix row
  assume fresh: "current_generation t' = g \<and> (\<forall>i < length (slots t). s_row_generation (slots t ! i) \<noteq> g)"
  obtain q u where run: "try_get row t' = (q, u)" by fastforce
  show "fst (try_get row t') = None"
    using try_get_result(6) [OF r(1) run] run fresh r(2) by (auto simp: slot_key_def)
qed

theorem invalidate_safe_witness:
  "fst (try_get 2 (snd (invalidate ram_transport 2 [\<lparr>sh_source = 8, sh_bytes = 16\<rparr>] None ready_table))) = None"
proof -
  obtain st t' where run: "invalidate ram_transport 2 [\<lparr>sh_source = 8, sh_bytes = 16\<rparr>] None ready_table = (st, t')"
    by fastforce
  moreover have "current_generation t' = 2"
    using run by (simp add: invalidate_def make_binding_def ram_transport_def ram_create_def Let_def sample_defs)
      (auto simp: sample_defs)
  moreover have "i < length (slots ready_table) \<Longrightarrow> s_row_generation (slots ready_table ! i) \<noteq> 2" for i
    by (auto simp: sample_defs nth_Cons split: nat.splits)
  ultimately show ?thesis using invalidate_safe [OF sample_inv(4) run] by auto
qed

text \<open>
  C11. No fill ever refers to a binding that is gone. In a reachable state the binding of a Filling slot is the
  current or the retiring one, each of the two counts exactly the fills that refer to it, and \<open>in_flight\<close>
  counts all Filling slots.
\<close>

theorem no_dangling_binding:
  assumes "reachable tp cfg (t, ls)"
  shows "(\<forall>i < length (slots t). s_state (slots t ! i) = Filling \<longrightarrow>
       (\<exists>b. s_fill_binding (slots t ! i) = Some (b_id b) \<and> (b = current_binding t \<or> retiring_binding t = Some b) \<and>
            0 < b_in_flight b)) \<and>
     b_in_flight (current_binding t) = fills_of (b_id (current_binding t)) (slots t) \<and>
     (\<forall>r. retiring_binding t = Some r \<longrightarrow> b_in_flight r = fills_of (b_id r) (slots t)) \<and>
     in_flight t = card {i. i < length (slots t) \<and> s_state (slots t ! i) = Filling}"
proof -
  have t: "table_inv t" using reachable_inv [OF assms] by (simp add: sys_inv_iff)
  note b = table_invD(6) [OF t, unfolded bindings_ok_def]
  have fills: "\<exists>b. s_fill_binding (slots t ! i) = Some (b_id b) \<and> (b = current_binding t \<or> retiring_binding t = Some b) \<and>
      0 < b_in_flight b" if i: "i < length (slots t)" "s_state (slots t ! i) = Filling" for i
  proof -
    obtain k where k: "s_fill_binding (slots t ! i) = Some k"
      using table_invD(3) [OF t i(1)] i(2) by (auto simp: slot_ok_def)
    have "0 < fills_of k (slots t)" by (rule fills_of_pos [OF i(1) k])
    then show ?thesis using b i(1) k by metis
  qed
  have "in_flight t = tally (\<lambda>s. of_bool (s_state s = Filling)) (slots t)"
    using table_invD(5) [OF t] by (simp add: counts_ok_def)
  also have "\<dots> = card {i. i < length (slots t) \<and> s_state (slots t ! i) = Filling}"
    by (simp add: tally_def sum_list_sum_nth atLeast0LessThan lessThan_def Int_def)
  finally show ?thesis using fills b by blast
qed

theorem no_dangling_binding_witness:
  "\<exists>b :: binding. s_fill_binding (slots filling_table ! 0) = Some (b_id b) \<and> 0 < b_in_flight b"
proof -
  have "0 < length (slots filling_table)" "s_state (slots filling_table ! 0) = Filling" by (simp_all add: sample_defs)
  then show ?thesis using conjunct1 [OF no_dangling_binding [OF sample_filling], rule_format, of 0] by blast
qed

section \<open>Completion and teardown\<close>

lemma quiet_id: "quiet (\<lambda>t. t)"
  by (simp add: quiet_def leaves_fill_def)

text \<open>
  C12. The completion worker finishes everything that nobody else has claimed: with as many turns as there are
  unclaimed fills, and other threads that start no new fill, no unclaimed Filling slot is left. If no other
  thread is finishing a fill either, the table is idle and \<open>drain\<close> returns \<open>ok\<close>.
\<close>

theorem worker_drains:
  assumes "table_inv t" and "quiet others" and "waits_out tp" and "unclaimed t \<le> turns"
    and "t' = worker_turns tp others turns t"
  shows "table_inv t' \<and> (\<forall>i < length (slots t'). s_state (slots t' ! i) = Filling \<longrightarrow> s_finishing (slots t' ! i)) \<and>
     ((\<forall>i < length (slots t'). \<not> s_finishing (slots t' ! i)) \<longrightarrow> drain g deadline t' = Some (Ok, t'))"
proof -
  have t': "table_inv t'" and z: "unclaimed t' = 0" using worker_turns_result [OF assms(1-4)] assms(5) by simp_all
  have fin: "s_finishing (slots t' ! i)" if "i < length (slots t')" "s_state (slots t' ! i) = Filling" for i
    using z that by (auto simp: unclaimed_0 find_unclaimed_None all_set_conv_all_nth)
  have "drain g deadline t' = Some (Ok, t')" if "\<forall>i < length (slots t'). \<not> s_finishing (slots t' ! i)"
    using in_flight_0 [OF t'] fin that by (auto simp: drain_def)
  then show ?thesis using t' fin by blast
qed

theorem worker_drains_witness:
  "find_unclaimed (slots filling_table) = Some 0 \<and>
   find_unclaimed (slots (worker_turns ram_transport (\<lambda>t. t) 2 filling_table)) = None"
proof -
  have "unclaimed filling_table \<le> 2" by (simp add: unclaimed_def tally_def sample_defs)
  from worker_drains [OF sample_inv(2) quiet_id sample_waits this refl] show ?thesis
    by (auto simp: find_unclaimed_None all_set_conv_all_nth) (simp add: sample_defs)
qed

text \<open>
  C13. The destructor terminates the process exactly when something is still outstanding: in a reachable state it
  succeeds if and only if no lease and no ticket is held and no slot is Filling.
\<close>

theorem destroy_iff_quiescent:
  assumes "reachable tp cfg (t, ls)"
  shows "destroy t = Some () \<longleftrightarrow>
     ls = [] \<and> (\<forall>i < length (slots t). s_state (slots t ! i) \<noteq> Filling) \<and> (\<forall>r \<in> set (tickets t). \<not> tr_held r)"
proof -
  have inv: "sys_inv (t, ls)" by (rule reachable_inv [OF assms])
  then have t: "table_inv t" by (simp add: sys_inv_iff)
  have "pins_total t = tally s_pins (slots t)" using table_invD(5) [OF t] by (simp add: counts_ok_def)
  then have "pins_total t = 0 \<longleftrightarrow> (\<forall>i < length (slots t). s_pins (slots t ! i) = 0)" by (simp add: tally_eq_0)
  moreover have "ls = []" if "\<forall>i < length (slots t). s_pins (slots t ! i) = 0"
    using inv that by (cases ls) (auto simp: sys_inv_iff lease_ok_def)
  moreover have "s_pins (slots t ! i) = 0" if "ls = []" "i < length (slots t)" for i
    using inv that by (simp add: sys_inv_iff)
  ultimately have pins: "pins_total t = 0 \<longleftrightarrow> ls = []" by blast
  have "tickets_held t = 0 \<longleftrightarrow> (\<forall>r \<in> set (tickets t). \<not> tr_held r)"
    using table_invD(8) [OF t] by (auto simp: tickets_ok_def tally_eq_0 all_set_conv_all_nth)
  then show ?thesis using pins in_flight_0 [OF t] by (auto simp: destroy_def)
qed

theorem destroy_iff_quiescent_witness: "destroy sample_table = Some () \<and> destroy ready_table = None"
proof -
  have "\<forall>i < length (slots sample_table). s_state (slots sample_table ! i) \<noteq> Filling"
    by (auto simp: sample_defs nth_Cons split: nat.splits)
  moreover have "\<forall>r \<in> set (tickets sample_table). \<not> tr_held r" by (simp add: sample_defs)
  ultimately have "destroy sample_table = Some ()" using destroy_iff_quiescent [OF sample_reachable] by simp
  moreover have "destroy ready_table \<noteq> Some ()" using destroy_iff_quiescent [OF sample_ready] by simp
  ultimately show ?thesis by (cases "destroy ready_table") simp_all
qed

section \<open>Prefetch\<close>

text \<open>
  C14. \<open>prefetch\<close> never pins and never disturbs rows in use: on an error it changes nothing, and on success
  it takes one free ticket record with a new generation, while every pinned or Filling slot keeps its row, epoch,
  state and pins.
\<close>

theorem prefetch_safe:
  assumes "table_inv t" and "prefetch tp rows t = (r, t')"
  shows "table_inv t' \<and>
     (\<forall>i < length (slots t). s_pins (slots t' ! i) = s_pins (slots t ! i) \<and>
        (s_pins (slots t ! i) \<noteq> 0 \<or> s_state (slots t ! i) = Filling \<longrightarrow>
           s_state (slots t' ! i) = s_state (slots t ! i) \<and> s_epoch (slots t' ! i) = s_epoch (slots t ! i) \<and>
           slot_key (slots t' ! i) = slot_key (slots t ! i))) \<and>
     (case r of
        Inl e \<Rightarrow> t' = t
      | Inr tk \<Rightarrow> pt_record tk < length (tickets t) \<and> \<not> tr_in_use (tickets t ! pt_record tk) \<and>
          tr_held (tickets t' ! pt_record tk) \<and> tr_generation (tickets t' ! pt_record tk) = pt_generation tk \<and>
          pt_generation tk = tr_generation (tickets t ! pt_record tk) + 1 \<and>
          tr_count (tickets t' ! pt_record tk) = length rows)"
proof -
  note r = prefetch_result [OF assms]
  have "s_state (slots t' ! i) = s_state (slots t ! i) \<and> s_epoch (slots t' ! i) = s_epoch (slots t ! i) \<and>
      slot_key (slots t' ! i) = slot_key (slots t ! i)"
    if "i < length (slots t)" "s_pins (slots t ! i) \<noteq> 0 \<or> s_state (slots t ! i) = Filling" for i
    using r(1) that same_fillD(1-3) [of "slots t ! i" "slots t' ! i"] by (auto simp: admits_def blocked_def)
  then show ?thesis using r by (auto simp: admits_def split: sum.split)
qed

theorem prefetch_safe_witness:
  "prefetch ram_transport [] sample_table = (Inl Empty_range, sample_table) \<and>
   s_pins (slots (snd (prefetch ram_transport [2] filling_table)) ! 0) = 1"
proof -
  obtain r t' where run: "prefetch ram_transport [2] filling_table = (r, t')" by fastforce
  have "prefetch ram_transport [] sample_table = (Inl Empty_range, sample_table)" by (simp add: prefetch_def)
  moreover have "0 < length (slots filling_table)" "s_pins (slots filling_table ! 0) = 1" by (simp_all add: sample_defs)
  ultimately show ?thesis using prefetch_safe [OF sample_inv(2) run] run by simp
qed



end
