(* ===== verification/Table_Spans.thy ===== *)
theory Table_Spans
  imports Table_Properties
begin

text \<open>
  Where leases point. The span a slot publishes lies inside the slot's own part of the output storage, in every reachable
  state: it is only set by \<open>start_fill_locked\<close>, to the length of a row that passed the checks and to the distance
  of the row from the aligned start of its window. So two leases on different slots never overlap, and none
  reaches outside the storage. The one way out is a configuration whose aligned slot width wraps around in 64 bits, which
  \<open>create\<close> accepts.
\<close>

section \<open>The layout of a table\<close>

definition slot_span :: "slot \<Rightarrow> u64 \<times> u64" where
  "slot_span s = (s_published_offset s, s_published_bytes s)"

definition layout :: "'m table \<Rightarrow> table_config \<times> codec option \<times> (u64 \<times> u64) list" where
  "layout t = (config t, active_codec t, map slot_span (slots t))"

definition width_fits :: "table_config \<Rightarrow> bool" where
  "width_fits cfg \<longleftrightarrow> (c_fill_alignment cfg \<noteq> 0 \<longrightarrow>
     unat (c_source_row_bytes cfg) + 2 * unat (c_fill_alignment cfg) < 2 ^ 64)"

definition span_fits :: "table_config \<Rightarrow> u64 \<times> u64 \<Rightarrow> bool" where
  "span_fits cfg = (\<lambda>(off, len). unat off + unat len \<le> unat (c_output_row_bytes cfg))"

definition layout_ok :: "table_config \<Rightarrow> 'm table \<Rightarrow> bool" where
  "layout_ok cfg t \<longleftrightarrow> config t = cfg \<and> active_codec t = active_codec_of cfg \<and>
     length (slots t) = unat (c_budget_rows cfg) \<and> (\<forall>sp \<in> set (map slot_span (slots t)). span_fits cfg sp)"

lemma layout_ok_cong: "layout t' = layout t \<Longrightarrow> layout_ok cfg t' = layout_ok cfg t"
  by (simp add: layout_ok_def layout_def) (metis length_map)

section \<open>Operations that keep every span\<close>

lemma layout_upd_slot:
  assumes "\<And>s. slot_span (f s) = slot_span s"
  shows "layout (upd_slot i f t) = layout t"
proof -
  have "map slot_span ((slots t)[i := f (slots t ! i)]) = map slot_span (slots t)"
    by (cases "i < length (slots t)") (simp_all add: map_update assms list_update_same_conv list_update_beyond)
  then show ?thesis by (simp add: layout_def upd_slot_def)
qed

lemma layout_fields [simp]:
  "layout (count f t) = layout t" "layout (t\<lparr>index := ix\<rparr>) = layout t" "layout (t\<lparr>mem := m\<rparr>) = layout t"
  "layout (t\<lparr>non_free := n\<rparr>) = layout t" "layout (t\<lparr>clock_hand := h\<rparr>) = layout t"
  "layout (t\<lparr>in_flight := n\<rparr>) = layout t" "layout (t\<lparr>pins_total := n\<rparr>) = layout t"
  "layout (t\<lparr>scratch_used := u\<rparr>) = layout t" "layout (t\<lparr>tickets := tk\<rparr>) = layout t"
  "layout (t\<lparr>tickets_held := n\<rparr>) = layout t" "layout (t\<lparr>waiters := w\<rparr>) = layout t"
  "layout (t\<lparr>current_binding := b\<rparr>) = layout t" "layout (t\<lparr>retiring_binding := rb\<rparr>) = layout t"
  "layout (t\<lparr>next_binding := nb\<rparr>) = layout t" "layout (t\<lparr>current_generation := g\<rparr>) = layout t"
  by (simp_all add: layout_def count_def)

lemma layout_slot_fields [simp]:
  "layout (upd_slot i (\<lambda>s. s\<lparr>s_indexed := x1\<rparr>) t) = layout t"
  "layout (upd_slot i (\<lambda>s. s\<lparr>s_referenced := x2\<rparr>) t) = layout t"
  "layout (upd_slot i (\<lambda>s. s\<lparr>s_finishing := x3\<rparr>) t) = layout t"
  "layout (upd_slot i (\<lambda>s. s\<lparr>s_state := x4\<rparr>) t) = layout t"
  "layout (upd_slot i (\<lambda>s. s\<lparr>s_state := x4, s_failure := x5\<rparr>) t) = layout t"
  "layout (upd_slot i (\<lambda>s. s\<lparr>s_fill_binding := x6\<rparr>) t) = layout t"
  "layout (upd_slot i (\<lambda>s. s\<lparr>s_scratch_slot := x7\<rparr>) t) = layout t"
  "layout (upd_slot i (\<lambda>s. s\<lparr>s_claim := x8\<rparr>) t) = layout t"
  "layout (upd_slot i (\<lambda>s. s\<lparr>s_chunk_claims := x9\<rparr>) t) = layout t"
  "layout (upd_slot i (\<lambda>s. s\<lparr>s_claim := x8, s_chunk_claims := x9\<rparr>) t) = layout t"
  "layout (upd_slot i (\<lambda>s. s\<lparr>s_scratch_slot := x7, s_claim := x8\<rparr>) t) = layout t"
  by (rule layout_upd_slot, simp add: slot_span_def)+

lemma layout_unindex [simp]: "layout (unindex_locked i t) = layout t"
  by (simp add: unindex_locked_def)

lemma layout_make_free [simp]: "layout (make_free tp i t) = layout t"
  unfolding make_free_def Let_def by (subst layout_upd_slot) (simp_all add: slot_span_def)

lemma layout_claim_victim_loop: "claim_victim_loop tp n t = (r, t') \<Longrightarrow> layout t' = layout t"
proof (induction n arbitrary: t)
  case (Suc n)
  from Suc.prems show ?case by (auto simp: Let_def split: if_splits dest!: Suc.IH)
qed simp

lemma layout_claim_victim: "claim_victim tp t = (r, t') \<Longrightarrow> layout t' = layout t"
  unfolding claim_victim_def by (rule layout_claim_victim_loop)

lemma layout_pin [simp]: "layout (pin_slot i t) = layout t" "layout (unpin_locked i t) = layout t"
  unfolding pin_slot_def unpin_locked_def by (subst layout_upd_slot, simp_all add: slot_span_def)+

lemma layout_admit [simp]: "layout (admit_slot i row t) = layout t"
  unfolding admit_slot_def Let_def by (simp, subst layout_upd_slot) (simp_all add: slot_span_def)

lemma layout_fail_fill: "layout (snd (fail_fill i st t)) = layout t"
  by (simp add: fail_fill_def Let_def)

lemma layout_release_scratch [simp]: "layout (release_scratch i t) = layout t"
  by (simp add: release_scratch_def split: option.split)

lemma layout_leave_binding [simp]: "layout (leave_binding b t) = layout t"
  by (simp add: leave_binding_def split: option.split)

lemma layout_publish [simp]: "layout (publish_fill tp i scratch result t) = layout t"
  by (simp add: publish_fill_def Let_def)

lemma layout_submit_fill: "layout (snd (submit_fill tp i location fill t)) = layout t"
  by (simp add: submit_fill_def Let_def acquire_scratch_def layout_fail_fill map_prod_def split_beta
      split: option.split sum.split prod.split)

section \<open>The span of a fill\<close>

lemma aligned_width:
  assumes "a \<noteq> 0" and "unat row + 2 * unat a < 2 ^ 64"
  shows "unat (aligned_slot_bytes row a) = (unat row + 2 * unat a - 2) div unat a * unat a"
proof -
  have two: "unat (row + 2 * a) = unat row + 2 * unat a" using assms(2) by (simp add: unat_word_ariths)
  then have "2 \<le> row + 2 * a" using assms(1) by (simp add: word_le_nat_alt unat_gt_0 [symmetric])
  then have "unat (row + 2 * a - 2) = unat row + 2 * unat a - 2" by (simp add: unat_sub two)
  then show ?thesis by (simp add: aligned_slot_bytes_def unat_round_down)
qed

lemma slot_width_covers:
  assumes "a \<noteq> 0" and "unat row + 2 * unat a < 2 ^ 64"
  shows "unat row + unat a \<le> unat (aligned_slot_bytes row a) + 1"
proof -
  have a: "0 < unat a" using assms(1) by (simp add: unat_gt_0)
  have "unat row + 2 * unat a - 2 < (unat row + 2 * unat a - 2) div unat a * unat a + unat a"
    using a by (metis add.commute add_less_cancel_right div_mult_mod_eq mod_less_divisor nat_add_left_cancel_less)
  then show ?thesis unfolding aligned_width [OF assms] using a by linarith
qed

lemma window_head:
  assumes "fill_window a source_bytes rng = (fill, head)"
  shows "a = 0 \<Longrightarrow> head = 0" and "a \<noteq> 0 \<Longrightarrow> unat head < unat a"
proof -
  show "a = 0 \<Longrightarrow> head = 0" using assms by (simp add: fill_window_def)
  assume a: "a \<noteq> 0"
  then have "head = br_offset rng - br_offset rng div a * a" using assms by (simp add: fill_window_def Let_def)
  also have "\<dots> = br_offset rng mod a" by (metis add_diff_cancel_left' mult_div_mod_eq mult.commute)
  finally show "unat head < unat a" using a by (simp add: unat_mod unat_gt_0)
qed

lemma located_length:
  assumes "resolve_location cfg sources resolve row = Inr location"
  shows "br_length (loc_range location) \<le> c_source_row_bytes cfg"
  using assms by (auto simp: resolve_location_def Let_def split: sum.splits if_splits)

text \<open>What is read into a slot fits it too, when the source leaves room for one more alignment below \<open>2 ^ 64\<close>.\<close>

lemma fill_fits_slot:
  assumes cfg: "create_check cfg = None" "c_representation cfg = Identity" and wf: "width_fits cfg"
    and loc: "resolve_location cfg sources resolve row = Inr location"
    and win: "fill_window (c_fill_alignment cfg) (sh_bytes (sources ! unat (loc_shard location))) (loc_range location) = (fill, head)"
    and room: "unat (sh_bytes (sources ! unat (loc_shard location))) + unat (c_fill_alignment cfg) \<le> 2 ^ 64"
  shows "unat (br_length fill) \<le> unat (c_output_row_bytes cfg)"
proof (cases "c_fill_alignment cfg = 0")
  case True
  then have "fill = loc_range location" "c_output_row_bytes cfg = c_source_row_bytes cfg"
    using win create_checkD(8) [OF cfg(1)] cfg(2) by (auto simp: fill_window_def representation_check_def split: if_splits)
  then show ?thesis using located_length [OF loc] by (simp add: word_le_nat_alt)
next
  case False
  let ?a = "unat (c_fill_alignment cfg)" and ?row = "unat (c_source_row_bytes cfg)"
  have inside: "unat (br_offset (loc_range location)) + unat (br_length (loc_range location))
      \<le> unat (sh_bytes (sources ! unat (loc_shard location)))"
    using loc by (auto simp: resolve_location_def Let_def word_le_nat_alt unat_sub not_less not_le split: sum.splits if_splits)
  have "unat (br_length fill) \<le> (unat (br_length (loc_range location)) + 2 * ?a - 2) div ?a * ?a"
    by (rule fill_window_covers(6) [OF win False inside room])
  also have "\<dots> \<le> (?row + 2 * ?a - 2) div ?a * ?a"
    using located_length [OF loc] by (intro mult_le_mono1 div_le_mono diff_le_mono add_le_mono1) (simp add: word_le_nat_alt)
  also have "\<dots> = unat (c_output_row_bytes cfg)"
    using aligned_width [OF False] wf create_checkD(8) [OF cfg(1)] cfg(2) False
    by (simp add: width_fits_def representation_check_def split: if_splits)
  finally show ?thesis .
qed

lemma started_span:
  assumes cfg: "create_check cfg = None" and wf: "width_fits cfg"
    and loc: "resolve_location cfg sources resolve row = Inr location"
    and win: "fill_window (c_fill_alignment cfg) source_bytes (loc_range location) = (fill, head)"
  shows "span_fits cfg (head, if active_codec_of cfg = None then br_length (loc_range location) else c_output_row_bytes cfg)"
proof (cases "c_representation cfg = Identity")
  case True
  then have codec: "active_codec_of cfg = None" by (simp add: active_codec_of_def)
  have width: "c_output_row_bytes cfg = (if c_fill_alignment cfg \<noteq> 0
      then aligned_slot_bytes (c_source_row_bytes cfg) (c_fill_alignment cfg) else c_source_row_bytes cfg)"
    using create_checkD(8) [OF cfg] True by (simp add: representation_check_def split: if_splits)
  have len: "unat (br_length (loc_range location)) \<le> unat (c_source_row_bytes cfg)"
    using located_length [OF loc] by (simp add: word_le_nat_alt)
  show ?thesis
  proof (cases "c_fill_alignment cfg = 0")
    case True
    then show ?thesis using window_head(1) [OF win] len width codec by (simp add: span_fits_def)
  next
    case False
    then have "unat (c_source_row_bytes cfg) + unat (c_fill_alignment cfg) \<le> unat (c_output_row_bytes cfg) + 1"
      using slot_width_covers wf width by (simp add: width_fits_def)
    then show ?thesis using window_head(2) [OF win False] len codec by (simp add: span_fits_def)
  qed
next
  case False
  then have "c_fill_alignment cfg = 0" "active_codec_of cfg \<noteq> None"
    using cfg create_checkD(8) [OF cfg]
    by (auto simp: create_check_None active_codec_of_def representation_check_def split: representation.splits if_splits)
  then show ?thesis using window_head(1) [OF win] by (auto simp: span_fits_def)
qed

section \<open>Every step keeps the spans in their slots\<close>

lemma layout_started:
  "layout (fill_started slot location head t) =
     (config t, active_codec t, (map slot_span (slots t))[slot := (head,
        if active_codec t = None then br_length (loc_range location) else c_output_row_bytes (config t))])"
  by (simp add: layout_def fill_started_def upd_slot_def count_def slot_span_def map_update)

text \<open>The parts of a state that a configuration fixes; they determine what an operation of the next group needs.\<close>

lemma layout_okD:
  assumes "layout_ok cfg t"
  shows "config t = cfg" and "active_codec t = active_codec_of cfg" and "length (slots t) = unat (c_budget_rows cfg)"
    and "i < length (slots t) \<Longrightarrow> span_fits cfg (slot_span (slots t ! i))"
  using assms by (auto simp: layout_ok_def)

lemma layout_ok_start_fill:
  assumes run: "start_fill_locked tp slot row t = (st, t')" and ok: "layout_ok cfg t"
    and cfg: "create_check cfg = None" "width_fits cfg"
  shows "layout_ok cfg t'"
proof -
  let ?t1 = "admit_slot slot row t"
  have ok1: "layout_ok cfg ?t1" using ok layout_ok_cong [OF layout_admit] by blast
  show ?thesis
  proof (cases "resolve_location (config ?t1) (b_sources (current_binding ?t1)) (b_resolver (current_binding ?t1)) row")
    case (Inl error)
    then have "t' = snd (fail_fill slot error ?t1)" using run by (simp add: start_fill_locked_def Let_def)
    then show ?thesis using ok1 layout_ok_cong [OF layout_fail_fill] by blast
  next
    case (Inr location)
    obtain fill head where win: "fill_window (c_fill_alignment cfg)
        (sh_bytes (b_sources (current_binding ?t1) ! unat (loc_shard location))) (loc_range location) = (fill, head)"
      by fastforce
    obtain err t2 where sub: "submit_fill tp slot location fill ?t1 = (err, t2)" by fastforce
    have ok2: "layout_ok cfg t2" using ok1 layout_ok_cong [OF layout_submit_fill] sub by (metis snd_conv)
    show ?thesis
    proof (cases err)
      case (Some error)
      then show ?thesis using run Inr win sub ok2 layout_okD(1) [OF ok1] by (simp add: start_fill_locked_def Let_def)
    next
      case None
      then have t': "t' = fill_started slot location head t2"
        using run Inr win sub layout_okD(1) [OF ok1] by (simp add: start_fill_locked_def Let_def)
      note d = layout_okD(1-3) [OF ok2]
      have "span_fits cfg (head, if active_codec_of cfg = None then br_length (loc_range location) else c_output_row_bytes cfg)"
        using started_span [OF cfg _ win] Inr layout_okD(1) [OF ok1] by simp
      then have "\<forall>sp \<in> set (map slot_span (slots t')). span_fits cfg sp"
        using layout_started [of slot location head t2] ok2 set_update_subset_insert
        unfolding t' layout_def layout_ok_def d by fastforce
      moreover have "config t' = cfg" "active_codec t' = active_codec_of cfg" "length (slots t') = length (slots t2)"
        using layout_started [of slot location head t2] d unfolding t' layout_def
        by (simp_all add: fill_started_def upd_slot_def count_def)
      ultimately show ?thesis using d(3) by (simp add: layout_ok_def)
    qed
  qed
qed

lemma layout_ok_admit_row:
  assumes "admit_row tp row t = (r, t')" and "layout_ok cfg t" and "create_check cfg = None" "width_fits cfg"
  shows "layout_ok cfg t'"
proof (cases "table_find t row (current_generation t)")
  case None
  obtain victim t1 where v: "claim_victim tp t = (victim, t1)" by fastforce
  have ok1: "layout_ok cfg t1" using layout_ok_cong [OF layout_claim_victim [OF v]] assms(2) by blast
  show ?thesis
  proof (cases victim)
    case (Some slot)
    obtain st t2 where s: "start_fill_locked tp slot row t1 = (st, t2)" by fastforce
    have ok2: "layout_ok cfg t2" by (rule layout_ok_start_fill [OF s ok1 assms(3,4)])
    have "t' = t2 \<or> t' = pin_slot slot t2"
      using assms(1) None v Some s by (auto simp: admit_row_def Let_def split: if_splits)
    then show ?thesis using ok2 layout_ok_cong [OF layout_pin(1)] by blast
  qed (use assms(1) None v ok1 in \<open>simp add: admit_row_def\<close>)
next
  case (Some slot)
  then have "layout t' = layout t" using assms(1) by (auto simp: admit_row_def Let_def split: if_splits)
  then show ?thesis using layout_ok_cong assms(2) by blast
qed

lemma layout_ok_admit_rows:
  "admit_rows tp rows t = (failure, ls, t') \<Longrightarrow> layout_ok cfg t \<Longrightarrow> create_check cfg = None \<Longrightarrow> width_fits cfg \<Longrightarrow>
     layout_ok cfg t'"
proof (induction rows arbitrary: failure ls t)
  case (Cons row rows)
  then show ?case using layout_ok_admit_row [of tp row t]
    by (auto split: prod.splits sum.splits)
qed simp

lemma layout_ok_prefetch_row:
  assumes "prefetch_row tp row t = (entry, t')" and "layout_ok cfg t" and "create_check cfg = None" "width_fits cfg"
  shows "layout_ok cfg t'"
proof (cases "table_find t row (current_generation t)")
  case None
  obtain victim t1 where v: "claim_victim tp t = (victim, t1)" by fastforce
  have ok1: "layout_ok cfg t1" using layout_ok_cong [OF layout_claim_victim [OF v]] assms(2) by blast
  show ?thesis
  proof (cases victim)
    case (Some slot)
    obtain st t2 where s: "start_fill_locked tp slot row t1 = (st, t2)" by fastforce
    then have "t' = t2" using assms(1) None v Some by (simp add: prefetch_row_def)
    then show ?thesis using layout_ok_start_fill [OF s ok1 assms(3,4)] by simp
  qed (use assms(1) None v ok1 in \<open>simp add: prefetch_row_def\<close>)
next
  case (Some slot)
  then have "layout t' = layout t" using assms(1) by (auto simp: prefetch_row_def Let_def split: if_splits)
  then show ?thesis using layout_ok_cong assms(2) by blast
qed

lemma layout_ok_prefetch_rows:
  "layout_ok cfg t \<Longrightarrow> create_check cfg = None \<Longrightarrow> width_fits cfg \<Longrightarrow> layout_ok cfg (prefetch_rows tp k rows t)"
proof (induction rows arbitrary: k t)
  case (Cons row rows)
  obtain entry t1 where r: "prefetch_row tp row t = (entry, t1)" by fastforce
  have "layout_ok cfg (t1\<lparr>waiters := (waiters t1)[k := entry]\<rparr>)"
    using layout_ok_prefetch_row [OF r Cons.prems] layout_ok_cong [OF layout_fields(11)] by blast
  then show ?case using Cons.IH Cons.prems r by simp
qed simp

inductive_cases sys_stepE: "sys_step tp (t, ls) (t', ls')"

lemma layout_release: "release_lease i epoch t = Some t' \<Longrightarrow> layout t' = layout t"
  by (auto simp: release_lease_def split: if_splits)

lemma layout_discard: "discard_ticket i g t = Some t' \<Longrightarrow> layout t' = layout t"
  by (auto simp: discard_ticket_def Let_def layout_def split: if_splits)

lemma layout_try_get: "try_get row t = (r, t') \<Longrightarrow> layout t' = layout t"
  by (auto simp: try_get_def Let_def split: if_splits option.splits)

lemma layout_invalidate: "invalidate tp g sources resolve t = (st, t') \<Longrightarrow> layout t' = layout t"
  by (auto simp: invalidate_def Let_def layout_def split: if_splits option.splits prod.splits sum.splits)

lemma layout_ok_prefetch:
  assumes "prefetch tp rows t = (r, t')" and "layout_ok cfg t" and "create_check cfg = None" "width_fits cfg"
  shows "layout_ok cfg t'"
proof -
  have "layout_ok cfg (t\<lparr>tickets := tk, tickets_held := h\<rparr>)" for tk h
    using assms(2) layout_ok_cong [of "t\<lparr>tickets := tk, tickets_held := h\<rparr>" t] by (simp add: layout_def)
  note rows = layout_ok_prefetch_rows [OF this assms(3,4)]
  show ?thesis
    using assms(1,2) by (auto intro: rows simp: prefetch_def Let_def split: if_splits option.splits)
qed

lemma layout_ok_step:
  assumes "sys_step tp (t, ls) (t', ls')" and ok: "layout_ok cfg t" and cfg: "create_check cfg = None" "width_fits cfg"
  shows "layout_ok cfg t'"
proof -
  have same: "layout u = layout t \<Longrightarrow> layout_ok cfg u" for u using layout_ok_cong ok by blast
  from assms(1) show ?thesis
    by (rule sys_stepE)
      (auto intro: same ok layout_try_get layout_release layout_discard layout_invalidate
        layout_ok_admit_rows [OF _ ok cfg] layout_ok_prefetch [OF _ ok cfg] simp: relinquish_fill_def)
qed

lemma reachable_layout:
  assumes "reachable tp cfg s" and "width_fits cfg"
  shows "create_check cfg = None \<and> layout_ok cfg (fst s)"
  using assms(1)
proof induction
  case (created m t)
  then show ?case
    by (auto simp: create_def new_table_def Let_def layout_ok_def slot_span_def fresh_slot_def span_fits_def
        split: option.splits prod.splits sum.splits)
next
  case (stepped s s')
  then show ?case using layout_ok_step [of tp "fst s" "snd s" "fst s'" "snd s'"] assms(2) by simp
qed

section \<open>Leases\<close>

lemma lease_span:
  assumes "reachable tp cfg (t, ls)" and "width_fits cfg" and "l \<in> set ls"
  shows "l_bytes l = (0, 0) \<or> l_slot l < unat (c_budget_rows cfg) \<and>
     l_slot l * unat (c_output_row_bytes cfg) \<le> fst (l_bytes l) \<and>
     fst (l_bytes l) + snd (l_bytes l) \<le> Suc (l_slot l) * unat (c_output_row_bytes cfg)"
proof -
  have "sys_inv (t, ls)" using reachable_inv [OF assms(1)] .
  then have l: "lease_ok t l" "l_bytes l = (0, 0) \<or> l_bytes l = published_span t (l_slot l)"
    using assms(3) by (auto simp: sys_inv_iff exposed_ok_def)
  have ok: "layout_ok cfg t" using reachable_layout [OF assms(1,2)] by simp
  note d = layout_okD [OF ok]
  have "l_slot l < length (slots t)" using l(1) by (simp add: lease_ok_def)
  moreover from this have "span_fits cfg (slot_span (slots t ! l_slot l))" using d(4) by blast
  ultimately show ?thesis
    using l(2) d(1,3) by (auto simp: published_span_def output_span_def slot_span_def span_fits_def)
qed

text \<open>
  C20. Leases stay in the storage and apart. In every reachable state the bytes a lease points to lie in the output storage, and
  two leases on different slots have no byte in common, however the resolver, the alignment and the other threads behave;
  the only demand is that the aligned slot width does not wrap around in 64 bits.
\<close>

theorem leases_apart:
  assumes "reachable tp cfg (t, ls)" and "width_fits cfg" and "l1 \<in> set ls" and "l2 \<in> set ls"
  shows "fst (l_bytes l1) + snd (l_bytes l1) \<le> unat (c_output_size cfg) \<and>
     (l_slot l1 \<noteq> l_slot l2 \<longrightarrow>
        {fst (l_bytes l1) ..< fst (l_bytes l1) + snd (l_bytes l1)} \<inter> {fst (l_bytes l2) ..< fst (l_bytes l2) + snd (l_bytes l2)} = {})"
proof -
  let ?w = "unat (c_output_row_bytes cfg)"
  have size: "unat (c_output_size cfg) = ?w * unat (c_budget_rows cfg)"
    using reachable_layout [OF assms(1,2)] create_check_sizes(1) by blast
  note s1 = lease_span [OF assms(1,2,3)] and s2 = lease_span [OF assms(1,2,4)]
  have "Suc (l_slot l1) * ?w \<le> unat (c_output_size cfg)" if "l_slot l1 < unat (c_budget_rows cfg)"
    unfolding size mult.commute [of ?w] using that by (intro mult_le_mono1) simp
  then have inside: "fst (l_bytes l1) + snd (l_bytes l1) \<le> unat (c_output_size cfg)" using s1 by auto
  have order: "Suc i * ?w \<le> j * ?w" if "i < j" for i j using that by (intro mult_le_mono1) simp
  have "{fst (l_bytes l1) ..< fst (l_bytes l1) + snd (l_bytes l1)} \<inter> {fst (l_bytes l2) ..< fst (l_bytes l2) + snd (l_bytes l2)} = {}"
    if "l_slot l1 \<noteq> l_slot l2"
  proof -
    from that have "l_slot l1 < l_slot l2 \<or> l_slot l2 < l_slot l1" by linarith
    then show ?thesis using s1 s2 order [of "l_slot l1" "l_slot l2"] order [of "l_slot l2" "l_slot l1"] by fastforce
  qed
  with inside show ?thesis by blast
qed

definition exposed_lease :: lease where
  "exposed_lease = sample_lease\<lparr>l_bytes := published_span ready_table (l_slot sample_lease)\<rparr>"

lemma sample_exposed: "reachable ram_transport sample_config (ready_table, [exposed_lease])"
proof -
  have "s_state (slots ready_table ! l_slot sample_lease) = Ready" by (simp add: sample_defs sample_lease_def)
  from expose [OF this, of ram_transport "[]" "[]"] show ?thesis
    using stepped [OF sample_ready] by (simp add: exposed_lease_def)
qed

theorem leases_apart_witness:
  "l_bytes exposed_lease = (0, 4) \<and> fst (l_bytes exposed_lease) + snd (l_bytes exposed_lease) \<le> unat (c_output_size sample_config)"
proof -
  have "width_fits sample_config" by (simp add: width_fits_def sample_config_def)
  moreover have "l_bytes exposed_lease = (0, 4)"
    by (simp add: exposed_lease_def published_span_def output_span_def sample_defs sample_lease_def)
  ultimately show ?thesis using leases_apart [OF sample_exposed, of exposed_lease exposed_lease] by simp
qed

text \<open>
  The demand is needed: \<open>create\<close> accepts a slot of 4096 bytes for rows of up to \<open>2 ^ 64 - 1\<close> bytes, because the aligned width wraps
  around, and a row of 4096 bytes that starts 100 bytes into its block is then published 100 bytes past its slot.
\<close>

definition wrapped_config :: table_config where
  "wrapped_config = plain_config\<lparr>c_source_row_bytes := 0xFFFFFFFFFFFFFFFF, c_row_extent := Bounded, c_fill_alignment := 4096,
     c_output_row_bytes := 4096, c_output_size := 8192, c_sources := single_source 7 16384,
     c_resolve_extent := Some (\<lambda>row. Inr \<lparr>loc_shard = 0, loc_range = \<lparr>br_offset = 100, br_length = 4096\<rparr>\<rparr>)\<rparr>"

lemma wrapped_width_overlaps:
  "create_check wrapped_config = None \<and>
   (\<exists>location fill head. resolve_location wrapped_config (single_source 7 16384) (the (c_resolve_extent wrapped_config)) 0 = Inr location \<and>
      fill_window 4096 16384 (loc_range location) = (fill, head) \<and>
      \<not> span_fits wrapped_config (head, br_length (loc_range location)))"
proof (rule conjI)
  show "create_check wrapped_config = None"
    by (simp add: create_check_def wrapped_config_def plain_config_def representation_check_def single_source_def SIZE_MAX_def
        NONE_def aligned_slot_bytes_def has_single_bit_def)
  show "\<exists>location fill head. resolve_location wrapped_config (single_source 7 16384) (the (c_resolve_extent wrapped_config)) 0 = Inr location \<and>
      fill_window 4096 16384 (loc_range location) = (fill, head) \<and>
      \<not> span_fits wrapped_config (head, br_length (loc_range location))"
    by (simp add: resolve_location_def wrapped_config_def plain_config_def single_source_def fill_window_def span_fits_def)
qed

end
