(* ===== verification/Transfer_Contract.thy ===== *)
theory Transfer_Contract
  imports Table_Model
begin

text \<open>
  What the table relies on when it hands a part of its storage to the transport. MemPage is not part of this repository, so
  this is a contract on the record \<open>transport\<close>, in the terms its comments and documents use: a claim is outstanding from its
  submission until its transfer has ended, a transfer writes only its own destination, a wait that reports success has seen
  all of its bytes arrive, any final status means that the transfer is over, and dropping a claim does not stop it.
  \<open>view\<close> is what can be observed of the transport's state, and \<open>moves\<close> how a step of it changes the output storage.
\<close>

section \<open>Views\<close>

record view =
  v_issued :: "claim set"
  v_pending :: "claim set"
  v_done :: "claim set"
  v_dest :: "claim \<Rightarrow> storage \<times> nat \<times> nat"
  v_from :: "claim \<Rightarrow> source_id \<times> nat"
  v_set :: "transfer_set \<Rightarrow> (source_id \<times> nat \<times> storage) option"

definition view_ok :: "view \<Rightarrow> bool" where
  "view_ok v \<longleftrightarrow> v_pending v \<subseteq> v_issued v \<and> v_done v \<subseteq> v_issued v \<and> v_pending v \<inter> v_done v = {}"

text \<open>\<open>covers v cs k\<close>: byte \<open>k\<close> of the output storage is in the destination of one of the claims \<open>cs\<close>.\<close>

definition covers :: "view \<Rightarrow> claim set \<Rightarrow> nat \<Rightarrow> bool" where
  "covers v cs k \<longleftrightarrow> (\<exists>c \<in> cs. \<exists>off len. v_dest v c = (Output_storage, off, len) \<and> off \<le> k \<and> k < off + len)"

text \<open>The claims whose transfers can write during a step: the outstanding ones and those issued in it.\<close>

definition writers :: "view \<Rightarrow> view \<Rightarrow> claim set" where
  "writers v v' = v_pending v \<union> (v_issued v' - v_issued v)"

definition moves :: "(source_id \<Rightarrow> bytes) \<Rightarrow> view \<times> bytes \<Rightarrow> view \<times> bytes \<Rightarrow> bool" where
  "moves source = (\<lambda>(v, out) (v', out').
     view_ok v' \<and> v_issued v \<subseteq> v_issued v' \<and> v_done v \<subseteq> v_done v' \<and> v_pending v' \<subseteq> writers v v' \<and>
     (\<forall>c \<in> v_issued v. v_dest v' c = v_dest v c \<and> v_from v' c = v_from v c) \<and>
     (\<forall>ts x. v_set v ts = Some x \<longrightarrow> v_set v' ts = Some x) \<and>
     length out' = length out \<and>
     (\<forall>k < length out. \<not> covers v' (writers v v') k \<longrightarrow> out' ! k = out ! k) \<and>
     (\<forall>c \<in> v_done v' - v_done v. \<forall>off len src start k.
        v_dest v' c = (Output_storage, off, len) \<longrightarrow> v_from v' c = (src, start) \<longrightarrow> k < len \<longrightarrow> off + k < length out \<longrightarrow>
        \<not> covers v' (writers v v' - {c}) (off + k) \<longrightarrow> out' ! (off + k) = source src ! (start + k)))"

lemma movesD:
  assumes "moves source (v, out) (v', out')"
  shows "view_ok v'" and "v_issued v \<subseteq> v_issued v'" and "v_done v \<subseteq> v_done v'" and "v_pending v' \<subseteq> writers v v'"
    and "c \<in> v_issued v \<Longrightarrow> v_dest v' c = v_dest v c" and "c \<in> v_issued v \<Longrightarrow> v_from v' c = v_from v c"
    and "v_set v ts = Some x \<Longrightarrow> v_set v' ts = Some x" and "length out' = length out"
    and "k < length out \<Longrightarrow> \<not> covers v' (writers v v') k \<Longrightarrow> out' ! k = out ! k"
    and "c \<in> v_done v' \<Longrightarrow> c \<notin> v_done v \<Longrightarrow> v_dest v' c = (Output_storage, off, len) \<Longrightarrow> v_from v' c = (src, start) \<Longrightarrow>
       k < len \<Longrightarrow> off + k < length out \<Longrightarrow> \<not> covers v' (writers v v' - {c}) (off + k) \<Longrightarrow> out' ! (off + k) = source src ! (start + k)"
  using assms unfolding moves_def prod.case by blast+

lemma moves_refl: "view_ok v \<Longrightarrow> moves source (v, out) (v, out)"
  by (simp add: moves_def writers_def)

lemma covers_mono: "covers v cs k \<Longrightarrow> cs \<subseteq> ds \<Longrightarrow> covers v ds k"
  by (auto simp: covers_def)

lemma covers_cong: "\<forall>c \<in> cs. v_dest v' c = v_dest v c \<Longrightarrow> covers v' cs k = covers v cs k"
  by (simp add: covers_def)

lemma view_okD:
  assumes "view_ok v"
  shows "c \<in> v_pending v \<Longrightarrow> c \<in> v_issued v" and "c \<in> v_done v \<Longrightarrow> c \<in> v_issued v" and "c \<in> v_done v \<Longrightarrow> c \<notin> v_pending v"
  using assms by (auto simp: view_ok_def)

lemma moves_trans:
  assumes one: "moves source (v, out) (v', out')" and two: "moves source (v', out') (v'', out'')" and ok: "view_ok v"
  shows "moves source (v, out) (v'', out'')"
proof -
  note d1 = movesD [OF one] and d2 = movesD [OF two]
  have w1: "writers v v' \<subseteq> writers v v''" using d2(2) by (auto simp: writers_def)
  have w2: "writers v' v'' \<subseteq> writers v v''" using d1(2,4) d2(2) by (auto simp: writers_def)
  have wi: "writers v v' \<subseteq> v_issued v'" using d1(2) view_okD(1) [OF ok] by (auto simp: writers_def)
  have cov: "covers v' cs k = covers v'' cs k" if "cs \<subseteq> v_issued v'" for cs k
    by (rule covers_cong) (use d2(5) that in auto)
  have keep: "out'' ! k = out' ! k" if "k < length out" "\<not> covers v'' (writers v' v'') k" for k
    using d2(9) [of k] d1(8) that by simp
  show ?thesis
    unfolding moves_def prod.case
  proof (intro conjI ballI allI impI)
    show "view_ok v''" "v_issued v \<subseteq> v_issued v''" "v_done v \<subseteq> v_done v''" "v_pending v'' \<subseteq> writers v v''" "length out'' = length out"
      using d1(2,3,8) d2(1-4,8) w2 by auto
    show "v_dest v'' c = v_dest v c" "v_from v'' c = v_from v c" if "c \<in> v_issued v" for c
      using d1(2,5,6) d2(5,6) that by auto
    show "v_set v'' ts = Some x" if "v_set v ts = Some x" for ts x using d1(7) d2(7) that by blast
  next
    fix k assume k: "k < length out" "\<not> covers v'' (writers v v'') k"
    then have "\<not> covers v' (writers v v') k" using cov [OF wi] covers_mono w1 by blast
    then show "out'' ! k = out ! k" using d1(9) keep [of k] k covers_mono w2 by metis
  next
    fix c off len src start k
    assume c: "c \<in> v_done v'' - v_done v" and dest: "v_dest v'' c = (Output_storage, off, len)"
      and orig: "v_from v'' c = (src, start)" and k: "k < len" "off + k < length out"
      and free: "\<not> covers v'' (writers v v'' - {c}) (off + k)"
    show "out'' ! (off + k) = source src ! (start + k)"
    proof (cases "c \<in> v_done v'")
      case True
      then have i: "c \<in> v_issued v'" and np: "c \<notin> v_pending v'" using view_okD [OF d1(1)] by blast+
      have "v_dest v' c = (Output_storage, off, len)" "v_from v' c = (src, start)" using d2(5,6) i dest orig by auto
      moreover have "\<not> covers v' (writers v v' - {c}) (off + k)"
        using free cov [of "writers v v' - {c}"] wi w1 covers_mono [of v'' "writers v v' - {c}" "off + k" "writers v v'' - {c}"] by blast
      ultimately have "out' ! (off + k) = source src ! (start + k)" using d1(10) True c k by blast
      moreover have "c \<notin> writers v' v''" using np i by (simp add: writers_def)
      then have "\<not> covers v'' (writers v' v'') (off + k)"
        using free w2 covers_mono [of v'' "writers v' v''" "off + k" "writers v v'' - {c}"] by blast
      ultimately show ?thesis using keep k(2) by simp
    next
      case False
      have "\<not> covers v'' (writers v' v'' - {c}) (off + k)"
        using free w2 covers_mono [of v'' "writers v' v'' - {c}" "off + k" "writers v v'' - {c}"] by blast
      then show ?thesis using d2(10) [of c off len src start k] c False dest orig k d1(8) by simp
    qed
  qed
qed

section \<open>The contract\<close>

text \<open>
  \<open>good\<close> is the transport's own invariant. A submission through a transfer set reads from the source the set was created for,
  inside the size it was created with, into the storage it was created over.
\<close>

definition steps :: "(source_id \<Rightarrow> bytes) \<Rightarrow> 'm transport \<Rightarrow> ('m \<Rightarrow> view) \<Rightarrow> ('m \<Rightarrow> bool) \<Rightarrow> 'm \<Rightarrow> 'm \<Rightarrow> bool" where
  "steps source tp view good m m' \<longleftrightarrow> good m' \<and> moves source (view m, tp_output tp m) (view m', tp_output tp m')"

definition transfer_contract :: "(source_id \<Rightarrow> bytes) \<Rightarrow> 'm transport \<Rightarrow> ('m \<Rightarrow> view) \<Rightarrow> ('m \<Rightarrow> bool) \<Rightarrow> bool" where
  "transfer_contract source tp view good \<longleftrightarrow>
     (\<forall>m. good m \<longrightarrow> view_ok (view m)) \<and>
     (\<forall>m src n st k r m'. good m \<longrightarrow> tp_create tp src n st k m = (r, m') \<longrightarrow>
        steps source tp view good m m' \<and> v_issued (view m') = v_issued (view m) \<and>
        (\<forall>ts. r = Inr ts \<longrightarrow> v_set (view m') ts = Some (src, unat n, st))) \<and>
     (\<forall>m ts rng dst r m'. good m \<longrightarrow> tp_submit tp ts rng dst m = (r, m') \<longrightarrow>
        steps source tp view good m m' \<and> (\<forall>e. r = Inl e \<longrightarrow> v_issued (view m') = v_issued (view m)) \<and>
        (\<forall>c. r = Inr c \<longrightarrow> c \<notin> v_issued (view m) \<and> v_issued (view m') = insert c (v_issued (view m)) \<and>
           (\<forall>src n st. v_set (view m) ts = Some (src, n, st) \<longrightarrow> v_dest (view m') c = (st, unat dst, unat (br_length rng)) \<and>
              v_from (view m') c = (src, unat (br_offset rng)) \<and> unat (br_offset rng) + unat (br_length rng) \<le> n))) \<and>
     (\<forall>m c d raw m'. good m \<longrightarrow> c \<in> v_issued (view m) \<longrightarrow> tp_wait tp c d m = (raw, m') \<longrightarrow>
        steps source tp view good m m' \<and> v_issued (view m') = v_issued (view m) \<and>
        (raw = MP_Ok \<longrightarrow> c \<in> v_done (view m')) \<and> (raw \<noteq> MP_Timeout \<longrightarrow> c \<notin> v_pending (view m'))) \<and>
     (\<forall>m c. good m \<longrightarrow> steps source tp view good m (tp_reset tp c m) \<and> v_issued (view (tp_reset tp c m)) = v_issued (view m))"

text \<open>
  The guard the table's comments rely on for chunked fills: a submission is refused while an outstanding transfer writes to a
  part of its destination.
\<close>

definition refuses_overlap :: "'m transport \<Rightarrow> ('m \<Rightarrow> view) \<Rightarrow> bool" where
  "refuses_overlap tp view \<longleftrightarrow>
     (\<forall>m ts rng dst c m' k. tp_submit tp ts rng dst m = (Inr c, m') \<longrightarrow> k < unat (br_length rng) \<longrightarrow>
        \<not> covers (view m) (v_pending (view m)) (unat dst + k))"

end
