(* ===== verification/Table_Data.thy ===== *)
theory Table_Data
  imports Table_Spans Transfer_Contract
begin

text \<open>
  What the bytes of a lease are. For a table that does not convert, over a transport that keeps \<open>transfer_contract\<close>, a Ready
  slot holds the bytes of its row, under any interleaving of the table's threads with the transfers. A slot's window in
  the output storage belongs to its own claims while it is Filling and to nobody once it is Ready; this is kept because a
  fill of one read ends with its only transfer, and because submissions of chunked fills are refused over outstanding ones.
\<close>

section \<open>What a fill is to read\<close>

text \<open>\<open>snap\<close>: the sources and the resolver that the caller means by a generation number.\<close>

type_synonym snapshots = "u64 \<Rightarrow> shard_source list \<times> resolver"

record plan =
  p_source :: source_id
  p_off :: nat
  p_len :: nat
  p_head :: u64
  p_row :: u64

definition fill_plan :: "snapshots \<Rightarrow> table_config \<Rightarrow> row_key \<Rightarrow> plan option" where
  "fill_plan snap cfg = (\<lambda>(row, generation).
     (case snap generation of (sources, resolve) \<Rightarrow>
       (case resolve_location cfg sources resolve row of
          Inl _ \<Rightarrow> None
        | Inr loc \<Rightarrow>
            (let shard = sources ! unat (loc_shard loc);
                 (fill, head) = fill_window (c_fill_alignment cfg) (sh_bytes shard) (loc_range loc)
             in Some \<lparr>p_source = sh_source shard, p_off = unat (br_offset fill), p_len = unat (br_length fill),
                      p_head = head, p_row = br_length (loc_range loc)\<rparr>))))"

definition claims_of :: "slot \<Rightarrow> claim list" where
  "claims_of s = (if s_chunk_claims s \<noteq> [] then s_chunk_claims s else case s_claim s of None \<Rightarrow> [] | Some c \<Rightarrow> [c])"

definition fill_reads :: "table_config \<Rightarrow> nat \<Rightarrow> (nat \<times> nat) list" where
  "fill_reads cfg len =
     (if chunks_per_row_of cfg > 1 then chunk_reads (unat (c_fill_chunk_bytes cfg)) 0 len else [(0, len)])"

lemma chunk_reads_nth:
  "a < length (chunk_reads chunk at len) \<Longrightarrow>
     chunk_reads chunk at len ! a = (at + a * chunk, min chunk (len - (at + a * chunk))) \<and> at + a * chunk < len"
proof (induction chunk at len arbitrary: a rule: chunk_reads.induct)
  case (1 chunk at len)
  then have "0 < chunk" "at < len" by (auto simp: chunk_reads.simps [of chunk at len] split: if_splits)
  then show ?case using 1 by (cases a) (simp_all add: chunk_reads_Cons add.assoc)
qed

lemma chunk_reads_apart:
  assumes "a < length (chunk_reads chunk at len)" and "b < length (chunk_reads chunk at len)" and "a < b"
  shows "fst (chunk_reads chunk at len ! a) + snd (chunk_reads chunk at len ! a) \<le> fst (chunk_reads chunk at len ! b)"
proof -
  have "Suc a * chunk \<le> b * chunk" using assms(3) by (intro mult_le_mono1) simp
  then show ?thesis using chunk_reads_nth [OF assms(1)] chunk_reads_nth [OF assms(2)] by simp
qed

lemma reads_inside:
  assumes "(at, n) \<in> set (fill_reads cfg len)"
  shows "at + n \<le> len"
proof (cases "chunks_per_row_of cfg > 1")
  case True
  let ?chunk = "unat (c_fill_chunk_bytes cfg)"
  from assms True obtain a where a: "a < length (chunk_reads ?chunk 0 len)" "chunk_reads ?chunk 0 len ! a = (at, n)"
    by (auto simp: fill_reads_def in_set_conv_nth)
  have "at = a * ?chunk" "n = min ?chunk (len - a * ?chunk)" "a * ?chunk < len" using chunk_reads_nth [OF a(1)] a(2) by auto
  then show ?thesis by linarith
qed (use assms in \<open>simp add: fill_reads_def\<close>)

lemma reads_apart:
  assumes "a < length (fill_reads cfg len)" and "b < length (fill_reads cfg len)" and "a < b"
  shows "fst (fill_reads cfg len ! a) + snd (fill_reads cfg len ! a) \<le> fst (fill_reads cfg len ! b)"
  using chunk_reads_apart assms by (auto simp: fill_reads_def split: if_splits)

lemma chunked_positive:
  assumes "chunks_per_row_of cfg > 1"
  shows "0 < unat (c_fill_chunk_bytes cfg)"
  using assms by (auto simp: chunks_per_row_of_def Let_def unat_gt_0 split: if_splits)

lemma reads_cover:
  assumes "k < len"
  shows "\<exists>at n. (at, n) \<in> set (fill_reads cfg len) \<and> at \<le> k \<and> k < at + n"
proof (cases "chunks_per_row_of cfg > 1")
  case True
  have "k \<in> set (concat (map (\<lambda>(at, n). [at ..< at + n]) (chunk_reads (unat (c_fill_chunk_bytes cfg)) 0 len)))"
    using assms by (simp add: chunk_reads_tile [OF chunked_positive [OF True]] del: set_concat)
  then show ?thesis using True by (fastforce simp: fill_reads_def)
qed (use assms in \<open>simp add: fill_reads_def\<close>)

section \<open>The claims of one fill\<close>

text \<open>
  \<open>claim_at\<close>: a claim for the read \<open>(at, n)\<close> of a plan, into the window at \<open>base\<close>; the bytes are there once it is done.
  \<open>fill_data\<close>: the claims of a fill, one for each read, and no other outstanding transfer writes there.
\<close>

definition claim_at :: "(source_id \<Rightarrow> bytes) \<Rightarrow> view \<Rightarrow> bytes \<Rightarrow> nat \<Rightarrow> plan \<Rightarrow> claim \<Rightarrow> nat \<times> nat \<Rightarrow> bool" where
  "claim_at source v out base p c = (\<lambda>(at, n).
     c \<in> v_issued v \<and> v_dest v c = (Output_storage, base + at, n) \<and> v_from v c = (p_source p, p_off p + at) \<and>
     (c \<in> v_done v \<longrightarrow> (\<forall>k < n. out ! (base + at + k) = source (p_source p) ! (p_off p + at + k))))"

definition fill_data :: "(source_id \<Rightarrow> bytes) \<Rightarrow> view \<Rightarrow> bytes \<Rightarrow> nat \<Rightarrow> plan \<Rightarrow> claim list \<Rightarrow> (nat \<times> nat) list \<Rightarrow> bool" where
  "fill_data source v out base p cs reads \<longleftrightarrow> list_all2 (claim_at source v out base p) cs reads \<and>
     (\<forall>(at, n) \<in> set reads. \<forall>k < n. \<not> covers v (v_pending v - set cs) (base + at + k))"

definition apart :: "(nat \<times> nat) list \<Rightarrow> bool" where
  "apart reads \<longleftrightarrow> (\<forall>a < length reads. \<forall>b < length reads. a < b \<longrightarrow> fst (reads ! a) + snd (reads ! a) \<le> fst (reads ! b))"

lemma fill_reads_apart: "apart (fill_reads cfg len)"
  using reads_apart by (simp add: apart_def)

lemma apart_take: "apart reads \<Longrightarrow> apart (take n reads)"
  by (simp add: apart_def)

text \<open>The claims of a fill have disjoint destinations.\<close>

lemma fill_data_own:
  assumes fd: "fill_data source v out base p cs reads" and ap: "apart reads"
    and a: "a < length reads" "reads ! a = (at, n)" and k: "k < n"
  shows "\<not> covers v (set cs - {cs ! a}) (base + at + k)"
proof
  assume "covers v (set cs - {cs ! a}) (base + at + k)"
  then obtain c off len where c: "c \<in> set cs" "c \<noteq> cs ! a" "v_dest v c = (Output_storage, off, len)"
    "off \<le> base + at + k" "base + at + k < off + len" by (auto simp: covers_def)
  have all: "list_all2 (claim_at source v out base p) cs reads" using fd by (simp add: fill_data_def)
  then have len: "length cs = length reads" by (rule list_all2_lengthD)
  obtain b where b: "b < length cs" "cs ! b = c" using c(1) by (auto simp: in_set_conv_nth)
  obtain x m where x: "reads ! b = (x, m)" by fastforce
  have "claim_at source v out base p c (x, m)" using list_all2_nthD [OF all b(1)] b(2) x by simp
  then have "off = base + x" "len = m" using c(3) by (auto simp: claim_at_def)
  moreover have "x + m \<le> at \<or> at + n \<le> x"
  proof -
    have "b < a \<or> a < b" using b(2) c(2) by (metis nat_neq_iff)
    then show ?thesis
      using ap a b(1) x len unfolding apart_def by (metis fst_conv snd_conv)
  qed
  ultimately show False using c(4,5) k by linarith
qed

text \<open>A step of the transport keeps it, if what is issued in the step lies elsewhere.\<close>

lemma fill_data_moves:
  assumes fd: "fill_data source v out base p cs reads" and ap: "apart reads" and ok: "view_ok v"
    and mv: "moves source (v, out) (v', out')"
    and new: "\<forall>(at, n) \<in> set reads. \<forall>k < n. \<not> covers v' (v_issued v' - v_issued v) (base + at + k)"
    and room: "\<forall>(at, n) \<in> set reads. base + at + n \<le> length out"
  shows "fill_data source v' out' base p cs reads"
proof -
  note d = movesD [OF mv]
  have all: "list_all2 (claim_at source v out base p) cs reads" using fd by (simp add: fill_data_def)
  then have len: "length cs = length reads" by (rule list_all2_lengthD)
  have issued: "set cs \<subseteq> v_issued v"
    using all len by (fastforce simp: claim_at_def in_set_conv_nth dest: list_all2_nthD)
  have old: "covers v' C k = covers v C k" if "C \<subseteq> v_issued v" for C k
    by (rule covers_cong) (use d(5) that in auto)
  have free: "\<not> covers v' (writers v v' - set cs) (base + at + k)" if "(at, n) \<in> set reads" "k < n" for at n k
  proof -
    have "v_pending v - set cs \<subseteq> v_issued v" using view_okD(1) [OF ok] by auto
    then have "\<not> covers v' (v_pending v - set cs) (base + at + k)" using fd that old by (auto simp: fill_data_def)
    moreover have "\<not> covers v' (v_issued v' - v_issued v) (base + at + k)" using new that by blast
    ultimately show ?thesis by (auto simp: covers_def writers_def)
  qed
  have "claim_at source v' out' base p (cs ! a) (reads ! a)" if a: "a < length cs" for a
  proof -
    obtain at n where r: "reads ! a = (at, n)" by fastforce
    have mem: "(at, n) \<in> set reads" using a len r by (metis nth_mem)
    have ca: "claim_at source v out base p (cs ! a) (at, n)" using list_all2_nthD [OF all a] r by simp
    then have i: "cs ! a \<in> v_issued v" and dest: "v_dest v' (cs ! a) = (Output_storage, base + at, n)"
      and orig: "v_from v' (cs ! a) = (p_source p, p_off p + at)" using d(5,6) by (auto simp: claim_at_def)
    have others: "\<not> covers v' (writers v v' - {cs ! a}) (base + at + k)" if "k < n" for k
    proof -
      have "\<not> covers v' (set cs - {cs ! a}) (base + at + k)"
        using fill_data_own [OF fd ap _ r that] a len old [of "set cs - {cs ! a}"] issued by auto
      then show ?thesis using free [OF mem that] by (auto simp: covers_def)
    qed
    have "out' ! (base + at + k) = source (p_source p) ! (p_off p + at + k)" if dn: "cs ! a \<in> v_done v'" and k: "k < n" for k
    proof -
      have inb: "base + at + k < length out" using room mem k by fastforce
      show ?thesis
      proof (cases "cs ! a \<in> v_done v")
        case True
        then have "cs ! a \<notin> writers v v'" using view_okD(3) [OF ok] i by (auto simp: writers_def)
        then have "\<not> covers v' (writers v v') (base + at + k)" using others [OF k] by simp
        then show ?thesis using d(9) [OF inb] ca True k by (simp add: claim_at_def)
      next
        case False
        then show ?thesis using d(10) [OF dn False dest orig k inb others [OF k]] by (simp add: add.assoc)
      qed
    qed
    then show ?thesis using r i dest orig d(2) by (auto simp: claim_at_def)
  qed
  then have "list_all2 (claim_at source v' out' base p) cs reads" using len by (simp add: list_all2_conv_all_nth)
  moreover have "\<not> covers v' (v_pending v' - set cs) (base + at + k)" if "(at, n) \<in> set reads" "k < n" for at n k
    using free [OF that] d(4) covers_mono [of v' "v_pending v' - set cs" _ "writers v v' - set cs"] by blast
  ultimately show ?thesis by (auto simp: fill_data_def)
qed

section \<open>Rules of the contract\<close>

lemma contract_view: "transfer_contract source tp view good \<Longrightarrow> good m \<Longrightarrow> view_ok (view m)"
  by (simp add: transfer_contract_def)

lemma steps_trans:
  assumes "steps source tp view good m m'" and "steps source tp view good m' m''" and "transfer_contract source tp view good" and "good m"
  shows "steps source tp view good m m''"
  using assms(1,2) contract_view [OF assms(3,4)] moves_trans unfolding steps_def by blast

lemma steps_refl: "transfer_contract source tp view good \<Longrightarrow> good m \<Longrightarrow> steps source tp view good m m"
  by (simp add: steps_def moves_refl contract_view)

lemma contract_create:
  assumes "transfer_contract source tp view good" and "good m" and "tp_create tp src n st k m = (r, m')"
  shows "steps source tp view good m m' \<and> v_issued (view m') = v_issued (view m) \<and>
    (\<forall>ts. r = Inr ts \<longrightarrow> v_set (view m') ts = Some (src, unat n, st))"
proof -
  note c = assms(1) [unfolded transfer_contract_def]
  show ?thesis by (rule conjunct1 [OF conjunct2 [OF c], rule_format, OF assms(2,3)])
qed

lemma contract_submit:
  assumes "transfer_contract source tp view good" and "good m" and "tp_submit tp ts rng dst m = (r, m')"
  shows "steps source tp view good m m'" and "r = Inl e \<Longrightarrow> v_issued (view m') = v_issued (view m)"
    and "r = Inr c \<Longrightarrow> c \<notin> v_issued (view m) \<and> v_issued (view m') = insert c (v_issued (view m))"
    and "r = Inr c \<Longrightarrow> v_set (view m) ts = Some (src, n, st) \<Longrightarrow>
       v_dest (view m') c = (st, unat dst, unat (br_length rng)) \<and> v_from (view m') c = (src, unat (br_offset rng))"
proof -
  note c = assms(1) [unfolded transfer_contract_def]
  note s = conjunct1 [OF conjunct2 [OF conjunct2 [OF c]], rule_format, OF assms(2,3)]
  show "steps source tp view good m m'" using s by simp
  show "r = Inl e \<Longrightarrow> v_issued (view m') = v_issued (view m)" using s by simp
  show "r = Inr c \<Longrightarrow> c \<notin> v_issued (view m) \<and> v_issued (view m') = insert c (v_issued (view m))" using s by simp
  show "r = Inr c \<Longrightarrow> v_set (view m) ts = Some (src, n, st) \<Longrightarrow>
       v_dest (view m') c = (st, unat dst, unat (br_length rng)) \<and> v_from (view m') c = (src, unat (br_offset rng))" using s by simp
qed

lemma contract_wait:
  assumes "transfer_contract source tp view good" and "good m" and "c \<in> v_issued (view m)" and "tp_wait tp c d m = (raw, m')"
  shows "steps source tp view good m m' \<and> v_issued (view m') = v_issued (view m) \<and>
    (raw = MP_Ok \<longrightarrow> c \<in> v_done (view m')) \<and> (raw \<noteq> MP_Timeout \<longrightarrow> c \<notin> v_pending (view m'))"
proof -
  note c = assms(1) [unfolded transfer_contract_def]
  show ?thesis by (rule conjunct1 [OF conjunct2 [OF conjunct2 [OF conjunct2 [OF c]]], rule_format, OF assms(2,3,4)])
qed

lemma contract_reset:
  assumes "transfer_contract source tp view good" and "good m"
  shows "steps source tp view good m (tp_reset tp c m)" and "v_issued (view (tp_reset tp c m)) = v_issued (view m)"
proof -
  note c = assms(1) [unfolded transfer_contract_def]
  note s = conjunct2 [OF conjunct2 [OF conjunct2 [OF conjunct2 [OF c]]], rule_format, OF assms(2), of c]
  show "steps source tp view good m (tp_reset tp c m)" "v_issued (view (tp_reset tp c m)) = v_issued (view m)" using s by simp_all
qed

lemma stepsD: "steps source tp view good m m' \<Longrightarrow> good m' \<and> moves source (view m, tp_output tp m) (view m', tp_output tp m')"
  by (simp add: steps_def)

lemma contract_resets:
  assumes "transfer_contract source tp view good" and "good m"
  shows "steps source tp view good m (foldl (\<lambda>m c. tp_reset tp c m) m cs) \<and>
     v_issued (view (foldl (\<lambda>m c. tp_reset tp c m) m cs)) = v_issued (view m)"
  using assms(2)
proof (induction cs arbitrary: m)
  case (Cons c cs)
  note r = contract_reset [OF assms(1) Cons.prems, of c]
  from Cons.IH [OF conjunct1 [OF stepsD [OF r(1)]]] r steps_trans [OF r(1) _ assms(1) Cons.prems] show ?case by simp
qed (simp add: steps_refl [OF assms(1)])

lemma contract_reset_claims:
  assumes "transfer_contract source tp view good" and "good m"
  shows "steps source tp view good m (reset_claims tp s m)" and "v_issued (view (reset_claims tp s m)) = v_issued (view m)"
proof -
  let ?m = "case s_claim s of None \<Rightarrow> m | Some c \<Rightarrow> tp_reset tp c m"
  have one: "steps source tp view good m ?m \<and> v_issued (view ?m) = v_issued (view m)"
    using contract_reset [OF assms] steps_refl [OF assms] by (simp split: option.split)
  note rest = contract_resets [OF assms(1) conjunct1 [OF stepsD [OF conjunct1 [OF one]]], of "s_chunk_claims s"]
  show "steps source tp view good m (reset_claims tp s m)" "v_issued (view (reset_claims tp s m)) = v_issued (view m)"
    unfolding reset_claims_def using one rest steps_trans [OF _ _ assms] by auto
qed

section \<open>Submitting the reads of a fill\<close>

lemma fill_data_submit:
  assumes tc: "transfer_contract source tp view good" and gm: "good m"
    and fd: "fill_data source (view m) (tp_output tp m) base p cs reads" and ap: "apart reads"
    and run: "tp_submit tp ts rng dst m = (Inr c, m')" and set: "v_set (view m) ts = Some (p_source p, size_n, Output_storage)"
    and args: "unat dst = base + at" "unat (br_length rng) = n" "unat (br_offset rng) = p_off p + at"
    and free: "\<forall>k < n. \<not> covers (view m) (v_pending (view m)) (base + at + k)"
    and disj: "\<forall>(x, l) \<in> set reads. x + l \<le> at"
    and room: "\<forall>(x, l) \<in> set reads. base + x + l \<le> length (tp_output tp m)" "base + at + n \<le> length (tp_output tp m)"
  shows "fill_data source (view m') (tp_output tp m') base p (cs @ [c]) (reads @ [(at, n)])"
proof -
  note s = contract_submit [OF tc gm run]
  have mv: "moves source (view m, tp_output tp m) (view m', tp_output tp m')" and ok: "view_ok (view m)"
    using stepsD [OF s(1)] contract_view [OF tc gm] by simp_all
  note d = movesD [OF mv]
  have fresh: "c \<notin> v_issued (view m)" and new: "v_issued (view m') - v_issued (view m) = {c}" using s(3) [OF refl] by auto
  have dest: "v_dest (view m') c = (Output_storage, base + at, n)" and orig: "v_from (view m') c = (p_source p, p_off p + at)"
    using s(4) [OF refl set] args by simp_all
  have old: "fill_data source (view m') (tp_output tp m') base p cs reads"
  proof (rule fill_data_moves [OF fd ap ok mv])
    show "\<forall>(x, l) \<in> set reads. \<forall>k < l. \<not> covers (view m') (v_issued (view m') - v_issued (view m)) (base + x + k)"
      unfolding new using disj by (fastforce simp: covers_def dest)
  qed (rule room(1))
  have "\<not> covers (view m') (v_pending (view m)) (base + at + k)" if "k < n" for k
  proof -
    have "covers (view m') (v_pending (view m)) (base + at + k) = covers (view m) (v_pending (view m)) (base + at + k)"
      by (rule covers_cong) (use d(5) view_okD(1) [OF ok] in blast)
    then show ?thesis using free that by simp
  qed
  moreover have "writers (view m) (view m') - {c} \<subseteq> v_pending (view m)" unfolding writers_def new by auto
  ultimately have others: "\<not> covers (view m') (writers (view m) (view m') - {c}) (base + at + k)" if "k < n" for k
    using covers_mono that by blast
  have "tp_output tp m' ! (base + at + k) = source (p_source p) ! (p_off p + at + k)" if "c \<in> v_done (view m')" "k < n" for k
    using d(10) [OF that(1) _ dest orig that(2) _ others [OF that(2)]] fresh view_okD(2) [OF ok] room(2) that(2) by (auto simp: add.assoc)
  then have ca: "claim_at source (view m') (tp_output tp m') base p c (at, n)"
    using dest orig new by (auto simp: claim_at_def)
  have "v_pending (view m') - set (cs @ [c]) \<subseteq> writers (view m) (view m') - {c}" using d(4) by auto
  then have "\<not> covers (view m') (v_pending (view m') - set (cs @ [c])) (base + at + k)" if "k < n" for k
    using others [OF that] covers_mono by blast
  moreover have "\<not> covers (view m') (v_pending (view m') - set (cs @ [c])) (base + x + k)" if "(x, l) \<in> set reads" "k < l" for x l k
    using old that covers_mono [of "view m'" "v_pending (view m') - set (cs @ [c])" _ "v_pending (view m') - set cs"]
    by (fastforce simp: fill_data_def)
  moreover have "list_all2 (claim_at source (view m') (tp_output tp m') base p) (cs @ [c]) (reads @ [(at, n)])"
    using old ca by (intro list_all2_appendI) (simp_all add: fill_data_def)
  ultimately show ?thesis unfolding fill_data_def by auto
qed

text \<open>The chunk loop, when overlapping submissions are refused: it starts with \<open>done\<close> chunks submitted.\<close>

lemma submit_chunks_data:
  assumes tc: "transfer_contract source tp view good" and strict: "refuses_overlap tp view"
    and run: "submit_chunks tp ts offset b reads m = (err, cs', m')" and gm: "good m"
    and fd: "fill_data source (view m) (tp_output tp m) base p cs pre" and ap: "apart (pre @ reads)"
    and set: "v_set (view m) ts = Some (p_source p, size_n, Output_storage)"
    and args: "\<forall>(at, n) \<in> set reads. unat (b + of_nat at) = base + at \<and> unat (of_nat n :: u64) = n \<and> unat (offset + of_nat at) = p_off p + at"
    and room: "\<forall>(at, n) \<in> set (pre @ reads). base + at + n \<le> length (tp_output tp m)"
  shows "steps source tp view good m m' \<and>
     (\<forall>c \<in> v_issued (view m') - v_issued (view m). \<exists>(at, n) \<in> set reads. v_dest (view m') c = (Output_storage, base + at, n)) \<and>
     (err = None \<longrightarrow> fill_data source (view m') (tp_output tp m') base p (cs @ cs') (pre @ reads))"
  using run gm fd ap set args room
proof (induction reads arbitrary: m cs pre cs' err m')
  case Nil
  then show ?case using steps_refl [OF tc] by auto
next
  case (Cons r reads)
  obtain at n where r: "r = (at, n)" by fastforce
  let ?rng = "\<lparr>br_offset = offset + of_nat at, br_length = of_nat n\<rparr>" and ?dst = "b + of_nat at"
  have args: "unat ?dst = base + at" "unat (br_length ?rng) = n" "unat (br_offset ?rng) = p_off p + at"
    using Cons.prems(6) r by simp_all
  have ap: "apart pre" using Cons.prems(4) apart_take [of "pre @ r # reads" "length pre"] by simp
  have disj: "x + l \<le> at" if "(x, l) \<in> set pre" for x l
  proof -
    obtain a where a: "a < length pre" "pre ! a = (x, l)" using \<open>(x, l) \<in> set pre\<close> by (auto simp: in_set_conv_nth)
    have ord: "fst (xs ! a) + snd (xs ! a) \<le> fst (xs ! b)" if "apart xs" "a < length xs" "b < length xs" "a < b" for xs :: "(nat \<times> nat) list" and a b
      using that by (simp add: apart_def)
    have "fst ((pre @ r # reads) ! a) + snd ((pre @ r # reads) ! a) \<le> fst ((pre @ r # reads) ! length pre)"
      by (rule ord [OF Cons.prems(4)]) (use a(1) in simp_all)
    then show ?thesis using a r by (simp add: nth_append)
  qed
  obtain e m1 where sub: "tp_submit tp ts ?rng ?dst m = (e, m1)" by fastforce
  note s = contract_submit [OF tc Cons.prems(2) sub]
  have len: "length (tp_output tp m1) = length (tp_output tp m)" and set1: "v_set (view m1) ts = Some (p_source p, size_n, Output_storage)"
    and good1: "good m1"
    using stepsD [OF s(1)] movesD(7) [OF conjunct2 [OF stepsD [OF s(1)]] Cons.prems(5)] movesD(8) [OF conjunct2 [OF stepsD [OF s(1)]]]
    by simp_all
  show ?case
  proof (cases e)
    case (Inl error)
    then show ?thesis using Cons.prems(1) r sub s(1,2) by auto
  next
    case (Inr c)
    obtain err2 cs2 m2 where rest: "submit_chunks tp ts offset b reads m1 = (err2, cs2, m2)" by (metis prod_cases3)
    have res: "err = err2" "cs' = c # cs2" "m' = m2" using Cons.prems(1) r sub Inr rest by auto
    have free: "\<forall>k < n. \<not> covers (view m) (v_pending (view m)) (base + at + k)"
      using strict sub Inr args unfolding refuses_overlap_def by metis
    have fd1: "fill_data source (view m1) (tp_output tp m1) base p (cs @ [c]) (pre @ [r])"
      unfolding r
      by (rule fill_data_submit [OF tc Cons.prems(2,3) ap sub [unfolded Inr] Cons.prems(5) args free])
        (use disj Cons.prems(7) r in auto)
    have ih: "steps source tp view good m1 m2 \<and>
        (\<forall>c \<in> v_issued (view m2) - v_issued (view m1). \<exists>(at, n) \<in> set reads. v_dest (view m2) c = (Output_storage, base + at, n)) \<and>
        (err2 = None \<longrightarrow> fill_data source (view m2) (tp_output tp m2) base p ((cs @ [c]) @ cs2) ((pre @ [r]) @ reads))"
      by (rule Cons.IH [OF rest good1 fd1 _ set1]) (use Cons.prems(4,6,7) len in auto)
    have "v_dest (view m2) c = (Output_storage, base + at, n)"
      using s(3,4) [OF Inr] Cons.prems(5) args stepsD [OF conjunct1 [OF ih]] movesD(5) by (metis insertI1)
    then show ?thesis using res ih s(3) [OF Inr] steps_trans [OF s(1) _ tc Cons.prems(2)] r by auto
  qed
qed

end
