(* ===== verification/Data_Inv.thy ===== *)
theory Data_Inv
  imports Table_Data
begin

text \<open>
  The invariant behind \<open>Lease_Data\<close>: what the bytes of every slot are, and that the table's operations keep it. The
  operations only matter through the parts of the state named by \<open>parts\<close> and through their effect on the transport.
\<close>

section \<open>The setting\<close>

text \<open>
  The shards a caller registers are as long as it says, and leave room for one alignment below \<open>2 ^ 64\<close>.
\<close>

definition sources_fit :: "(source_id \<Rightarrow> bytes) \<Rightarrow> snapshots \<Rightarrow> table_config \<Rightarrow> bool" where
  "sources_fit source snap cfg \<longleftrightarrow> (\<forall>gen. \<forall>shard \<in> set (fst (snap gen)).
     unat (sh_bytes shard) \<le> length (source (sh_source shard)) \<and> unat (sh_bytes shard) + unat (c_fill_alignment cfg) \<le> 2 ^ 64)"

abbreviation row_width :: "table_config \<Rightarrow> nat" where
  "row_width cfg \<equiv> unat (c_output_row_bytes cfg)"

type_synonym slot_core = "slot_state \<times> row_key \<times> (u64 \<times> u64) \<times> claim list"

definition core :: "slot \<Rightarrow> slot_core" where
  "core s = (s_state s, slot_key s, slot_span s, claims_of s)"

definition frame :: "'m table \<Rightarrow> table_config \<times> codec option \<times> u32 \<times> (shard_source list \<times> resolver \<times> transfer_set list) \<times> u64" where
  "frame t = (config t, active_codec t, chunks_per_row t,
     (b_sources (current_binding t), b_resolver (current_binding t), b_row_transfers (current_binding t)), current_generation t)"

definition cores :: "'m table \<Rightarrow> slot_core list" where
  "cores t = map core (slots t)"

section \<open>The invariant\<close>

text \<open>
  A Filling slot's claims read the row's window, each its own part, and nothing else outstanding writes there. A Ready slot
  holds the window, and nothing outstanding writes there.
\<close>

definition core_data :: "(source_id \<Rightarrow> bytes) \<Rightarrow> snapshots \<Rightarrow> table_config \<Rightarrow> view \<Rightarrow> bytes \<Rightarrow> nat \<Rightarrow> slot_core \<Rightarrow> bool" where
  "core_data source snap cfg v out i = (\<lambda>(st, key, span, cs).
     st = Filling \<or> st = Ready \<longrightarrow>
       (\<exists>p. fill_plan snap cfg key = Some p \<and> span = (p_head p, p_row p) \<and> p_len p \<le> row_width cfg \<and>
          (if st = Filling then fill_data source v out (i * row_width cfg) p cs (fill_reads cfg (p_len p))
           else cs = [] \<and> (\<forall>k < p_len p. \<not> covers v (v_pending v) (i * row_width cfg + k) \<and>
             out ! (i * row_width cfg + k) = source (p_source p) ! (p_off p + k)))))"

text \<open>Every outstanding transfer into the output storage belongs to a fill of the table.\<close>

definition fills_own :: "view \<Rightarrow> slot_core list \<Rightarrow> bool" where
  "fills_own v xs \<longleftrightarrow> (\<forall>c \<in> v_pending v. fst (v_dest v c) = Output_storage \<longrightarrow>
     (\<exists>key span cs. (Filling, key, span, cs) \<in> set xs \<and> c \<in> set cs))"

definition binding_data :: "snapshots \<Rightarrow> view \<Rightarrow> 'm table \<Rightarrow> bool" where
  "binding_data snap v t \<longleftrightarrow>
     snap (current_generation t) = (b_sources (current_binding t), b_resolver (current_binding t)) \<and>
     list_all2 (\<lambda>shard ts. v_set v ts = Some (sh_source shard, unat (sh_bytes shard), Output_storage))
       (b_sources (current_binding t)) (b_row_transfers (current_binding t))"

text \<open>What the waits have reported so far: a report of success means done, any report but a timeout that the transfer is over.\<close>

definition results_ok :: "view \<Rightarrow> (claim \<Rightarrow> mp_status option) \<Rightarrow> bool" where
  "results_ok v R \<longleftrightarrow> (\<forall>c e. R c = Some e \<longrightarrow>
     c \<in> v_issued v \<and> (e = MP_Ok \<longrightarrow> c \<in> v_done v) \<and> (e \<noteq> MP_Timeout \<longrightarrow> c \<notin> v_pending v))"

lemma results_ok_moves:
  assumes "results_ok v R" and "moves source (v, out) (v', out')"
  shows "results_ok v' R"
  using assms(1) movesD(2,3,4) [OF assms(2)] unfolding results_ok_def writers_def by blast

definition data_inv :: "(source_id \<Rightarrow> bytes) \<Rightarrow> 'm transport \<Rightarrow> ('m \<Rightarrow> view) \<Rightarrow> ('m \<Rightarrow> bool) \<Rightarrow> snapshots \<Rightarrow> table_config \<Rightarrow>
    (claim \<Rightarrow> mp_status option) \<Rightarrow> 'm table \<Rightarrow> bool" where
  "data_inv source tp view good snap cfg R t \<longleftrightarrow>
     good (mem t) \<and> results_ok (view (mem t)) R \<and> layout_ok cfg t \<and> chunks_per_row t = chunks_per_row_of cfg \<and>
     length (tp_output tp (mem t)) = unat (c_output_size cfg) \<and> binding_data snap (view (mem t)) t \<and>
     (\<forall>i < length (cores t). core_data source snap cfg (view (mem t)) (tp_output tp (mem t)) i (cores t ! i)) \<and>
     (chunks_per_row_of cfg > 1 \<or> fills_own (view (mem t)) (cores t))"

lemma layout_ok_parts:
  assumes "frame t' = frame t" and "cores t' = cores t"
  shows "layout_ok cfg t' = layout_ok cfg t"
proof (rule layout_ok_cong)
  have "map (\<lambda>s. fst (snd (snd (core s)))) (slots t') = map (\<lambda>s. fst (snd (snd (core s)))) (slots t)"
    using assms(2) unfolding cores_def by (metis (no_types) list.map_comp comp_def map_eq_conv)
  then show "layout t' = layout t" using assms(1) by (simp add: layout_def frame_def core_def)
qed

lemma data_inv_cong:
  assumes "mem t' = mem t" and "frame t' = frame t" and "cores t' = cores t"
  shows "data_inv source tp view good snap cfg R t' = data_inv source tp view good snap cfg R t"
proof -
  have "binding_data snap v t' = binding_data snap v t" "chunks_per_row t' = chunks_per_row t" for v
    using assms(2) by (simp_all add: binding_data_def frame_def)
  then show ?thesis using layout_ok_parts [OF assms(2,3)] assms by (simp add: data_inv_def)
qed

section \<open>Steps of the transport\<close>

lemma core_data_moves:
  assumes cd: "core_data source snap cfg v out i x" and ok: "view_ok v" and mv: "moves source (v, out) (v', out')"
    and new: "\<And>k. k < row_width cfg \<Longrightarrow> \<not> covers v' (v_issued v' - v_issued v) (i * row_width cfg + k)"
    and room: "i * row_width cfg + row_width cfg \<le> length out"
  shows "core_data source snap cfg v' out' i x"
proof -
  obtain st key span cs where x: "x = (st, key, span, cs)" by (metis prod_cases4)
  note d = movesD [OF mv]
  show ?thesis
  proof (cases "st = Filling \<or> st = Ready")
    case True
    then obtain p where p: "fill_plan snap cfg key = Some p" "span = (p_head p, p_row p)" "p_len p \<le> row_width cfg"
      and fd: "st = Filling \<Longrightarrow> fill_data source v out (i * row_width cfg) p cs (fill_reads cfg (p_len p))"
      and rd: "st \<noteq> Filling \<Longrightarrow> cs = [] \<and> (\<forall>k < p_len p. \<not> covers v (v_pending v) (i * row_width cfg + k) \<and>
             out ! (i * row_width cfg + k) = source (p_source p) ! (p_off p + k))"
      using cd unfolding x core_data_def by auto
    have "fill_data source v' out' (i * row_width cfg) p cs (fill_reads cfg (p_len p))" if "st = Filling"
    proof (rule fill_data_moves [OF fd [OF that] fill_reads_apart ok mv])
      show "\<forall>(at, n) \<in> set (fill_reads cfg (p_len p)). \<forall>k < n. \<not> covers v' (v_issued v' - v_issued v) (i * row_width cfg + at + k)"
      proof clarify
        fix at n k assume "(at, n) \<in> set (fill_reads cfg (p_len p))" "k < n" "covers v' (v_issued v' - v_issued v) (i * row_width cfg + at + k)"
        then show False using new [of "at + k"] reads_inside [of at n cfg "p_len p"] p(3) by (simp add: add.assoc)
      qed
      show "\<forall>(at, n) \<in> set (fill_reads cfg (p_len p)). i * row_width cfg + at + n \<le> length out"
        using reads_inside p(3) room by fastforce
    qed
    moreover have "cs = [] \<and> (\<forall>k < p_len p. \<not> covers v' (v_pending v') (i * row_width cfg + k) \<and>
             out' ! (i * row_width cfg + k) = source (p_source p) ! (p_off p + k))" if "st \<noteq> Filling"
    proof (intro conjI allI impI)
      fix k assume k: "k < p_len p"
      let ?k = "i * row_width cfg + k"
      have "covers v' (v_pending v) ?k = covers v (v_pending v) ?k"
        by (rule covers_cong) (use d(5) view_okD(1) [OF ok] in blast)
      then have free: "\<not> covers v' (writers v v') ?k"
        using rd [OF that] k p(3) new [of k] by (auto simp: writers_def covers_def)
      then show "\<not> covers v' (v_pending v') ?k" using d(4) covers_mono by blast
      show "out' ! ?k = source (p_source p) ! (p_off p + k)" using d(9) [OF _ free] rd [OF that] k p(3) room by simp
    qed (use rd [OF that] in simp)
    ultimately show ?thesis unfolding x core_data_def using p by auto
  qed (simp add: x core_data_def)
qed

lemma fills_own_moves:
  assumes "fills_own v xs" and "moves source (v, out) (v', out')" and "view_ok v" and "v_issued v' = v_issued v"
  shows "fills_own v' xs"
  unfolding fills_own_def
proof (intro ballI impI)
  fix c assume c: "c \<in> v_pending v'" "fst (v_dest v' c) = Output_storage"
  then have "c \<in> v_pending v" using movesD(4) [OF assms(2)] assms(4) by (auto simp: writers_def)
  moreover from this have "v_dest v' c = v_dest v c" using movesD(5) [OF assms(2)] view_okD(1) [OF assms(3)] by blast
  ultimately show "\<exists>key span cs. (Filling, key, span, cs) \<in> set xs \<and> c \<in> set cs" using assms(1) c(2) by (simp add: fills_own_def)
qed

lemma binding_data_moves:
  assumes "binding_data snap v t" and "moves source (v, out) (v', out')" and "frame t' = frame t"
  shows "binding_data snap v' t'"
  using assms(1,3) movesD(7) [OF assms(2)] by (auto simp: binding_data_def frame_def intro: list_all2_mono)

section \<open>The rules of a table of fills\<close>

text \<open>
  What the data of a table rests on: a transport that keeps its contract, a configuration that \<open>create\<close> accepts and that
  does not convert, and, for chunked fills, submissions refused over outstanding transfers.
\<close>

locale fills =
  fixes source :: "source_id \<Rightarrow> bytes" and tp :: "'m transport" and view :: "'m \<Rightarrow> view" and good :: "'m \<Rightarrow> bool"
    and snap :: snapshots and cfg :: table_config
  assumes contract: "transfer_contract source tp view good"
    and identity: "c_representation cfg = Identity"
    and checked: "create_check cfg = None"
    and fits: "width_fits cfg"
    and sizes: "sources_fit source snap cfg"
    and guarded: "chunks_per_row_of cfg \<le> 1 \<or> refuses_overlap tp view"
begin

lemma slot_room:
  assumes "i < unat (c_budget_rows cfg)"
  shows "i * row_width cfg + row_width cfg \<le> unat (c_output_size cfg)" and "i * row_width cfg + row_width cfg < 2 ^ 64"
proof -
  have "Suc i * row_width cfg \<le> unat (c_budget_rows cfg) * row_width cfg" using assms by (intro mult_le_mono1) simp
  then show "i * row_width cfg + row_width cfg \<le> unat (c_output_size cfg)"
    using create_check_sizes(1) [OF checked] by (simp add: mult.commute)
  then show "i * row_width cfg + row_width cfg < 2 ^ 64" using unat_u64 [of "c_output_size cfg"] by simp
qed

lemma data_invD:
  assumes "data_inv source tp view good snap cfg R t"
  shows "good (mem t)" and "view_ok (view (mem t))" and "layout_ok cfg t" and "chunks_per_row t = chunks_per_row_of cfg"
    and "length (tp_output tp (mem t)) = unat (c_output_size cfg)" and "binding_data snap (view (mem t)) t"
    and "i < length (slots t) \<Longrightarrow> core_data source snap cfg (view (mem t)) (tp_output tp (mem t)) i (core (slots t ! i))"
    and "chunks_per_row_of cfg \<le> 1 \<Longrightarrow> fills_own (view (mem t)) (cores t)"
    and "config t = cfg" and "active_codec t = None" and "length (slots t) = unat (c_budget_rows cfg)" and "length (cores t) = length (slots t)"
    and "results_ok (view (mem t)) R"
proof -
  have ok: "layout_ok cfg t" using assms by (simp add: data_inv_def)
  show "config t = cfg" "active_codec t = None" "length (slots t) = unat (c_budget_rows cfg)"
    using layout_okD [OF ok] identity by (simp_all add: active_codec_of_def)
qed (use assms contract_view [OF contract] in \<open>auto simp: data_inv_def cores_def\<close>)

text \<open>One slot changes, together with a step of the transport that may issue claims for that slot's window.\<close>

lemma data_inv_slot:
  assumes inv: "data_inv source tp view good snap cfg R t" and i: "i < length (slots t)"
    and parts: "frame t' = frame t" "cores t' = (cores t)[i := x]" and ok: "layout_ok cfg t'"
    and st: "steps source tp view good (mem t) (mem t')"
    and new: "\<And>c. c \<in> v_issued (view (mem t')) - v_issued (view (mem t)) \<Longrightarrow>
        \<exists>at n. v_dest (view (mem t')) c = (Output_storage, i * row_width cfg + at, n) \<and> at + n \<le> row_width cfg"
    and data: "core_data source snap cfg (view (mem t')) (tp_output tp (mem t')) i x"
    and own: "\<And>c. chunks_per_row_of cfg \<le> 1 \<Longrightarrow> c \<in> v_pending (view (mem t')) \<Longrightarrow>
        c \<in> v_pending (view (mem t)) \<and> \<not> (s_state (slots t ! i) = Filling \<and> c \<in> set (claims_of (slots t ! i))) \<or>
        (\<exists>key span cs. x = (Filling, key, span, cs) \<and> c \<in> set cs)"
  shows "data_inv source tp view good snap cfg R t'"
proof -
  note d = data_invD [OF inv]
  let ?v = "view (mem t)" and ?v' = "view (mem t')"
  have good': "good (mem t')" and mv: "moves source (?v, tp_output tp (mem t)) (?v', tp_output tp (mem t'))"
    using stepsD [OF st] by simp_all
  have len: "length (cores t') = length (slots t)" using parts(2) d(12) by simp
  have "core_data source snap cfg ?v' (tp_output tp (mem t')) j (cores t' ! j)" if j: "j < length (cores t')" for j
  proof (cases "j = i")
    case True
    then show ?thesis using data parts(2) i d(12) by simp
  next
    case False
    have jn: "j < length (slots t)" using j len by simp
    have "core_data source snap cfg ?v' (tp_output tp (mem t')) j (core (slots t ! j))"
    proof (rule core_data_moves [OF d(7) [OF jn] d(2) mv])
      fix k assume k: "k < row_width cfg"
      have "Suc i * row_width cfg \<le> j * row_width cfg \<or> Suc j * row_width cfg \<le> i * row_width cfg"
        using False mult_le_mono1 [of "Suc i" j "row_width cfg"] mult_le_mono1 [of "Suc j" i "row_width cfg"] by linarith
      then show "\<not> covers ?v' (v_issued ?v' - v_issued ?v) (j * row_width cfg + k)"
        using new k unfolding covers_def by fastforce
    qed (use slot_room(1) jn d(5,11) in simp)
    then show ?thesis using False parts(2) jn by (simp add: cores_def)
  qed
  moreover have "fills_own ?v' (cores t')" if one: "chunks_per_row_of cfg \<le> 1"
    unfolding fills_own_def
  proof (intro ballI impI)
    fix c assume c: "c \<in> v_pending ?v'" "fst (v_dest ?v' c) = Output_storage"
    from own [OF one c(1)] show "\<exists>key span cs. (Filling, key, span, cs) \<in> set (cores t') \<and> c \<in> set cs"
    proof
      assume a: "c \<in> v_pending ?v \<and> \<not> (s_state (slots t ! i) = Filling \<and> c \<in> set (claims_of (slots t ! i)))"
      then have "v_dest ?v' c = v_dest ?v c" using movesD(5) [OF mv] view_okD(1) [OF d(2)] by blast
      then obtain key span cs where y: "(Filling, key, span, cs) \<in> set (cores t)" "c \<in> set cs"
        using d(8) [OF one] a c(2) unfolding fills_own_def by metis
      then obtain j where j: "j < length (slots t)" "core (slots t ! j) = (Filling, key, span, cs)"
        by (auto simp: cores_def in_set_conv_nth)
      then have "j \<noteq> i" using a y(2) by (auto simp: core_def)
      then have "cores t' ! j = (Filling, key, span, cs)" using parts(2) j by (simp add: cores_def)
      then show ?thesis using j(1) len y(2) by (metis nth_mem)
    next
      assume "\<exists>key span cs. x = (Filling, key, span, cs) \<and> c \<in> set cs"
      moreover have "x \<in> set (cores t')" using parts(2) i d(12) by (simp add: set_update_memI)
      ultimately show ?thesis by blast
    qed
  qed
  moreover have "chunks_per_row t' = chunks_per_row_of cfg" using parts(1) d(4) by (simp add: frame_def)
  ultimately show ?thesis
    using good' ok results_ok_moves [OF d(13) mv] movesD(8) [OF mv] d(5) binding_data_moves [OF d(6) mv parts(1)] unfolding data_inv_def by fastforce
qed

text \<open>The transport moves by itself, or a claim is waited for or dropped.\<close>

lemma data_inv_mem:
  assumes inv: "data_inv source tp view good snap cfg R t" and st: "steps source tp view good (mem t) m"
    and issued: "v_issued (view m) = v_issued (view (mem t))" and t': "frame t' = frame t" "cores t' = cores t" "mem t' = m"
  shows "data_inv source tp view good snap cfg R t'"
proof -
  note d = data_invD [OF inv]
  have mv: "moves source (view (mem t), tp_output tp (mem t)) (view m, tp_output tp m)" and "good m" using stepsD [OF st] by simp_all
  have "core_data source snap cfg (view m) (tp_output tp m) i (core (slots t ! i))" if "i < length (slots t)" for i
    by (rule core_data_moves [OF d(7) [OF that] d(2) mv])
      (use issued slot_room(1) that d(5,11) in \<open>simp_all add: covers_def\<close>)
  moreover have "chunks_per_row_of cfg \<le> 1 \<Longrightarrow> fills_own (view m) (cores t)" by (rule fills_own_moves [OF d(8) mv d(2) issued])
  moreover have "chunks_per_row t' = chunks_per_row t" using t'(1) by (simp add: frame_def)
  ultimately show ?thesis
    using t' d(3,4,5) results_ok_moves [OF d(13) mv] layout_ok_parts [OF t'(1,2)] movesD(8) [OF mv] binding_data_moves [OF d(6) mv t'(1)] \<open>good m\<close>
    unfolding data_inv_def by (fastforce simp: cores_def)
qed

end

section \<open>What the operations do to the parts\<close>

lemma frame_fields [simp]:
  "frame (count f t) = frame t" "frame (t\<lparr>index := ix\<rparr>) = frame t" "frame (t\<lparr>mem := m\<rparr>) = frame t"
  "frame (t\<lparr>non_free := n\<rparr>) = frame t" "frame (t\<lparr>clock_hand := h\<rparr>) = frame t" "frame (t\<lparr>in_flight := n\<rparr>) = frame t"
  "frame (t\<lparr>pins_total := n\<rparr>) = frame t" "frame (t\<lparr>tickets := tk\<rparr>) = frame t" "frame (t\<lparr>tickets_held := n\<rparr>) = frame t"
  "frame (t\<lparr>waiters := w\<rparr>) = frame t" "frame (t\<lparr>slots := ss\<rparr>) = frame t" "frame (upd_slot i g t) = frame t"
  "frame (t\<lparr>retiring_binding := rb\<rparr>) = frame t" "frame (leave_binding b t) = frame t" "frame (unindex_locked i t) = frame t"
  by (simp_all add: frame_def count_def upd_slot_def unindex_locked_def leave_binding_def split: option.split)

lemma cores_fields [simp]:
  "cores (count f t) = cores t" "cores (t\<lparr>index := ix\<rparr>) = cores t" "cores (t\<lparr>mem := m\<rparr>) = cores t"
  "cores (t\<lparr>non_free := n\<rparr>) = cores t" "cores (t\<lparr>clock_hand := h\<rparr>) = cores t" "cores (t\<lparr>in_flight := n\<rparr>) = cores t"
  "cores (t\<lparr>pins_total := n\<rparr>) = cores t" "cores (t\<lparr>tickets := tk\<rparr>) = cores t" "cores (t\<lparr>tickets_held := n\<rparr>) = cores t"
  "cores (t\<lparr>waiters := w\<rparr>) = cores t" "cores (t\<lparr>retiring_binding := rb\<rparr>) = cores t" "cores (leave_binding b t) = cores t"
  "cores (t\<lparr>current_binding := cb\<rparr>) = cores t" "cores (t\<lparr>next_binding := nb\<rparr>) = cores t" "cores (t\<lparr>current_generation := g\<rparr>) = cores t"
  "cores (t\<lparr>slots := ss\<rparr>) = map core ss"
  by (simp_all add: cores_def count_def)

lemma cores_upd_slot: "cores (upd_slot i f t) = (cores t)[i := core (f (slots t ! i))]"
  by (simp add: cores_def upd_slot_def map_update)

text \<open>Updates of a slot that do not touch its data.\<close>

lemma cores_kept:
  assumes "\<And>s. core (f s) = core s"
  shows "cores (upd_slot i f t) = cores t"
proof (cases "i < length (slots t)")
  case True
  then show ?thesis unfolding cores_upd_slot assms by (simp add: cores_def list_update_same_conv)
qed (simp add: cores_upd_slot, simp add: cores_def list_update_beyond)

lemma core_flags [simp]:
  "core (s\<lparr>s_indexed := x1\<rparr>) = core s" "core (s\<lparr>s_referenced := x2\<rparr>) = core s" "core (s\<lparr>s_finishing := x3\<rparr>) = core s"
  "core (s\<lparr>s_pins := x4\<rparr>) = core s" "core (s\<lparr>s_pins := x4, s_referenced := x2\<rparr>) = core s"
  by (simp_all add: core_def slot_key_def slot_span_def claims_of_def)

lemma cores_unindex [simp]: "cores (unindex_locked i t) = cores t"
  by (simp add: unindex_locked_def cores_kept)

lemma mem_fields [simp]:
  "mem (count f t) = mem t" "mem (upd_slot i g t) = mem t" "mem (unindex_locked i t) = mem t"
  by (simp_all add: count_def upd_slot_def unindex_locked_def)

lemma core_freed: "core (freed s) = (Free, slot_key s, slot_span s, [])"
  by (simp add: core_def freed_def slot_key_def slot_span_def claims_of_def)

lemma core_published:
  "core (published_slot conv result s) = ((if result = Ok then Ready else Failed), slot_key s, slot_span s, [])"
  by (simp add: core_def published_slot_def slot_key_def slot_span_def claims_of_def)

lemma core_data_dead: "st \<noteq> Filling \<Longrightarrow> st \<noteq> Ready \<Longrightarrow> core_data source snap cfg v out i (st, key, span, cs)"
  by (simp add: core_data_def)

context fills
begin

lemma data_inv_make_free:
  assumes inv: "data_inv source tp view good snap cfg R t" and i: "i < length (slots t)"
    and st: "s_state (slots t ! i) \<noteq> Filling" "s_state (slots t ! i) \<noteq> Free"
  shows "data_inv source tp view good snap cfg R (make_free tp i t)"
proof -
  note d = data_invD [OF inv]
  note r = contract_reset_claims [OF contract d(1), of "slots t ! i"]
  have m: "mem (make_free tp i t) = reset_claims tp (slots t ! i) (mem t)" by (simp add: make_free_eq i st(2))
  show ?thesis
  proof (rule data_inv_slot [OF inv i])
    show "frame (make_free tp i t) = frame t" by (simp add: make_free_eq i st(2) frame_def)
    show "cores (make_free tp i t) = (cores t)[i := (Free, slot_key (slots t ! i), slot_span (slots t ! i), [])]"
      by (simp add: make_free_eq i st(2) cores_def map_update core_freed)
    show "layout_ok cfg (make_free tp i t)" using d(3) layout_ok_cong [OF layout_make_free] by blast
    show "steps source tp view good (mem t) (mem (make_free tp i t))" using r m by simp
    show "c \<in> v_pending (view (mem t)) \<and> \<not> (s_state (slots t ! i) = Filling \<and> c \<in> set (claims_of (slots t ! i))) \<or>
        (\<exists>key span cs. (Free, slot_key (slots t ! i), slot_span (slots t ! i), []) = (Filling, key, span, cs) \<and> c \<in> set cs)"
      if "c \<in> v_pending (view (mem (make_free tp i t)))" for c
      using that m r movesD(4) [OF conjunct2 [OF stepsD [OF r(1)]]] st(1) by (auto simp: writers_def)
  qed (use m r in \<open>simp_all add: core_data_dead\<close>)
qed

lemma data_inv_claim_victim_loop:
  "claim_victim_loop tp k t = (r, t') \<Longrightarrow> data_inv source tp view good snap cfg R t \<Longrightarrow> table_inv t \<Longrightarrow>
     data_inv source tp view good snap cfg R t'"
proof (induction k arbitrary: t)
  case (Suc k)
  let ?i = "clock_hand t" and ?h = "if clock_hand t + 1 = length (slots t) then 0 else clock_hand t + 1"
  let ?t = "t\<lparr>clock_hand := ?h\<rparr>" and ?s = "slots t ! clock_hand t"
  have i: "?i < length (slots t)" and h: "?h < length (slots t)" using table_invD(1) [OF Suc.prems(3)] by auto
  have inv: "table_inv ?t" using inv_clock_hand [OF Suc.prems(3) h] .
  have di: "data_inv source tp view good snap cfg R ?t" using Suc.prems(2) data_inv_cong [of ?t t] by simp
  consider "s_state ?s = Free" | "s_state ?s \<noteq> Free" "s_pins ?s \<noteq> 0 \<or> s_state ?s = Filling"
    | "s_pins ?s = 0" "s_state ?s = Failed" | "s_pins ?s = 0" "s_state ?s = Ready" "s_referenced ?s"
    | "s_pins ?s = 0" "s_state ?s = Ready" "\<not> s_referenced ?s"
    by (cases "s_state ?s") auto
  then show ?case
  proof cases
    case 1
    then show ?thesis using Suc.prems(1) di by (auto simp: Let_def)
  next
    case 2
    then have "claim_victim_loop tp k ?t = (r, t')" using Suc.prems(1) by (auto simp: Let_def)
    then show ?thesis by (rule Suc.IH [OF _ di inv])
  next
    case 3
    then show ?thesis using Suc.prems(1) data_inv_make_free [OF di, of ?i] i by (auto simp: Let_def)
  next
    case 4
    let ?u = "upd_slot ?i (\<lambda>s. s\<lparr>s_referenced := False\<rparr>) ?t"
    have "claim_victim_loop tp k ?u = (r, t')" using Suc.prems(1) 4 by (auto simp: Let_def)
    moreover have "data_inv source tp view good snap cfg R ?u" using di data_inv_cong [of ?u ?t] by (simp add: cores_kept)
    moreover have "table_inv ?u" using inv_unreference [OF inv] i by simp
    ultimately show ?thesis by (rule Suc.IH)
  next
    case 5
    let ?c = "count (\<lambda>c. c\<lparr>evictions := evictions c + 1\<rparr>) ?t"
    have "t' = make_free tp ?i ?c" using Suc.prems(1) 5 by (auto simp: Let_def)
    moreover have "slots ?c = slots t" by (simp add: count_def)
    moreover have "data_inv source tp view good snap cfg R ?c" using di data_inv_cong [of ?c ?t] by simp
    ultimately show ?thesis using data_inv_make_free [of R ?c ?i] i 5 by simp
  qed
qed simp

lemma data_inv_claim_victim:
  "claim_victim tp t = (r, t') \<Longrightarrow> data_inv source tp view good snap cfg R t \<Longrightarrow> table_inv t \<Longrightarrow>
     data_inv source tp view good snap cfg R t'"
  unfolding claim_victim_def by (rule data_inv_claim_victim_loop)

end

section \<open>Starting a fill\<close>

lemma unat_add_small: "unat (x :: u64) + k < 2 ^ 64 \<Longrightarrow> unat (x + of_nat k) = unat x + k"
  by (simp add: unat_word_ariths unat_of_nat)

lemma core_admitted:
  "core (admitted t row s) = (Filling, (row, current_generation t), slot_span s, claims_of s)"
  by (simp add: core_def admitted_def slot_key_def slot_span_def claims_of_def)

lemma frame_admit [simp]: "frame (admit_slot i row t) = frame t"
  by (simp add: admit_slot_def Let_def)

lemma mem_admit [simp]: "mem (admit_slot i row t) = mem t"
  by (simp add: admit_slot_def Let_def)

lemma parts_fail_fill:
  assumes "i < length (slots t)"
  shows "frame (snd (fail_fill i st t)) = frame t" and "mem (snd (fail_fill i st t)) = mem t"
    and "\<exists>x. cores (snd (fail_fill i st t)) = (cores t)[i := (Failed, x)]"
proof -
  show "frame (snd (fail_fill i st t)) = frame t" "mem (snd (fail_fill i st t)) = mem t" by (simp_all add: fail_fill_def Let_def)
  show "\<exists>x. cores (snd (fail_fill i st t)) = (cores t)[i := (Failed, x)]"
    by (rule exI [of _ "snd (core (slots t ! i))"])
      (use assms in \<open>simp add: fail_fill_def Let_def upd_slot_def unindex_locked_eq cores_def map_update core_def
        slot_key_def slot_span_def claims_of_def\<close>)
qed

lemma parts_fill_started:
  assumes "i < length (slots t)"
  shows "frame (fill_started i location head t) = frame t" and "mem (fill_started i location head t) = mem t"
    and "active_codec t = None \<Longrightarrow> cores (fill_started i location head t) =
       (cores t)[i := (s_state (slots t ! i), slot_key (slots t ! i), (head, br_length (loc_range location)), claims_of (slots t ! i))]"
  using assms by (simp_all add: fill_started_def frame_def count_def upd_slot_def cores_def map_update core_def
      slot_key_def slot_span_def claims_of_def)

context fills
begin

text \<open>The window of a row, as the checks leave it.\<close>

lemma plan_of:
  assumes snap: "snap gen = (sources, resolve)" and loc: "resolve_location cfg sources resolve row = Inr location"
    and win: "fill_window (c_fill_alignment cfg) (sh_bytes (sources ! unat (loc_shard location))) (loc_range location) = (fill, head)"
  shows "fill_plan snap cfg (row, gen) = Some \<lparr>p_source = sh_source (sources ! unat (loc_shard location)),
      p_off = unat (br_offset fill), p_len = unat (br_length fill), p_head = head, p_row = br_length (loc_range location)\<rparr>"
    and "unat (loc_shard location) < length sources"
    and "unat (br_offset fill) + unat (br_length fill) \<le> unat (sh_bytes (sources ! unat (loc_shard location)))"
    and "unat (br_length fill) \<le> row_width cfg"
    and "unat (br_offset fill) + unat head = unat (br_offset (loc_range location))"
    and "unat head + unat (br_length (loc_range location)) \<le> unat (br_length fill)"
    and "unat (sh_bytes (sources ! unat (loc_shard location))) \<le> length (source (sh_source (sources ! unat (loc_shard location))))"
proof -
  let ?shard = "sources ! unat (loc_shard location)"
  show "fill_plan snap cfg (row, gen) = Some \<lparr>p_source = sh_source ?shard,
      p_off = unat (br_offset fill), p_len = unat (br_length fill), p_head = head, p_row = br_length (loc_range location)\<rparr>"
    using assms by (simp add: fill_plan_def)
  have "\<not> unat (loc_shard location) \<ge> length sources \<and> \<not> br_offset (loc_range location) > sh_bytes ?shard \<and>
      \<not> br_length (loc_range location) > sh_bytes ?shard - br_offset (loc_range location)"
    using loc by (auto simp: resolve_location_def Let_def split: sum.splits if_splits)
  then have inside: "unat (br_offset (loc_range location)) + unat (br_length (loc_range location)) \<le> unat (sh_bytes ?shard)"
    and shard: "unat (loc_shard location) < length sources"
    by (auto simp: word_le_nat_alt unat_sub not_less not_le)
  then have size: "unat (sh_bytes ?shard) \<le> length (source (sh_source ?shard))" "unat (sh_bytes ?shard) + unat (c_fill_alignment cfg) \<le> 2 ^ 64"
    using sizes snap unfolding sources_fit_def by (metis fst_conv nth_mem)+
  show "unat (loc_shard location) < length sources" "unat (sh_bytes ?shard) \<le> length (source (sh_source ?shard))"
    using shard size by simp_all
  show "unat (br_length fill) \<le> row_width cfg" by (rule fill_fits_slot [OF checked identity fits loc win size(2)])
  have "unat (br_offset fill) + unat (br_length fill) \<le> unat (sh_bytes ?shard) \<and>
      unat (br_offset fill) + unat head = unat (br_offset (loc_range location)) \<and>
      unat head + unat (br_length (loc_range location)) \<le> unat (br_length fill)"
  proof (cases "c_fill_alignment cfg = 0")
    case True
    then show ?thesis using win inside by (auto simp: fill_window_def)
  next
    case False
    note c = fill_window_covers [OF win False inside size(2)]
    show ?thesis using c(1,4,5) by simp
  qed
  then show "unat (br_offset fill) + unat (br_length fill) \<le> unat (sh_bytes ?shard)"
    "unat (br_offset fill) + unat head = unat (br_offset (loc_range location))"
    "unat head + unat (br_length (loc_range location)) \<le> unat (br_length fill)" by simp_all
qed

text \<open>Without chunks, nothing outstanding writes to the window of a slot that is not Filling.\<close>

lemma window_free:
  assumes inv: "data_inv source tp view good snap cfg R t" and one: "chunks_per_row_of cfg \<le> 1"
    and i: "i < length (slots t)" "s_state (slots t ! i) \<noteq> Filling" and k: "k < row_width cfg"
  shows "\<not> covers (view (mem t)) (v_pending (view (mem t))) (i * row_width cfg + k)"
proof
  let ?w = "row_width cfg"
  note d = data_invD [OF inv]
  assume "covers (view (mem t)) (v_pending (view (mem t))) (i * ?w + k)"
  then obtain c off len where c: "c \<in> v_pending (view (mem t))" "v_dest (view (mem t)) c = (Output_storage, off, len)"
    and at: "off \<le> i * ?w + k" "i * ?w + k < off + len" by (auto simp: covers_def)
  obtain key span cs where "(Filling, key, span, cs) \<in> set (cores t)" and own: "c \<in> set cs"
    using d(8) [OF one] c unfolding fills_own_def by (metis fst_conv)
  then obtain j where j: "j < length (slots t)" "core (slots t ! j) = (Filling, key, span, cs)"
    by (auto simp: cores_def in_set_conv_nth)
  then have "j \<noteq> i" using i(2) by (auto simp: core_def)
  from d(7) [OF j(1)] obtain p where p: "p_len p \<le> ?w"
      "fill_data source (view (mem t)) (tp_output tp (mem t)) (j * ?w) p cs (fill_reads cfg (p_len p))"
    unfolding j(2) core_data_def by auto
  then have "list_all2 (claim_at source (view (mem t)) (tp_output tp (mem t)) (j * ?w) p) cs (fill_reads cfg (p_len p))"
    by (simp add: fill_data_def)
  moreover obtain m where m: "m < length cs" "c = cs ! m" using own by (auto simp: in_set_conv_nth)
  ultimately obtain r where r: "r \<in> set (fill_reads cfg (p_len p))" "claim_at source (view (mem t)) (tp_output tp (mem t)) (j * ?w) p c r"
    using list_all2_nthD list_all2_lengthD nth_mem by metis
  obtain a n where "r = (a, n)" by fastforce
  then have "off = j * ?w + a" "len = n" "a + n \<le> ?w" using r c(2) reads_inside p(1) by (fastforce simp: claim_at_def)+
  moreover have "Suc i * ?w \<le> j * ?w \<or> Suc j * ?w \<le> i * ?w"
    using \<open>j \<noteq> i\<close> mult_le_mono1 [of "Suc i" j ?w] mult_le_mono1 [of "Suc j" i ?w] by linarith
  ultimately show False using at k by auto
qed

end

text \<open>What a submission leaves: the claims of the plan \<open>p\<close>, or a failed slot.\<close>

definition submitted_data :: "(source_id \<Rightarrow> bytes) \<Rightarrow> 'm transport \<Rightarrow> ('m \<Rightarrow> view) \<Rightarrow> ('m \<Rightarrow> bool) \<Rightarrow> table_config \<Rightarrow>
    nat \<Rightarrow> plan \<Rightarrow> row_key \<Rightarrow> 'm table \<Rightarrow> status option \<Rightarrow> 'm table \<Rightarrow> bool" where
  "submitted_data source tp view good cfg i p key t r u \<longleftrightarrow>
     frame u = frame t \<and> steps source tp view good (mem t) (mem u) \<and> length (slots u) = length (slots t) \<and> active_codec u = None \<and>
     (\<forall>c \<in> v_issued (view (mem u)) - v_issued (view (mem t)).
        \<exists>at n. v_dest (view (mem u)) c = (Output_storage, i * row_width cfg + at, n) \<and> at + n \<le> row_width cfg) \<and>
     (if r = None then
        \<exists>cs span. cores u = (cores t)[i := (Filling, key, span, cs)] \<and>
          fill_data source (view (mem u)) (tp_output tp (mem u)) (i * row_width cfg) p cs (fill_reads cfg (p_len p)) \<and>
          (chunks_per_row_of cfg \<le> 1 \<longrightarrow> v_issued (view (mem u)) - v_issued (view (mem t)) \<subseteq> set cs)
      else (\<exists>x. cores u = (cores t)[i := (Failed, x)]) \<and>
        (chunks_per_row_of cfg \<le> 1 \<longrightarrow> v_issued (view (mem u)) = v_issued (view (mem t))))"

lemma submitted_dataI:
  assumes "frame u = frame t" and "steps source tp view good (mem t) (mem u)" and "length (slots u) = length (slots t)"
    and "active_codec u = None"
    and "\<And>c. c \<in> v_issued (view (mem u)) - v_issued (view (mem t)) \<Longrightarrow>
        \<exists>at n. v_dest (view (mem u)) c = (Output_storage, i * row_width cfg + at, n) \<and> at + n \<le> row_width cfg"
  shows "cores u = (cores t)[i := (Filling, key, span, cs)] \<Longrightarrow>
      fill_data source (view (mem u)) (tp_output tp (mem u)) (i * row_width cfg) p cs (fill_reads cfg (p_len p)) \<Longrightarrow>
      (chunks_per_row_of cfg \<le> 1 \<Longrightarrow> v_issued (view (mem u)) - v_issued (view (mem t)) \<subseteq> set cs) \<Longrightarrow>
      submitted_data source tp view good cfg i p key t None u"
    and "cores u = (cores t)[i := (Failed, x)] \<Longrightarrow>
      (chunks_per_row_of cfg \<le> 1 \<Longrightarrow> v_issued (view (mem u)) = v_issued (view (mem t))) \<Longrightarrow>
      submitted_data source tp view good cfg i p key t (Some st) u"
  unfolding submitted_data_def using assms by (simp_all only: if_True if_False option.distinct refl simp_thms) blast+

context fills
begin

lemma submit_one_data:
  assumes inv: "data_inv source tp view good snap cfg R t" and one: "chunks_per_row_of cfg \<le> 1"
    and i: "i < length (slots t)" "s_state (slots t ! i) = Free" "s_claim (slots t ! i) = None" "s_chunk_claims (slots t ! i) = []"
    and p: "p_off p = unat (br_offset fill)" "p_len p = unat (br_length fill)" "p_len p \<le> row_width cfg"
    and set: "v_set (view (mem t)) (b_row_transfers (current_binding t) ! unat (loc_shard location)) = Some (p_source p, size_n, Output_storage)"
    and run: "submit_fill tp i location fill (admit_slot i row t) = (r, u)"
  shows "submitted_data source tp view good cfg i p (row, current_generation t) t r u"
proof -
  note d = data_invD [OF inv]
  let ?a = "admit_slot i row t" and ?b = "of_nat i * c_output_row_bytes cfg" and ?w = "row_width cfg"
  let ?ts = "b_row_transfers (current_binding t) ! unat (loc_shard location)"
  have a: "config ?a = cfg" "active_codec ?a = None" "chunks_per_row ?a = chunks_per_row_of cfg" "current_binding ?a = current_binding t"
    "slots ?a = (slots t)[i := admitted t row (slots t ! i)]"
    using d(4,9,10) i(1) by (simp_all add: admit_slot_eq)
  have plain: "\<not> chunks_per_row_of cfg > 1" using one by (simp add: not_less)
  have room: "i * ?w + ?w < 2 ^ 64" "i * ?w + ?w \<le> length (tp_output tp (mem t))" using slot_room i(1) d(5,11) by simp_all
  have b: "unat ?b = i * ?w" using room(1) by (simp add: unat_word_ariths unat_of_nat mod_mult_left_eq)
  obtain e m where sub: "tp_submit tp ?ts fill ?b (mem t) = (e, m)" by fastforce
  note s = contract_submit [OF contract d(1) sub]
  show ?thesis
  proof (cases e)
    case (Inl error)
    then have "u = snd (fail_fill i (from_mempage error) (?a\<lparr>mem := m\<rparr>))" "r = Some (from_mempage error)"
      using run sub plain by (simp_all add: submit_fill_def a Let_def split_beta map_prod_def) (auto simp: fail_fill_def Let_def)
    moreover have "i < length (slots (?a\<lparr>mem := m\<rparr>))" using i(1) a(5) by simp
    note f = parts_fail_fill [OF this, of "from_mempage error"]
    moreover have "active_codec u = None" "length (slots u) = length (slots t)"
      using calculation(1) a i(1) by (simp_all add: fail_fill_def Let_def upd_slot_def unindex_locked_def)
    ultimately show ?thesis using s(1,2) Inl a by (auto simp: submitted_data_def cores_def map_update)
  next
    case (Inr c)
    then have u: "u = upd_slot i (\<lambda>s. s\<lparr>s_claim := Some c\<rparr>) (?a\<lparr>mem := m\<rparr>)" "r = None"
      using run sub plain by (simp_all add: submit_fill_def a Let_def)
    have iss: "v_issued (view m) = insert c (v_issued (view (mem t)))" and dest: "v_dest (view m) c = (Output_storage, i * ?w, p_len p)"
      using s(3,4) [OF Inr] set b p by simp_all
    have "fill_data source (view m) (tp_output tp m) (i * ?w) p ([] @ [c]) ([] @ [(0, p_len p)])"
      by (rule fill_data_submit [OF contract d(1) _ _ sub [unfolded Inr] set])
        (use b p room window_free [OF inv one i(1)] i(2) in \<open>auto simp: fill_data_def apart_def\<close>)
    moreover have "core (slots u ! i) = (Filling, (row, current_generation t), slot_span (slots t ! i), [c])"
      using u a i by (simp add: upd_slot_def core_def admitted_def slot_key_def slot_span_def claims_of_def)
    then have "cores u = (cores t)[i := (Filling, (row, current_generation t), slot_span (slots t ! i), [c])]"
      using u a i(1) by (simp add: cores_def upd_slot_def map_update)
    moreover have "mem u = m" "frame u = frame t" "length (slots u) = length (slots t)" "active_codec u = None"
      using u a i(1) by (simp_all add: upd_slot_def)
    moreover have "\<exists>at n. v_dest (view m) c' = (Output_storage, i * ?w + at, n) \<and> at + n \<le> ?w"
      if "c' \<in> v_issued (view m) - v_issued (view (mem t))" for c'
      using that iss dest p(3) by (intro exI [of _ 0] exI [of _ "p_len p"]) auto
    moreover have "v_issued (view m) - v_issued (view (mem t)) \<subseteq> set [c]" "fill_reads cfg (p_len p) = [(0, p_len p)]"
      using iss plain by (auto simp: fill_reads_def)
    ultimately show ?thesis
      unfolding u(2) using s(1) by (intro submitted_dataI(1) [where cs = "[c]" and span = "slot_span (slots t ! i)"]) simp_all
  qed
qed

lemma submit_chunked_data:
  assumes inv: "data_inv source tp view good snap cfg R t" and more: "chunks_per_row_of cfg > 1"
    and i: "i < length (slots t)" "s_state (slots t ! i) = Free" "s_claim (slots t ! i) = None" "s_chunk_claims (slots t ! i) = []"
    and p: "p_off p = unat (br_offset fill)" "p_len p = unat (br_length fill)" "p_len p \<le> row_width cfg" "p_off p + p_len p < 2 ^ 64"
    and set: "v_set (view (mem t)) (b_row_transfers (current_binding t) ! unat (loc_shard location)) = Some (p_source p, size_n, Output_storage)"
    and run: "submit_fill tp i location fill (admit_slot i row t) = (r, u)"
  shows "submitted_data source tp view good cfg i p (row, current_generation t) t r u"
proof -
  note d = data_invD [OF inv]
  let ?a = "admit_slot i row t" and ?b = "of_nat i * c_output_row_bytes cfg" and ?w = "row_width cfg"
  let ?ts = "b_row_transfers (current_binding t) ! unat (loc_shard location)" and ?reads = "fill_reads cfg (p_len p)"
  have a: "config ?a = cfg" "active_codec ?a = None" "chunks_per_row ?a = chunks_per_row_of cfg" "current_binding ?a = current_binding t"
    "slots ?a = (slots t)[i := admitted t row (slots t ! i)]"
    using d(4,9,10) i(1) by (simp_all add: admit_slot_eq)
  have room: "i * ?w + ?w < 2 ^ 64" "i * ?w + ?w \<le> length (tp_output tp (mem t))" using slot_room i(1) d(5,11) by simp_all
  have b: "unat ?b = i * ?w" using room(1) by (simp add: unat_word_ariths unat_of_nat mod_mult_left_eq)
  have reads: "?reads = chunk_reads (unat (c_fill_chunk_bytes cfg)) 0 (unat (br_length fill))" using more p(2) by (simp add: fill_reads_def)
  obtain e cs m where sub: "submit_chunks tp ?ts (br_offset fill) ?b ?reads (mem t) = (e, cs, m)" by (metis prod_cases3)
  have strict: "refuses_overlap tp view" using guarded leD [of "chunks_per_row_of cfg" 1] more by blast
  have ins: "x + n \<le> ?w" "x + n \<le> p_len p" if "(x, n) \<in> set ?reads" for x n using reads_inside [OF that] p(3) by simp_all
  have sd: "steps source tp view good (mem t) m \<and>
     (\<forall>c \<in> v_issued (view m) - v_issued (view (mem t)). \<exists>(at, n) \<in> set ?reads. v_dest (view m) c = (Output_storage, i * ?w + at, n)) \<and>
     (e = None \<longrightarrow> fill_data source (view m) (tp_output tp m) (i * ?w) p ([] @ cs) ([] @ ?reads))"
  proof (rule submit_chunks_data [OF contract strict sub d(1) _ _ set])
    show "\<forall>(at, n) \<in> set ?reads. unat (?b + of_nat at) = i * ?w + at \<and> unat (of_nat n :: u64) = n \<and>
        unat (br_offset fill + of_nat at) = p_off p + at"
    proof clarify
      fix at n assume "(at, n) \<in> set ?reads"
      from ins [OF this] show "unat (?b + of_nat at) = i * ?w + at \<and> unat (of_nat n :: u64) = n \<and>
          unat (br_offset fill + of_nat at) = p_off p + at"
        using room(1) p(1,4) b unat_add_small [of ?b at] unat_add_small [of "br_offset fill" at] by (simp add: unat_of_nat)
    qed
    show "\<forall>(at, n) \<in> set ([] @ ?reads). i * ?w + at + n \<le> length (tp_output tp (mem t))"
      using ins(1) room(2) by fastforce
  qed (use fill_reads_apart in \<open>simp_all add: fill_data_def\<close>)
  show ?thesis
  proof (cases e)
    case (Some error)
    let ?m = "foldl (\<lambda>m c. tp_reset tp c m) m cs"
    have u: "u = snd (fail_fill i (from_mempage error) (?a\<lparr>mem := ?m\<rparr>))" "r = Some (from_mempage error)"
      using run sub more Some by (simp_all add: submit_fill_def a Let_def reads) (auto simp: fail_fill_def Let_def)
    have "i < length (slots (?a\<lparr>mem := ?m\<rparr>))" using i(1) a(5) by simp
    note f = parts_fail_fill [OF this, of "from_mempage error"]
    have more_u: "active_codec u = None" "length (slots u) = length (slots t)" "mem u = ?m"
      using u(1) a i(1) by (simp_all add: fail_fill_def Let_def upd_slot_def unindex_locked_def)
    have gm: "good m" using stepsD [OF conjunct1 [OF sd]] by simp
    note rs = contract_resets [OF contract gm, of cs]
    have dest: "v_dest (view ?m) c = v_dest (view m) c" if "c \<in> v_issued (view m)" for c
      using movesD(5) [OF conjunct2 [OF stepsD [OF conjunct1 [OF rs]]] that] .
    have new: "\<exists>at n. v_dest (view (mem u)) c = (Output_storage, i * ?w + at, n) \<and> at + n \<le> ?w"
      if "c \<in> v_issued (view (mem u)) - v_issued (view (mem t))" for c
    proof -
      have "c \<in> v_issued (view m) - v_issued (view (mem t))" using that rs more_u(3) by simp
      then show ?thesis using sd dest [of c] ins(1) unfolding more_u(3) by fastforce
    qed
    have st: "steps source tp view good (mem t) (mem u)"
      unfolding more_u(3) by (rule steps_trans [OF conjunct1 [OF sd] conjunct1 [OF rs] contract d(1)])
    have fr: "frame u = frame t" using f(1) u(1) by simp
    obtain x where x: "cores u = (cores t)[i := (Failed, x)]"
      using f(3) u(1) a(5) i(1) by (auto simp: cores_def map_update)
    show ?thesis
      unfolding u(2) by (rule submitted_dataI(2) [OF fr st more_u(2,1) new x]) (use more in simp_all)
  next
    case None
    then have u: "u = upd_slot i (\<lambda>s. s\<lparr>s_chunk_claims := cs\<rparr>) (?a\<lparr>mem := m\<rparr>)" "r = None"
      using run sub more by (simp_all add: submit_fill_def a Let_def reads)
    have "core (slots u ! i) = (Filling, (row, current_generation t), slot_span (slots t ! i), cs)"
      using u a i by (simp add: upd_slot_def core_def admitted_def slot_key_def slot_span_def claims_of_def)
    then have "cores u = (cores t)[i := (Filling, (row, current_generation t), slot_span (slots t ! i), cs)]"
      using u a i(1) by (simp add: cores_def upd_slot_def map_update)
    moreover have fu: "mem u = m" "frame u = frame t" "length (slots u) = length (slots t)" "active_codec u = None"
      using u a i(1) by (simp_all add: upd_slot_def)
    moreover have "\<exists>at n. v_dest (view (mem u)) c = (Output_storage, i * ?w + at, n) \<and> at + n \<le> ?w"
      if "c \<in> v_issued (view (mem u)) - v_issued (view (mem t))" for c
      using sd ins(1) that unfolding fu(1) by fastforce
    moreover have "steps source tp view good (mem t) (mem u)" unfolding fu(1) by (rule conjunct1 [OF sd])
    ultimately show ?thesis
      unfolding u(2) using sd None more
      by (intro submitted_dataI(1) [where cs = cs and span = "slot_span (slots t ! i)"]) (simp_all add: not_less [symmetric])
  qed
qed

end

context fills
begin

lemma admit_parts:
  assumes "i < length (slots t)"
  shows "cores (admit_slot i row t) = (cores t)[i := (Filling, (row, current_generation t), slot_span (slots t ! i), claims_of (slots t ! i))]"
    and "i < length (slots (admit_slot i row t))"
  using assms by (simp_all add: admit_slot_eq cores_def map_update core_admitted)

text \<open>The two ways a start can end: the slot is Failed, or Filling with the claims of its plan.\<close>

lemma data_inv_start_failed:
  assumes inv: "data_inv source tp view good snap cfg R t" and i: "i < length (slots t)" "s_state (slots t ! i) \<noteq> Filling"
    and ok: "layout_ok cfg t'" and parts: "frame t' = frame t" "cores t' = (cores t)[i := (Failed, x)]"
    and st: "steps source tp view good (mem t) (mem t')"
    and new: "\<forall>c \<in> v_issued (view (mem t')) - v_issued (view (mem t)).
         \<exists>at n. v_dest (view (mem t')) c = (Output_storage, i * row_width cfg + at, n) \<and> at + n \<le> row_width cfg"
    and one: "chunks_per_row_of cfg \<le> 1 \<longrightarrow> v_issued (view (mem t')) = v_issued (view (mem t))"
  shows "data_inv source tp view good snap cfg R t'"
proof (rule data_inv_slot [OF inv i(1) parts ok st])
  show "core_data source snap cfg (view (mem t')) (tp_output tp (mem t')) i (Failed, x)" by (cases x) (simp add: core_data_dead)
  show "c \<in> v_pending (view (mem t)) \<and> \<not> (s_state (slots t ! i) = Filling \<and> c \<in> set (claims_of (slots t ! i))) \<or>
      (\<exists>key span cs. (Failed, x) = (Filling, key, span, cs) \<and> c \<in> set cs)"
    if "chunks_per_row_of cfg \<le> 1" "c \<in> v_pending (view (mem t'))" for c
    using that one movesD(4) [OF conjunct2 [OF stepsD [OF st]]] i(2) by (auto simp: writers_def)
qed (use new in blast)

lemma data_inv_started:
  assumes inv: "data_inv source tp view good snap cfg R t" and i: "i < length (slots t)" "s_state (slots t ! i) \<noteq> Filling"
    and sd: "submitted_data source tp view good cfg i p key t None u" and t': "t' = fill_started i location (p_head p) u"
    and ok: "layout_ok cfg t'"
    and p: "fill_plan snap cfg key = Some p" "p_len p \<le> row_width cfg" "p_row p = br_length (loc_range location)"
  shows "data_inv source tp view good snap cfg R t'"
proof -
  have s: "frame u = frame t" "steps source tp view good (mem t) (mem u)" "length (slots u) = length (slots t)" "active_codec u = None"
    and new: "\<forall>c \<in> v_issued (view (mem u)) - v_issued (view (mem t)).
       \<exists>at n. v_dest (view (mem u)) c = (Output_storage, i * row_width cfg + at, n) \<and> at + n \<le> row_width cfg"
    using sd unfolding submitted_data_def by blast+
  obtain cs span where c: "cores u = (cores t)[i := (Filling, key, span, cs)]"
    "fill_data source (view (mem u)) (tp_output tp (mem u)) (i * row_width cfg) p cs (fill_reads cfg (p_len p))"
    "chunks_per_row_of cfg \<le> 1 \<longrightarrow> v_issued (view (mem u)) - v_issued (view (mem t)) \<subseteq> set cs"
    using sd unfolding submitted_data_def by auto
  have iu: "i < length (slots u)" using s(3) i(1) by simp
  note f = parts_fill_started [OF iu, of location "p_head p"]
  have "core (slots u ! i) = (Filling, key, span, cs)"
    using arg_cong [OF c(1), of "\<lambda>xs. xs ! i"] iu i(1) by (simp add: cores_def)
  then have x: "cores t' = (cores t)[i := (Filling, key, (p_head p, p_row p), cs)]"
    using f(3) [OF s(4)] c(1) t' p(3) by (simp add: core_def)
  have mem: "mem t' = mem u" "frame t' = frame t" using f(1,2) t' s(1) by simp_all
  show ?thesis
  proof (rule data_inv_slot [OF inv i(1) mem(2) x ok])
    show "core_data source snap cfg (view (mem t')) (tp_output tp (mem t')) i (Filling, key, (p_head p, p_row p), cs)"
      unfolding mem using c(2) p(1,2) by (cases key) (simp add: core_data_def)
    show "c \<in> v_pending (view (mem t)) \<and> \<not> (s_state (slots t ! i) = Filling \<and> c \<in> set (claims_of (slots t ! i))) \<or>
      (\<exists>key' span' cs'. (Filling, key, (p_head p, p_row p), cs) = (Filling, key', span', cs') \<and> c \<in> set cs')"
      if "chunks_per_row_of cfg \<le> 1" "c \<in> v_pending (view (mem t'))" for c
      using that movesD(4) [OF conjunct2 [OF stepsD [OF s(2)]]] i(2) c(3) unfolding mem writers_def by auto
  qed (use s(2) new mem in simp_all)
qed

lemma data_inv_start_fill:
  assumes run: "start_fill_locked tp i row t = (st, t')" and inv: "data_inv source tp view good snap cfg R t" and ti: "table_inv t"
    and i: "i < length (slots t)" and free: "s_state (slots t ! i) = Free"
  shows "data_inv source tp view good snap cfg R t'"
proof -
  note d = data_invD [OF inv]
  let ?a = "admit_slot i row t" and ?key = "(row, current_generation t)" and ?b = "current_binding t"
  have ok: "layout_ok cfg t'" by (rule layout_ok_start_fill [OF run d(3) checked fits])
  have none: "s_claim (slots t ! i) = None" "s_chunk_claims (slots t ! i) = []" and nf: "s_state (slots t ! i) \<noteq> Filling"
    using table_invD(3) [OF ti i] free by (auto simp: slot_ok_def)
  have a: "config ?a = cfg" "current_binding ?a = ?b" using d(9) i by (simp_all add: admit_slot_eq)
  have snap: "snap (current_generation t) = (b_sources ?b, b_resolver ?b)"
    and rows: "list_all2 (\<lambda>shard ts. v_set (view (mem t)) ts = Some (sh_source shard, unat (sh_bytes shard), Output_storage))
       (b_sources ?b) (b_row_transfers ?b)" using d(6) by (simp_all add: binding_data_def)
  show ?thesis
  proof (cases "resolve_location cfg (b_sources ?b) (b_resolver ?b) row")
    case (Inl error)
    then have t': "t' = snd (fail_fill i error ?a)" using run a by (simp add: start_fill_locked_def Let_def)
    note f = parts_fail_fill [OF admit_parts(2) [OF i], of error row]
    obtain x where "cores t' = (cores t)[i := (Failed, x)]" using f(3) t' admit_parts(1) [OF i] by auto
    then show ?thesis
      by (intro data_inv_start_failed [OF inv i nf ok]) (use f(1,2) t' steps_refl [OF contract d(1)] in simp_all)
  next
    case (Inr location)
    let ?shard = "b_sources ?b ! unat (loc_shard location)"
    obtain fill head where win: "fill_window (c_fill_alignment cfg) (sh_bytes ?shard) (loc_range location) = (fill, head)" by fastforce
    note p = plan_of [OF snap Inr win]
    define p where "p = \<lparr>p_source = sh_source ?shard, p_off = unat (br_offset fill), p_len = unat (br_length fill),
        p_head = head, p_row = br_length (loc_range location)\<rparr>"
    have pp: "p_off p = unat (br_offset fill)" "p_len p = unat (br_length fill)" "p_len p \<le> row_width cfg" "p_off p + p_len p < 2 ^ 64"
      "fill_plan snap cfg ?key = Some p" "p_head p = head" "p_row p = br_length (loc_range location)"
      using p(1,3,4) unat_u64 [of "sh_bytes ?shard"] by (simp_all add: p_def)
    have set: "v_set (view (mem t)) (b_row_transfers ?b ! unat (loc_shard location)) = Some (p_source p, unat (sh_bytes ?shard), Output_storage)"
      using list_all2_nthD [OF rows p(2)] by (simp add: p_def)
    obtain r u where sub: "submit_fill tp i location fill ?a = (r, u)" by fastforce
    have sd: "submitted_data source tp view good cfg i p ?key t r u"
      using submit_one_data [OF inv _ i free none pp(1-3) set sub] submit_chunked_data [OF inv _ i free none pp(1-4) set sub]
      by (cases "chunks_per_row_of cfg \<le> 1") simp_all
    show ?thesis
    proof (cases r)
      case (Some error)
      then have "t' = u" using run Inr win sub a by (simp add: start_fill_locked_def Let_def)
      then show ?thesis using sd Some data_inv_start_failed [OF inv i nf ok] unfolding submitted_data_def by auto
    next
      case None
      then have "t' = fill_started i location (p_head p) u" using run Inr win sub a pp(6) by (simp add: start_fill_locked_def Let_def)
      then show ?thesis by (rule data_inv_started [OF inv i nf sd [unfolded None] _ ok pp(5,3,7)])
    qed
  qed
qed

end

section \<open>Publishing a fill\<close>

text \<open>The status the claims of a fill lead to: the first that is not ok, as \<open>wait_chunks\<close> finds it.\<close>

fun reported :: "(claim \<Rightarrow> mp_status option) \<Rightarrow> claim list \<Rightarrow> mp_status \<Rightarrow> bool" where
  "reported R [] raw \<longleftrightarrow> raw = MP_Ok"
| "reported R (c # cs) raw \<longleftrightarrow> (if R c = Some MP_Ok then reported R cs raw else raw \<noteq> MP_Ok \<and> R c = Some raw)"

lemma reported_Ok: "reported R cs MP_Ok \<Longrightarrow> c \<in> set cs \<Longrightarrow> R c = Some MP_Ok"
  by (induction cs) (auto split: if_splits)

lemma fill_done:
  assumes fd: "fill_data source v out base p cs (fill_reads cfg (p_len p))" and ok: "view_ok v"
    and all: "\<And>c. c \<in> set cs \<Longrightarrow> c \<in> v_done v" and k: "k < p_len p"
  shows "\<not> covers v (v_pending v) (base + k) \<and> out ! (base + k) = source (p_source p) ! (p_off p + k)"
proof -
  obtain at n where r: "(at, n) \<in> set (fill_reads cfg (p_len p))" "at \<le> k" "k < at + n" using reads_cover [OF k] by blast
  then obtain a where a: "a < length (fill_reads cfg (p_len p))" "fill_reads cfg (p_len p) ! a = (at, n)"
    by (auto simp: in_set_conv_nth)
  have l2: "list_all2 (claim_at source v out base p) cs (fill_reads cfg (p_len p))" using fd by (simp add: fill_data_def)
  then have len: "a < length cs" using a(1) by (simp add: list_all2_lengthD)
  have "claim_at source v out base p (cs ! a) (at, n)" using list_all2_nthD [OF l2 len] a(2) by simp
  moreover have "cs ! a \<in> v_done v" using all len by simp
  ultimately have "\<forall>j < n. out ! (base + at + j) = source (p_source p) ! (p_off p + at + j)" by (simp add: claim_at_def)
  moreover have "k - at < n" using r(2,3) by linarith
  ultimately have "out ! (base + at + (k - at)) = source (p_source p) ! (p_off p + at + (k - at))" by blast
  moreover have "v_pending v - set cs = v_pending v" using all view_okD(3) [OF ok] by blast
  then have "\<not> covers v (v_pending v) (base + at + (k - at))"
    using fd r unfolding fill_data_def by (metis (no_types, lifting) case_prodD less_diff_conv2 add.commute)
  ultimately show ?thesis using r(2) by (simp add: add.assoc)
qed

context fills
begin

lemma data_inv_publish:
  assumes inv: "data_inv source tp view good snap cfg R t" and ti: "table_inv t" and i: "i < length (slots t)"
    and fill: "s_state (slots t ! i) = Filling"
    and raw: "reported R (claims_of (slots t ! i)) raw" "raw \<noteq> MP_Timeout"
  shows "data_inv source tp view good snap cfg R (publish_fill tp i scratch (from_mempage raw) t)"
proof -
  note d = data_invD [OF inv]
  note res = d(13)
  let ?s = "slots t ! i" and ?v = "view (mem t)" and ?out = "tp_output tp (mem t)" and ?w = "row_width cfg"
  define t' where "t' = publish_fill tp i scratch (from_mempage raw) t"
  define st where "st = (if from_mempage raw = Ok then Ready else Failed)"
  have ix: "s_indexed ?s" using table_invD(3) [OF ti i] fill by (simp add: slot_ok_def)
  note f = publish_fill_fields [OF i ix t'_def]
  note r = contract_reset_claims [OF contract d(1), of ?s]
  have mv: "moves source (?v, ?out) (view (mem t'), tp_output tp (mem t'))" and iss: "v_issued (view (mem t')) = v_issued ?v"
    using stepsD [OF r(1)] r(2) f(18) by simp_all
  have x: "cores t' = (cores t)[i := (st, slot_key ?s, slot_span ?s, [])]"
    using f(1) by (simp add: cores_def map_update core_published st_def)
  from d(7) [OF i] fill obtain p where p: "fill_plan snap cfg (slot_key ?s) = Some p" "slot_span ?s = (p_head p, p_row p)" "p_len p \<le> ?w"
    and fd: "fill_data source ?v ?out (i * ?w) p (claims_of ?s) (fill_reads cfg (p_len p))"
    by (auto simp: core_data_def core_def)
  have over: "c \<in> v_done ?v" "c \<notin> v_pending ?v" if "raw = MP_Ok" "c \<in> set (claims_of ?s)" for c
    using reported_Ok [of R "claims_of ?s" c] that raw(1) res by (auto simp: results_ok_def)
  have "data_inv source tp view good snap cfg R t'"
  proof (rule data_inv_slot [OF inv i _ x])
    show "frame t' = frame t" using f(11,13,15,16,19) frame_fields(14) [of "s_fill_binding ?s" t] by (simp add: frame_def)
    show "layout_ok cfg t'" using d(3) layout_ok_cong [OF layout_publish] unfolding t'_def by blast
    show "steps source tp view good (mem t) (mem t')" using r(1) f(18) by simp
    show "core_data source snap cfg (view (mem t')) (tp_output tp (mem t')) i (st, slot_key ?s, slot_span ?s, [])"
    proof (rule core_data_moves [OF _ d(2) mv])
      have "raw = MP_Ok" if "from_mempage raw = Ok" using that by (cases raw) simp_all
      then show "core_data source snap cfg ?v ?out i (st, slot_key ?s, slot_span ?s, [])"
        using fill_done [OF fd d(2)] over p by (simp add: core_data_def st_def)
    qed (use iss slot_room(1) i d(5,11) in \<open>simp_all add: covers_def\<close>)
    show "c \<in> v_pending ?v \<and> \<not> (s_state ?s = Filling \<and> c \<in> set (claims_of ?s)) \<or>
        (\<exists>key span cs. (st, slot_key ?s, slot_span ?s, []) = (Filling, key, span, cs) \<and> c \<in> set cs)"
      if one: "chunks_per_row_of cfg \<le> 1" and c: "c \<in> v_pending (view (mem t'))" for c
    proof -
      have "fill_reads cfg (p_len p) = [(0, p_len p)]" using one by (simp add: fill_reads_def not_less [symmetric])
      then have "length (claims_of ?s) = 1" using fd list_all2_lengthD unfolding fill_data_def by fastforce
      then obtain c0 where c0: "claims_of ?s = [c0]" by (auto simp: length_Suc_conv)
      have "R c0 = Some raw" using raw(1) c0 by (auto split: if_splits)
      then have "c0 \<notin> v_pending ?v" using res raw(2) by (simp add: results_ok_def)
      moreover have "c \<in> v_pending ?v" using c movesD(4) [OF mv] iss by (auto simp: writers_def)
      ultimately show ?thesis using c0 by auto
    qed
  qed (use iss in simp)
  then show ?thesis by (simp add: t'_def)
qed

end

end
