(* ===== verification/Lease_Data.thy ===== *)
theory Lease_Data
  imports Data_Inv
begin

text \<open>
  The bytes of a lease, end to end: the table's threads and the transport take their steps in any order, and a lease on a
  Ready row shows exactly the bytes that the caller's sources have at the location of the row.
\<close>

section \<open>The other operations\<close>

context fills
begin

lemma data_inv_pin: "data_inv source tp view good snap cfg R (pin_slot i t) = data_inv source tp view good snap cfg R t"
  by (rule data_inv_cong) (simp_all add: pin_slot_def cores_kept)

lemma data_inv_count: "data_inv source tp view good snap cfg R (count f t) = data_inv source tp view good snap cfg R t"
  by (rule data_inv_cong) simp_all

lemma data_inv_try_get:
  "try_get row t = (r, t') \<Longrightarrow> data_inv source tp view good snap cfg R t \<Longrightarrow> data_inv source tp view good snap cfg R t'"
  by (auto simp: try_get_def Let_def data_inv_pin data_inv_count split: if_splits option.splits)

text \<open>A victim is claimed and its fill is started: the miss branch of \<open>admit_row\<close> and of \<open>prefetch_row\<close>.\<close>

lemma data_inv_miss:
  assumes v: "claim_victim tp t = (Some i, t1)" and s: "start_fill_locked tp i row t1 = (st, t2)"
    and inv: "data_inv source tp view good snap cfg R t" and ti: "table_inv t"
  shows "data_inv source tp view good snap cfg R t2"
proof -
  note c = claim_victim_result [OF v ti]
  have "table_inv t1" "length (slots t1) = length (slots t)" using c(1) by (simp_all add: evicts_def env_of_eq)
  then show ?thesis
    using data_inv_start_fill [OF s data_inv_claim_victim [OF v inv ti]] c(2) by simp
qed

lemma data_inv_admit_row:
  assumes run: "admit_row tp row t = (r, t')" and inv: "data_inv source tp view good snap cfg R t" and ti: "table_inv t"
  shows "data_inv source tp view good snap cfg R t'"
proof (cases "table_find t row (current_generation t)")
  case None
  obtain victim t1 where v: "claim_victim tp t = (victim, t1)" by fastforce
  show ?thesis
  proof (cases victim)
    case none: None
    then show ?thesis using run None v data_inv_claim_victim [OF v inv ti] by (simp add: admit_row_def)
  next
    case (Some i)
    obtain st t2 where s: "start_fill_locked tp i row t1 = (st, t2)" by fastforce
    have "t' = t2 \<or> t' = pin_slot i t2" using run None v Some s by (auto simp: admit_row_def Let_def split: if_splits)
    then show ?thesis using data_inv_miss [OF v [unfolded Some] s inv ti] data_inv_pin by auto
  qed
next
  case (Some i)
  then show ?thesis using run inv by (auto simp: admit_row_def Let_def data_inv_pin data_inv_count split: if_splits)
qed

lemma data_inv_admit_rows:
  "admit_rows tp rows t = (failure, ls, t') \<Longrightarrow> data_inv source tp view good snap cfg R t \<Longrightarrow> table_inv t \<Longrightarrow>
     data_inv source tp view good snap cfg R t'"
proof (induction rows arbitrary: failure ls t)
  case (Cons row rows)
  obtain r u where row: "admit_row tp row t = (r, u)" by fastforce
  have "data_inv source tp view good snap cfg R u" by (rule data_inv_admit_row [OF row Cons.prems(2,3)])
  moreover have "table_inv u" using admit_row_result(1) [OF Cons.prems(3) row] by (simp add: admits_def)
  ultimately show ?case using Cons.prems(1) row Cons.IH [of u] by (auto split: sum.splits prod.splits)
qed simp

lemma data_inv_prefetch_row:
  assumes run: "prefetch_row tp row t = (entry, t')" and inv: "data_inv source tp view good snap cfg R t" and ti: "table_inv t"
  shows "data_inv source tp view good snap cfg R t'"
proof (cases "table_find t row (current_generation t)")
  case None
  obtain victim t1 where v: "claim_victim tp t = (victim, t1)" by fastforce
  show ?thesis
  proof (cases victim)
    case none: None
    then show ?thesis using run None v data_inv_claim_victim [OF v inv ti] by (simp add: prefetch_row_def)
  next
    case (Some i)
    obtain st t2 where s: "start_fill_locked tp i row t1 = (st, t2)" by fastforce
    then have "t' = t2" using run None v Some by (simp add: prefetch_row_def)
    then show ?thesis using data_inv_miss [OF v [unfolded Some] s inv ti] by simp
  qed
next
  case (Some i)
  then show ?thesis using run inv by (auto simp: prefetch_row_def Let_def data_inv_count split: if_splits)
qed

lemma data_inv_prefetch_rows:
  "data_inv source tp view good snap cfg R t \<Longrightarrow> table_inv t \<Longrightarrow> data_inv source tp view good snap cfg R (prefetch_rows tp k rows t)"
proof (induction rows arbitrary: k t)
  case (Cons row rows)
  obtain w epoch u where row: "prefetch_row tp row t = ((w, epoch), u)" by (metis surj_pair)
  let ?u = "u\<lparr>waiters := (waiters u)[k := (w, epoch)]\<rparr>"
  have "data_inv source tp view good snap cfg R ?u"
    using data_inv_prefetch_row [OF row Cons.prems] data_inv_cong [of ?u u] by simp
  moreover have "table_inv u" using prefetch_row_result(1) [OF Cons.prems(2) row] by (simp add: admits_def)
  then have "table_inv ?u" by simp
  ultimately show ?case using Cons.IH row by simp
qed simp

end

section \<open>Bindings\<close>

context fills
begin

text \<open>\<open>make_binding\<close> creates the transfer sets of the new sources; nothing is read yet.\<close>

lemma make_transfers_data:
  "make_transfers tp k n False shards m = (r, m') \<Longrightarrow> good m \<Longrightarrow>
     steps source tp view good m m' \<and> v_issued (view m') = v_issued (view m) \<and>
     (\<forall>rows scratches. r = Inr (rows, scratches) \<longrightarrow>
        list_all2 (\<lambda>shard ts. v_set (view m') ts = Some (sh_source shard, unat (sh_bytes shard), Output_storage)) shards rows)"
proof (induction shards arbitrary: m r)
  case Nil
  then show ?case using steps_refl [OF contract] by auto
next
  case (Cons shard shards)
  obtain e m1 where c: "tp_create tp (sh_source shard) (sh_bytes shard) Output_storage k m = (e, m1)" by fastforce
  note s = contract_create [OF contract Cons.prems(2) c]
  have g1: "good m1" using stepsD [OF conjunct1 [OF s]] by simp
  show ?case
  proof (cases e)
    case (Inl error)
    then show ?thesis using Cons.prems(1) c s by auto
  next
    case (Inr ts)
    obtain r2 m2 where rest: "make_transfers tp k n False shards m1 = (r2, m2)" by fastforce
    have m': "m' = m2" using Cons.prems(1) c Inr rest by (auto split: sum.splits)
    note ih = Cons.IH [OF rest [folded m'] g1]
    have "v_set (view m') ts = Some (sh_source shard, unat (sh_bytes shard), Output_storage)"
      using s Inr movesD(7) [OF conjunct2 [OF stepsD [OF conjunct1 [OF ih]]]] by simp
    moreover have "steps source tp view good m m'" by (rule steps_trans [OF conjunct1 [OF s] conjunct1 [OF ih] contract Cons.prems(2)])
    ultimately show ?thesis using Cons.prems(1) c Inr rest s ih by (auto split: sum.splits)
  qed
qed

lemma make_binding_data:
  assumes "make_binding tp cfg k None ident sources resolve m = (r, m')" and "good m"
  shows "steps source tp view good m m' \<and> v_issued (view m') = v_issued (view m) \<and>
    (\<forall>b. r = Inr b \<longrightarrow> b_sources b = sources \<and> b_resolver b = resolve \<and>
       list_all2 (\<lambda>shard ts. v_set (view m') ts = Some (sh_source shard, unat (sh_bytes shard), Output_storage)) sources (b_row_transfers b))"
proof (cases "sources = [] \<or> (\<exists>shard \<in> set sources. sh_bytes shard = 0)")
  case True
  then show ?thesis using assms steps_refl [OF contract] by (auto simp: make_binding_def split: if_splits)
next
  case False
  obtain e m1 where mk: "make_transfers tp (c_budget_rows cfg * k) (c_scratch_rows cfg) False sources m = (e, m1)" by fastforce
  show ?thesis
    using make_transfers_data [OF mk assms(2)] mk False assms(1) by (auto simp: make_binding_def split: sum.splits)
qed

lemma data_inv_binding:
  assumes "data_inv source tp view good snap cfg R t" and "mem t' = mem t" and "layout t' = layout t" and "cores t' = cores t"
    and "chunks_per_row t' = chunks_per_row t" and "binding_data snap (view (mem t)) t'"
  shows "data_inv source tp view good snap cfg R t'"
  using assms layout_ok_cong [OF assms(3)] by (simp add: data_inv_def)

lemma data_inv_invalidate:
  assumes run: "invalidate tp g sources resolve t = (st, t')" and inv: "data_inv source tp view good snap cfg R t"
    and meant: "snap g = (sources, case resolve of Some r \<Rightarrow> r | None \<Rightarrow> b_resolver (current_binding t))"
  shows "data_inv source tp view good snap cfg R t'"
proof (cases "sources = [] \<or> (\<exists>shard \<in> set sources. sh_bytes shard = 0) \<or>
    (case retiring_binding t of None \<Rightarrow> False | Some b \<Rightarrow> b_in_flight b \<noteq> 0)")
  case True
  then have "t' = t" using run by (simp add: invalidate_def split: if_split_asm)
  then show ?thesis using inv by simp
next
  case False
  note d = data_invD [OF inv]
  let ?r = "case resolve of Some r \<Rightarrow> r | None \<Rightarrow> b_resolver (current_binding t)"
  obtain r m where mk: "make_binding tp cfg (chunks_per_row t) None (next_binding t) sources ?r (mem t) = (r, m)" by fastforce
  note b = make_binding_data [OF mk d(1)]
  have inv1: "data_inv source tp view good snap cfg R (t\<lparr>mem := m, retiring_binding := None\<rparr>)"
    by (rule data_inv_mem [OF inv conjunct1 [OF b]]) (use b in \<open>simp_all add: frame_def cores_def\<close>)
  show ?thesis
  proof (cases r)
    case (Inl e)
    then have "t' = t\<lparr>mem := m, retiring_binding := None\<rparr>"
      using run False mk d(9,10) by (auto simp: invalidate_def Let_def cong: option.case_cong)
    then show ?thesis using inv1 by simp
  next
    case (Inr bd)
    then have t': "t' = t\<lparr>mem := m, retiring_binding := Some (current_binding t), current_binding := bd,
        next_binding := next_binding t + 1, current_generation := g\<rparr>"
      using run False mk d(9,10) by (simp add: invalidate_def Let_def cong: option.case_cong)
    show ?thesis
      by (rule data_inv_binding [OF inv1]) (use t' b Inr meant in \<open>simp_all add: layout_def cores_def binding_data_def\<close>)
  qed
qed

lemma data_inv_create:
  assumes run: "create tp cfg m = Inr t" and m: "good m" "length (tp_output tp m) = unat (c_output_size cfg)"
    and idle: "\<forall>c \<in> v_pending (view m). fst (v_dest (view m) c) \<noteq> Output_storage"
    and meant: "snap (c_generation cfg) = (c_sources cfg, the (c_resolve_extent cfg))"
  shows "data_inv source tp view good snap cfg (\<lambda>_. None) t"
proof -
  have codec: "active_codec_of cfg = None" using identity by (simp add: active_codec_of_def)
  obtain resolve where resolve: "c_resolve_extent cfg = Some resolve"
    using run checked by (cases "c_resolve_extent cfg") (simp_all add: create_def)
  obtain r m' where mk: "make_binding tp cfg (chunks_per_row_of cfg) None 0 (c_sources cfg) resolve m = (r, m')" by fastforce
  then obtain b where r: "r = Inr b" and t: "t = new_table cfg b m'"
    using run checked resolve codec by (cases r) (simp_all add: create_def)
  note d = make_binding_data [OF mk m(1)]
  have mv: "moves source (view m, tp_output tp m) (view m', tp_output tp m')" and g: "good m'"
    using stepsD [OF conjunct1 [OF d]] by simp_all
  have "fst (v_dest (view m') c) \<noteq> Output_storage" if "c \<in> v_pending (view m')" for c
  proof -
    have c: "c \<in> v_pending (view m)" using that movesD(4) [OF mv] d by (auto simp: writers_def)
    moreover have "v_dest (view m') c = v_dest (view m) c"
      using movesD(5) [OF mv] c view_okD(1) [OF contract_view [OF contract m(1)]] by blast
    ultimately show ?thesis using idle by simp
  qed
  then have own: "fills_own (view m') xs" for xs by (auto simp: fills_own_def)
  have "layout_ok cfg t" using reachable_layout [OF created [OF run] fits] by simp
  moreover have "core_data source snap cfg (view m') (tp_output tp m') i (cores t ! i)" if "i < length (cores t)" for i
    using create_result(6) [OF run, of i] that by (simp add: cores_def core_def fresh_slot_def core_data_def)
  ultimately show ?thesis
    using g own d r t m(2) movesD(8) [OF mv] meant resolve
    by (simp add: data_inv_def results_ok_def binding_data_def new_table_def Let_def)
qed

lemma data_inv_prefetch:
  assumes run: "prefetch tp rows t = (r, t')" and inv: "data_inv source tp view good snap cfg R t" and ti: "table_inv t"
  shows "data_inv source tp view good snap cfg R t'"
proof (cases "find_free_record (tickets t)")
  case None
  then show ?thesis using run inv by (auto simp: prefetch_def split: if_splits)
next
  case (Some i)
  let ?rec = "\<lparr>tr_generation = tr_generation (tickets t ! i) + 1, tr_count = length rows, tr_held = True, tr_in_use = True\<rparr>"
  let ?u = "t\<lparr>tickets := (tickets t)[i := ?rec], tickets_held := tickets_held t + 1\<rparr>"
  have "table_inv ?u"
    using admits_tickets [OF admits_refl [OF ti]] tickets_ok_take [OF table_invD(8) [OF ti], of i ?rec] find_free_record_Some [OF Some]
    by (simp add: admits_def)
  moreover have "data_inv source tp view good snap cfg R ?u" using inv data_inv_cong [of ?u t] by (simp add: frame_def cores_def)
  ultimately have "data_inv source tp view good snap cfg R (prefetch_rows tp k rows ?u)" for k by (rule data_inv_prefetch_rows [rotated])
  then show ?thesis using run Some inv by (auto simp: prefetch_def Let_def split: if_splits)
qed

end

section \<open>Runs\<close>

text \<open>
  The steps of \<open>Table_System\<close> with the transport kept to its contract: a wait is for a claim of a fill that the thread finishes,
  the result that is published is the one the waits reported, the transport moves by \<open>steps\<close> between, and an invalidation
  is what the caller means by the new generation. The third component records what the waits reported.
\<close>

type_synonym 'm data_sys = "'m sys \<times> (claim \<Rightarrow> mp_status option)"

inductive data_step :: "(source_id \<Rightarrow> bytes) \<Rightarrow> 'm transport \<Rightarrow> ('m \<Rightarrow> view) \<Rightarrow> ('m \<Rightarrow> bool) \<Rightarrow> snapshots \<Rightarrow>
    'm data_sys \<Rightarrow> 'm data_sys \<Rightarrow> bool"
  for source :: "source_id \<Rightarrow> bytes" and tp :: "'m transport" and view :: "'m \<Rightarrow> view" and good :: "'m \<Rightarrow> bool" and snap :: snapshots where
  d_hit: "try_get row t = (Some l, t') \<Longrightarrow> data_step source tp view good snap ((t, ls), R) ((t', l # ls), R)"
| d_miss: "try_get row t = (None, t') \<Longrightarrow> data_step source tp view good snap ((t, ls), R) ((t', ls), R)"
| d_admit: "admit_rows tp rows t = (failure, new, t') \<Longrightarrow> data_step source tp view good snap ((t, ls), R) ((t', new @ ls), R)"
| d_expose: "s_state (slots t ! l_slot l) = Ready \<Longrightarrow>
    data_step source tp view good snap ((t, xs @ l # ys), R) ((t, xs @ l\<lparr>l_bytes := published_span t (l_slot l)\<rparr> # ys), R)"
| d_release: "release_lease (l_slot l) (l_epoch l) t = Some t' \<Longrightarrow>
    data_step source tp view good snap ((t, xs @ l # ys), R) ((t', xs @ ys), R)"
| d_claim: "i < length (slots t) \<Longrightarrow> filling (slots t ! i) \<Longrightarrow> \<not> s_finishing (slots t ! i) \<Longrightarrow>
    data_step source tp view good snap ((t, ls), R) ((upd_slot i (\<lambda>s. s\<lparr>s_finishing := True\<rparr>) t, ls), R)"
| d_await: "i < length (slots t) \<Longrightarrow> filling (slots t ! i) \<Longrightarrow> s_finishing (slots t ! i) \<Longrightarrow> c \<in> set (claims_of (slots t ! i)) \<Longrightarrow>
    tp_wait tp c deadline (mem t) = (raw, m) \<Longrightarrow>
    data_step source tp view good snap ((t, ls), R) ((t\<lparr>mem := m\<rparr>, ls), R(c \<mapsto> raw))"
| d_publish: "i < length (slots t) \<Longrightarrow> filling (slots t ! i) \<Longrightarrow> s_finishing (slots t ! i) \<Longrightarrow>
    reported R (claims_of (slots t ! i)) raw \<Longrightarrow> raw \<noteq> MP_Timeout \<Longrightarrow>
    data_step source tp view good snap ((t, ls), R)
      ((publish_fill tp i (s_scratch_slot (slots t ! i)) (from_mempage raw) t, ls), R)"
| d_relinquish: "i < length (slots t) \<Longrightarrow> filling (slots t ! i) \<Longrightarrow> s_finishing (slots t ! i) \<Longrightarrow>
    data_step source tp view good snap ((t, ls), R) ((relinquish_fill i t, ls), R)"
| d_prefetch: "prefetch tp rows t = (r, t') \<Longrightarrow> data_step source tp view good snap ((t, ls), R) ((t', ls), R)"
| d_discard: "i < length (tickets t) \<Longrightarrow> discard_ticket i g t = Some t' \<Longrightarrow> data_step source tp view good snap ((t, ls), R) ((t', ls), R)"
| d_invalidate: "invalidate tp g sources resolve t = (st, t') \<Longrightarrow>
    snap g = (sources, case resolve of Some r \<Rightarrow> r | None \<Rightarrow> b_resolver (current_binding t)) \<Longrightarrow>
    data_step source tp view good snap ((t, ls), R) ((t', ls), R)"
| d_progress: "steps source tp view good (mem t) m \<Longrightarrow> v_issued (view m) = v_issued (view (mem t)) \<Longrightarrow>
    data_step source tp view good snap ((t, ls), R) ((t\<lparr>mem := m\<rparr>, ls), R)"

inductive data_reachable :: "(source_id \<Rightarrow> bytes) \<Rightarrow> 'm transport \<Rightarrow> ('m \<Rightarrow> view) \<Rightarrow> ('m \<Rightarrow> bool) \<Rightarrow> snapshots \<Rightarrow> table_config \<Rightarrow>
    'm data_sys \<Rightarrow> bool"
  for source :: "source_id \<Rightarrow> bytes" and tp :: "'m transport" and view :: "'m \<Rightarrow> view" and good :: "'m \<Rightarrow> bool" and snap :: snapshots
    and cfg :: table_config where
  d_created: "create tp cfg m = Inr t \<Longrightarrow> good m \<Longrightarrow> length (tp_output tp m) = unat (c_output_size cfg) \<Longrightarrow>
    \<forall>c \<in> v_pending (view m). fst (v_dest (view m) c) \<noteq> Output_storage \<Longrightarrow>
    snap (c_generation cfg) = (c_sources cfg, the (c_resolve_extent cfg)) \<Longrightarrow>
    data_reachable source tp view good snap cfg ((t, []), \<lambda>_. None)"
| d_stepped: "data_reachable source tp view good snap cfg s \<Longrightarrow> data_step source tp view good snap s s' \<Longrightarrow>
    data_reachable source tp view good snap cfg s'"

lemma data_step_sys: "data_step source tp view good snap s s' \<Longrightarrow> sys_step tp (fst s) (fst s')"
proof (induction rule: data_step.induct)
  case (d_expose t l xs ys R)
  then show ?case using expose by simp
next
  case (d_release l t t' xs ys R)
  then show ?case using release by simp
qed (auto intro: sys_step.intros)

lemma data_reachable_sys: "data_reachable source tp view good snap cfg s \<Longrightarrow> reachable tp cfg (fst s)"
proof (induction rule: data_reachable.induct)
  case (d_created m t)
  then show ?case using created by simp
next
  case (d_stepped s s')
  then show ?case using stepped data_step_sys by blast
qed

context fills
begin

lemma claims_issued:
  assumes inv: "data_inv source tp view good snap cfg R t" and i: "i < length (slots t)" "s_state (slots t ! i) = Filling"
    and c: "c \<in> set (claims_of (slots t ! i))"
  shows "c \<in> v_issued (view (mem t))"
proof -
  note d = data_invD [OF inv]
  obtain p where "fill_data source (view (mem t)) (tp_output tp (mem t)) (i * row_width cfg) p (claims_of (slots t ! i)) (fill_reads cfg (p_len p))"
    using d(7) [OF i(1)] i(2) by (auto simp: core_data_def core_def)
  then have l2: "list_all2 (claim_at source (view (mem t)) (tp_output tp (mem t)) (i * row_width cfg) p)
      (claims_of (slots t ! i)) (fill_reads cfg (p_len p))" by (simp add: fill_data_def)
  obtain a where a: "a < length (claims_of (slots t ! i))" "c = claims_of (slots t ! i) ! a" using c by (auto simp: in_set_conv_nth)
  show ?thesis using list_all2_nthD [OF l2 a(1)] a(2) by (auto simp: claim_at_def split: prod.splits)
qed

lemma data_inv_await:
  assumes inv: "data_inv source tp view good snap cfg R t" and c: "c \<in> v_issued (view (mem t))"
    and run: "tp_wait tp c deadline (mem t) = (raw, m)"
  shows "data_inv source tp view good snap cfg (R(c \<mapsto> raw)) (t\<lparr>mem := m\<rparr>)"
proof -
  note d = data_invD [OF inv]
  note w = contract_wait [OF contract d(1) c run]
  have "data_inv source tp view good snap cfg R (t\<lparr>mem := m\<rparr>)" by (rule data_inv_mem [OF inv]) (use w in simp_all)
  moreover have "results_ok (view m) (R(c \<mapsto> raw))"
    using data_invD(13) [OF calculation] w c by (auto simp: results_ok_def)
  ultimately show ?thesis by (simp add: data_inv_def)
qed

lemma data_inv_step:
  assumes "data_step source tp view good snap ((t, ls), R) ((t', ls'), R')" and inv: "data_inv source tp view good snap cfg R t"
    and ti: "table_inv t"
  shows "data_inv source tp view good snap cfg R' t'"
  using assms(1)
proof cases
  case (d_hit row l)
  then show ?thesis using data_inv_try_get inv by blast
next
  case (d_miss row)
  then show ?thesis using data_inv_try_get inv by blast
next
  case (d_admit rows failure new)
  then show ?thesis using data_inv_admit_rows inv ti by blast
next
  case (d_expose l xs ys)
  then show ?thesis using inv by simp
next
  case (d_release l xs ys)
  then show ?thesis
    using inv data_inv_cong [of t' t] by (auto simp: release_lease_def unpin_locked_def cores_kept split: if_splits)
next
  case (d_claim i)
  then show ?thesis using inv data_inv_cong [of t' t] by (simp add: cores_kept)
next
  case (d_await i c deadline raw m)
  then show ?thesis using data_inv_await inv claims_issued by simp
next
  case (d_publish i raw)
  then show ?thesis using data_inv_publish inv ti by simp
next
  case (d_relinquish i)
  then show ?thesis using inv data_inv_cong [of t' t] by (simp add: relinquish_fill_def cores_kept)
next
  case (d_prefetch rows r)
  then show ?thesis using data_inv_prefetch inv ti by blast
next
  case (d_discard i g)
  then show ?thesis using inv data_inv_cong [of t' t]
    by (auto simp: discard_ticket_def Let_def frame_def cores_def split: if_splits)
next
  case (d_invalidate g sources resolve st)
  then show ?thesis using data_inv_invalidate inv by blast
next
  case (d_progress m)
  then show ?thesis using data_inv_mem [OF inv, of m t'] by simp
qed

lemma data_reachable_inv:
  "data_reachable source tp view good snap cfg s \<Longrightarrow> data_inv source tp view good snap cfg (snd s) (fst (fst s))"
proof (induction rule: data_reachable.induct)
  case (d_created m t)
  then show ?case using data_inv_create by simp
next
  case (d_stepped s s')
  have "sys_inv (fst s)" by (rule reachable_inv [OF data_reachable_sys [OF d_stepped(1)]])
  then have "table_inv (fst (fst s))" by (cases "fst s") (simp add: sys_inv_iff)
  then show ?case using data_inv_step [of "fst (fst s)" "snd (fst s)" "snd s" "fst (fst s')" "snd (fst s')" "snd s'"] d_stepped(2,3) by simp
qed

text \<open>What a Ready slot shows.\<close>

lemma ready_shows:
  assumes inv: "data_inv source tp view good snap cfg R t" and i: "i < length (slots t)" "s_state (slots t ! i) = Ready"
    and key: "slot_key (slots t ! i) = (row, gen)"
  shows "\<exists>location. resolve_location cfg (fst (snap gen)) (snd (snap gen)) row = Inr location \<and>
     slice (tp_output tp (mem t)) (fst (published_span t i)) (snd (published_span t i)) =
     slice (source (sh_source (fst (snap gen) ! unat (loc_shard location)))) (unat (br_offset (loc_range location)))
       (unat (br_length (loc_range location)))"
proof -
  note d = data_invD [OF inv]
  let ?w = "row_width cfg" and ?out = "tp_output tp (mem t)"
  obtain p where p: "fill_plan snap cfg (row, gen) = Some p" "slot_span (slots t ! i) = (p_head p, p_row p)"
    and out: "\<And>k. k < p_len p \<Longrightarrow> ?out ! (i * ?w + k) = source (p_source p) ! (p_off p + k)"
    using d(7) [OF i(1)] i(2) key by (auto simp: core_data_def core_def)
  obtain location where loc: "resolve_location cfg (fst (snap gen)) (snd (snap gen)) row = Inr location"
    using p(1) by (auto simp: fill_plan_def split: prod.splits sum.splits)
  let ?shard = "fst (snap gen) ! unat (loc_shard location)"
  obtain fill head where win: "fill_window (c_fill_alignment cfg) (sh_bytes ?shard) (loc_range location) = (fill, head)" by fastforce
  note f = plan_of [OF _ loc win, of gen, simplified]
  let ?off = "unat (br_offset (loc_range location))" and ?len = "unat (br_length (loc_range location))"
  have pe: "p_source p = sh_source ?shard" "p_off p = unat (br_offset fill)" "p_len p = unat (br_length fill)"
    "p_head p = head" "p_row p = br_length (loc_range location)" using p(1) f(1) by auto
  have span: "published_span t i = (i * ?w + unat head, ?len)"
    using p(2) pe(4,5) d(9) by (simp add: published_span_def output_span_def slot_span_def)
  have room: "i * ?w + ?w \<le> length ?out" using slot_room(1) i(1) d(5,11) by simp
  have src: "?off + ?len \<le> length (source (sh_source ?shard))" using f(3,5,6,7) by linarith
  have "slice ?out (i * ?w + unat head) ?len = slice (source (sh_source ?shard)) ?off ?len"
  proof (rule nth_equalityI)
    show "length (slice ?out (i * ?w + unat head) ?len) = length (slice (source (sh_source ?shard)) ?off ?len)"
      using room src f(4,6) by simp
    fix k assume "k < length (slice ?out (i * ?w + unat head) ?len)"
    then have k: "k < ?len" by simp
    have "?out ! (i * ?w + (unat head + k)) = source (p_source p) ! (p_off p + (unat head + k))"
      using out [of "unat head + k"] pe(3) f(6) k by simp
    then show "slice ?out (i * ?w + unat head) ?len ! k = slice (source (sh_source ?shard)) ?off ?len ! k"
      using k room src f(4,5,6) pe(1,2) by (simp add: nth_slice add.assoc [symmetric])
  qed
  then show ?thesis using loc span by auto
qed

end

text \<open>
  The same for a lease, in every reachable state: the part of the output storage it points to is the part of the source that
  the caller's resolver gives for its row.
\<close>

definition shows_source :: "(source_id \<Rightarrow> bytes) \<Rightarrow> snapshots \<Rightarrow> table_config \<Rightarrow> bytes \<Rightarrow> lease \<Rightarrow> bool" where
  "shows_source source snap cfg out l \<longleftrightarrow>
     (\<exists>location. resolve_location cfg (fst (snap (l_generation l))) (snd (snap (l_generation l))) (l_row_index l) = Inr location \<and>
        slice out (fst (l_bytes l)) (snd (l_bytes l)) =
        slice (source (sh_source (fst (snap (l_generation l)) ! unat (loc_shard location))))
          (unat (br_offset (loc_range location))) (unat (br_length (loc_range location))))"

context fills
begin

lemma lease_shows:
  assumes run: "data_reachable source tp view good snap cfg ((t, ls), R)" and l: "l \<in> set ls" "l_bytes l \<noteq> (0, 0)"
  shows "shows_source source snap cfg (tp_output tp (mem t)) l"
proof -
  have "sys_inv (t, ls)" using reachable_inv [OF data_reachable_sys [OF run]] by simp
  then have "lease_ok t l" "exposed_ok t l" using l(1) by (auto simp: sys_inv_iff)
  then show ?thesis
    using ready_shows [OF data_reachable_inv [OF run], of "l_slot l" "l_row_index l" "l_generation l"] l(2)
    by (simp add: lease_ok_def exposed_ok_def shows_source_def)
qed

end

lemma fills_of_run:
  assumes "transfer_contract source tp view good" and "c_representation cfg = Identity" and "width_fits cfg"
    and "sources_fit source snap cfg" and "chunks_per_row_of cfg \<le> 1 \<or> refuses_overlap tp view"
    and "data_reachable source tp view good snap cfg s"
  shows "fills source tp view good snap cfg"
  using reachable_layout [OF data_reachable_sys [OF assms(6)] assms(3)] by (intro fills.intro assms(1-5)) simp

section \<open>Leases\<close>


section \<open>The transport over memory keeps the contract\<close>

definition ram_view :: "ram \<Rightarrow> view" where
  "ram_view m = \<lparr>v_issued = {..<length (ram_claims m)}, v_pending = {}, v_done = {..<length (ram_claims m)},
     v_dest = (\<lambda>c. fst (ram_claims m ! c)), v_from = (\<lambda>c. snd (ram_claims m ! c)),
     v_set = (\<lambda>ts. if ts < length (ram_sets m) then Some (ram_sets m ! ts) else None)\<rparr>"

definition ram_good :: "(source_id \<Rightarrow> bytes) \<Rightarrow> ram \<Rightarrow> bool" where
  "ram_good source m \<longleftrightarrow> ram_source m = source"

lemma ram_submit_step:
  assumes run: "ram_submit ts rng dst m = (Inr c, m')" and set: "ts < length (ram_sets m)" "ram_sets m ! ts = (src, n, st)"
  shows "c = length (ram_claims m)" and "ram_claims m' = ram_claims m @ [((st, unat dst, unat (br_length rng)), src, unat (br_offset rng))]"
    and "ram_sets m' = ram_sets m" and "ram_source m' = ram_source m" and "unat (br_offset rng) + unat (br_length rng) \<le> n"
    and "unat (br_offset rng) + unat (br_length rng) \<le> length (ram_source m src)"
    and "st = Scratch_storage \<Longrightarrow> ram_output m' = ram_output m"
    and "st = Output_storage \<Longrightarrow> unat dst + unat (br_length rng) \<le> length (ram_output m) \<and>
       ram_output m' = put_at (ram_output m) (unat dst) (slice (ram_source m src) (unat (br_offset rng)) (unat (br_length rng)))"
  using run set by (auto simp: ram_submit_def Let_def split: if_splits storage.splits)

lemma ram_submit_moves:
  assumes run: "ram_submit ts rng dst m = (Inr c, m')" and set: "ts < length (ram_sets m)" "ram_sets m ! ts = (src, n, st)"
  shows "moves (ram_source m) (ram_view m, ram_output m) (ram_view m', ram_output m')"
proof -
  note s = ram_submit_step [OF assms]
  let ?data = "slice (ram_source m src) (unat (br_offset rng)) (unat (br_length rng))"
  have len: "length ?data = unat (br_length rng)" using s(6) by simp
  have out: "length (ram_output m') = length (ram_output m)" using s(7,8) len by (cases st) simp_all
  have wr: "ram_output m' ! k = (if st = Output_storage \<and> unat dst \<le> k \<and> k < unat dst + unat (br_length rng)
      then ram_source m src ! (unat (br_offset rng) + (k - unat dst)) else ram_output m ! k)" if "k < length (ram_output m)" for k
    using s(6,7,8) len that nth_put_at [of "unat dst" ?data "ram_output m" k]
    by (cases st) (auto simp: nth_slice)
  have new: "c' < Suc (length (ram_claims m)) \<and> \<not> c' < length (ram_claims m) \<longleftrightarrow> c' = length (ram_claims m)" for c' by auto
  show ?thesis
    unfolding moves_def prod.case
  proof (intro conjI ballI allI impI)
    fix k assume k: "k < length (ram_output m)" "\<not> covers (ram_view m') (writers (ram_view m) (ram_view m')) k"
    then have "\<not> (st = Output_storage \<and> unat dst \<le> k \<and> k < unat dst + unat (br_length rng))"
      using s(2) by (auto simp: covers_def writers_def ram_view_def)
    then show "ram_output m' ! k = ram_output m ! k" using wr [OF k(1)] by auto
  next
    fix c' off n' src' start k
    assume c': "c' \<in> v_done (ram_view m') - v_done (ram_view m)" and "v_dest (ram_view m') c' = (Output_storage, off, n')"
      "v_from (ram_view m') c' = (src', start)" "k < n'" "off + k < length (ram_output m)"
    moreover from c' have "c' = length (ram_claims m)" using s(2) by (auto simp: ram_view_def)
    ultimately show "ram_output m' ! (off + k) = ram_source m src' ! (start + k)"
      using s(2) wr [of "off + k"] by (auto simp: ram_view_def)
  qed (use s(2,3) out in \<open>auto simp: view_ok_def ram_view_def writers_def nth_append split: if_splits\<close>)
qed

lemma ram_contract: "transfer_contract source ram_transport ram_view (ram_good source)"
  unfolding transfer_contract_def
proof (intro conjI allI impI)
  show "view_ok (ram_view m)" for m by (simp add: view_ok_def ram_view_def)
next
  fix m src n st k r m' assume "ram_good source m" "tp_create ram_transport src n st k m = (r, m')"
  then have m': "r = Inr (length (ram_sets m))" "m' = m\<lparr>ram_sets := ram_sets m @ [(src, unat n, st)]\<rparr>"
    by (simp_all add: ram_transport_def ram_create_def)
  then show "steps source ram_transport ram_view (ram_good source) m m'" "v_issued (ram_view m') = v_issued (ram_view m)"
    "\<And>ts. r = Inr ts \<Longrightarrow> v_set (ram_view m') ts = Some (src, unat n, st)"
    using \<open>ram_good source m\<close> by (auto simp: steps_def moves_def ram_good_def ram_transport_def ram_view_def view_ok_def nth_append writers_def)
next
  fix m ts rng dst r m' assume g: "ram_good source m" and run: "tp_submit ram_transport ts rng dst m = (r, m')"
  then have run': "ram_submit ts rng dst m = (r, m')" by (simp add: ram_transport_def)
  have refused: "m' = m" if "r = Inl e" for e
    using run' that by (auto simp: ram_submit_def Let_def split: if_splits prod.splits storage.splits)
  show "steps source ram_transport ram_view (ram_good source) m m'"
  proof (cases r)
    case (Inl e)
    then show ?thesis using refused g by (simp add: steps_def moves_refl view_ok_def ram_view_def)
  next
    case (Inr c)
    then have ts: "ts < length (ram_sets m)" using run' by (auto simp: ram_submit_def split: if_splits)
    obtain src n st where set: "ram_sets m ! ts = (src, n, st)" by (metis prod_cases3)
    show ?thesis
      using ram_submit_moves [OF run' [unfolded Inr] ts set] ram_submit_step(4) [OF run' [unfolded Inr] ts set] g
      by (simp add: steps_def ram_good_def ram_transport_def)
  qed
  show "v_issued (ram_view m') = v_issued (ram_view m)" if "r = Inl e" for e using refused that by simp
  fix c assume c: "r = Inr c"
  then have ts: "ts < length (ram_sets m)" using run' by (auto simp: ram_submit_def split: if_splits)
  obtain src n st where set: "ram_sets m ! ts = (src, n, st)" by (metis prod_cases3)
  note s = ram_submit_step [OF run' [unfolded c] ts set]
  show "c \<notin> v_issued (ram_view m)" "v_issued (ram_view m') = insert c (v_issued (ram_view m))"
    using s(1,2) by (auto simp: ram_view_def)
  fix src' n' st' assume "v_set (ram_view m) ts = Some (src', n', st')"
  then have "src' = src" "n' = n" "st' = st" using ts set by (simp_all add: ram_view_def)
  then show "v_dest (ram_view m') c = (st', unat dst, unat (br_length rng))" "v_from (ram_view m') c = (src', unat (br_offset rng))"
    "unat (br_offset rng) + unat (br_length rng) \<le> n'"
    using s(1,2,5) by (simp_all add: ram_view_def)
next
  fix m c d raw m' assume "ram_good source m" "c \<in> v_issued (ram_view m)" "tp_wait ram_transport c d m = (raw, m')"
  moreover from this have "raw = MP_Ok" "m' = m" by (simp_all add: ram_transport_def)
  ultimately show "steps source ram_transport ram_view (ram_good source) m m'" "v_issued (ram_view m') = v_issued (ram_view m)"
    "raw = MP_Ok \<Longrightarrow> c \<in> v_done (ram_view m')" "raw \<noteq> MP_Timeout \<Longrightarrow> c \<notin> v_pending (ram_view m')"
    by (simp_all add: steps_def moves_refl view_ok_def ram_view_def)
next
  fix m c assume "ram_good source m"
  moreover have "tp_reset ram_transport c m = m" by (simp add: ram_transport_def)
  ultimately show "steps source ram_transport ram_view (ram_good source) m (tp_reset ram_transport c m)"
    "v_issued (ram_view (tp_reset ram_transport c m)) = v_issued (ram_view m)"
    by (simp_all add: steps_def moves_refl view_ok_def ram_view_def)
qed

text \<open>Nothing is ever outstanding, so no submission overlaps an outstanding transfer.\<close>

lemma ram_refuses_overlap: "refuses_overlap ram_transport ram_view"
  by (simp add: refuses_overlap_def covers_def ram_view_def)

definition sample_snapshots :: snapshots where
  "sample_snapshots gen = ([\<lparr>sh_source = 7, sh_bytes = 16\<rparr>], sample_resolver)"

interpretation ram_fills: fills "\<lambda>_. sample_source" ram_transport ram_view "ram_good (\<lambda>_. sample_source)" sample_snapshots sample_config
proof unfold_locales
  show "transfer_contract (\<lambda>_. sample_source) ram_transport ram_view (ram_good (\<lambda>_. sample_source))" by (rule ram_contract)
  show "create_check sample_config = None" using sample_create by (auto simp: create_def split: option.splits)
  show "c_representation sample_config = Identity" "width_fits sample_config"
    by (simp_all add: sample_config_def width_fits_def)
  show "sources_fit (\<lambda>_. sample_source) sample_snapshots sample_config"
    by (simp add: sources_fit_def sample_snapshots_def sample_bytes(2) sample_config_def)
  show "chunks_per_row_of sample_config \<le> 1 \<or> refuses_overlap ram_transport ram_view" by (simp add: ram_refuses_overlap)
qed

lemma sample_data_start:
  "data_reachable (\<lambda>_. sample_source) ram_transport ram_view (ram_good (\<lambda>_. sample_source)) sample_snapshots sample_config
     ((sample_table, []), \<lambda>_. None)"
  by (rule d_created [OF sample_create])
    (simp_all add: ram_good_def sample_memory_def ram_transport_def ram_view_def sample_snapshots_def sample_config_def)

lemma sample_data_run:
  "data_reachable (\<lambda>_. sample_source) ram_transport ram_view (ram_good (\<lambda>_. sample_source)) sample_snapshots sample_config
     ((ready_table, [exposed_lease]), [0 \<mapsto> MP_Ok])"
proof -
  let ?reach = "data_reachable (\<lambda>_. sample_source) ram_transport ram_view (ram_good (\<lambda>_. sample_source)) sample_snapshots sample_config"
  let ?step = "data_step (\<lambda>_. sample_source) ram_transport ram_view (ram_good (\<lambda>_. sample_source)) sample_snapshots"
  from d_stepped [OF sample_data_start d_admit [OF sample_admit]] have "?reach ((filling_table, [sample_lease]), \<lambda>_. None)" by simp
  moreover have "?step ((filling_table, [sample_lease]), \<lambda>_. None) ((claimed_table, [sample_lease]), \<lambda>_. None)"
  proof -
    have "upd_slot 0 (\<lambda>s. s\<lparr>s_finishing := True\<rparr>) filling_table = claimed_table" by (simp add: upd_slot_def claimed_table_def filling_table_def)
    then show ?thesis using d_claim [of 0 filling_table] by (simp add: sample_defs)
  qed
  ultimately have claimed: "?reach ((claimed_table, [sample_lease]), \<lambda>_. None)" by (rule d_stepped)
  have slot: "claims_of (slots claimed_table ! 0) = [0]" "filling (slots claimed_table ! 0)" "s_finishing (slots claimed_table ! 0)"
    "s_scratch_slot (slots claimed_table ! 0) = None" "0 < length (slots claimed_table)"
    by (simp_all add: claimed_table_def sample_slot_def claims_of_def fresh_slot_def)
  have "?step ((claimed_table, [sample_lease]), \<lambda>_. None) ((claimed_table\<lparr>mem := mem claimed_table\<rparr>, [sample_lease]), [0 \<mapsto> MP_Ok])"
    by (rule d_await [where i = 0 and deadline = None]) (use slot in \<open>simp_all add: ram_transport_def\<close>)
  then have "?reach ((claimed_table, [sample_lease]), [0 \<mapsto> MP_Ok])" using d_stepped [OF claimed] by simp
  moreover have "?step ((claimed_table, [sample_lease]), [0 \<mapsto> MP_Ok]) ((ready_table, [sample_lease]), [0 \<mapsto> MP_Ok])"
    using d_publish [where tp = ram_transport and R = "[0 \<mapsto> MP_Ok]" and raw = MP_Ok, OF slot(5,2,3)] slot(1,4) sample_publish by simp
  ultimately have "?reach ((ready_table, [sample_lease]), [0 \<mapsto> MP_Ok])" by (rule d_stepped)
  moreover have "s_state (slots ready_table ! l_slot sample_lease) = Ready" by (simp add: sample_defs sample_lease_def)
  from d_expose [OF this, of _ _ _ _ _ "[]" "[]"]
  have "?step ((ready_table, [sample_lease]), [0 \<mapsto> MP_Ok]) ((ready_table, [exposed_lease]), [0 \<mapsto> MP_Ok])" by (simp add: exposed_lease_def)
  ultimately show ?thesis by (rule d_stepped)
qed


end
