(* ===== verification/Flat_File.thy ===== *)
theory Flat_File
  imports Table_Config
begin

text \<open>
  local_file_source.hpp: the resolver for row-major flat files, and the registration of a local file as a
  shard. \<open>sub0mempage::LocalFileBackend::register_file\<close> and the file system are parameters.
\<close>

section \<open>FlatFileResolver\<close>

record flat_file =
  ff_row_count :: u64
  ff_rows_per_shard :: u64
  ff_row_stride :: u64
  ff_row_width :: u64
  ff_base_offset :: u64

definition resolve_extent :: "flat_file \<Rightarrow> resolver" where
  "resolve_extent f row_index =
     (if row_index \<ge> ff_row_count f \<or> ff_rows_per_shard f = 0 then Inl Out_of_range
      else let shard = row_index div ff_rows_per_shard f;
               local_row = row_index mod ff_rows_per_shard f
           in if shard > 0xFFFFFFFF then Inl Out_of_range
              else Inr \<lparr>loc_shard = ucast shard,
                        loc_range = \<lparr>br_offset = ff_base_offset f + local_row * ff_row_stride f,
                                     br_length = ff_row_width f\<rparr>\<rparr>)"

section \<open>Registration\<close>

text \<open>\<open>register_file\<close> is the backend's answer for the source and the path.\<close>

definition register_local_file_shard :: "mp_status \<Rightarrow> source_id \<Rightarrow> u64 \<Rightarrow> status + shard_source" where
  "register_local_file_shard register_file source bytes =
     (if register_file \<noteq> MP_Ok then
        (case register_file of
           MP_Invalid_argument \<Rightarrow> Inl Invalid_argument
         | MP_Ticket_exhausted \<Rightarrow> Inl Ticket_exhausted
         | _ \<Rightarrow> Inl Io_error)
      else Inr \<lparr>sh_source = source, sh_bytes = bytes\<rparr>)"

text \<open>The overload that asks the file system: \<open>file_size\<close> is \<open>None\<close> on an error.\<close>

definition register_local_file_sized :: "u64 option \<Rightarrow> mp_status \<Rightarrow> source_id \<Rightarrow> status + shard_source" where
  "register_local_file_sized file_size register_file source =
     (case file_size of
        None \<Rightarrow> Inl Io_error
      | Some bytes \<Rightarrow> register_local_file_shard register_file source bytes)"

section \<open>Rows do not overlap\<close>

text \<open>The layout fits: the last row of a shard ends below the wrap-around.\<close>

definition layout_fits :: "flat_file \<Rightarrow> bool" where
  "layout_fits f \<longleftrightarrow> ff_row_width f \<le> ff_row_stride f \<and>
     unat (ff_base_offset f) + unat (ff_rows_per_shard f) * unat (ff_row_stride f) < 2 ^ 64"

lemma resolve_extent_nat:
  assumes fits: "layout_fits f" and run: "resolve_extent f row = Inr loc"
  shows "unat (loc_shard loc) = unat row div unat (ff_rows_per_shard f)"
    and "unat (br_offset (loc_range loc)) =
           unat (ff_base_offset f) + unat row mod unat (ff_rows_per_shard f) * unat (ff_row_stride f)"
    and "br_length (loc_range loc) = ff_row_width f" and "ff_rows_per_shard f \<noteq> 0" and "row < ff_row_count f"
proof -
  let ?n = "ff_rows_per_shard f" and ?st = "ff_row_stride f"
  have n: "?n \<noteq> 0" and row: "row < ff_row_count f" and sh: "row div ?n \<le> 0xFFFFFFFF"
    and loc: "loc = \<lparr>loc_shard = ucast (row div ?n),
      loc_range = \<lparr>br_offset = ff_base_offset f + row mod ?n * ?st, br_length = ff_row_width f\<rparr>\<rparr>"
    using run by (auto simp: resolve_extent_def Let_def not_le not_less split: if_splits)
  have "unat (row div ?n) < 2 ^ 32" using sh by (simp add: word_le_nat_alt)
  then show "unat (loc_shard loc) = unat row div unat ?n"
    by (simp add: loc unsigned_ucast_eq take_bit_nat_eq_self unat_div_distrib)
  have "unat row mod unat ?n < unat ?n" using n by (simp add: unat_gt_0)
  then have le: "unat row mod unat ?n * unat ?st \<le> unat ?n * unat ?st" by (intro mult_right_mono) simp_all
  then have small: "unat (ff_base_offset f) + unat row mod unat ?n * unat ?st < 2 ^ 64"
    using fits unfolding layout_fits_def by linarith
  then have "unat (row mod ?n * ?st) = unat row mod unat ?n * unat ?st"
    by (simp add: unat_word_ariths(2) unat_mod_distrib)
  then show "unat (br_offset (loc_range loc)) = unat (ff_base_offset f) + unat row mod unat ?n * unat ?st"
    using small by (simp add: loc unat_word_ariths(1))
  show "br_length (loc_range loc) = ff_row_width f" "?n \<noteq> 0" "row < ff_row_count f" using loc n row by simp_all
qed

text \<open>
  Two different rows of a flat file never share a byte: they lie in different shards, or in one shard with disjoint
  byte ranges, provided the row is no wider than the stride and the shard ends below \<open>2 ^ 64\<close>.
\<close>

lemma flat_rows_disjoint:
  assumes "layout_fits f" and "resolve_extent f row1 = Inr loc1" and "resolve_extent f row2 = Inr loc2" and "row1 \<noteq> row2"
    and "loc_shard loc1 = loc_shard loc2"
  shows "unat (br_offset (loc_range loc1)) + unat (br_length (loc_range loc1)) \<le> unat (br_offset (loc_range loc2)) \<or>
     unat (br_offset (loc_range loc2)) + unat (br_length (loc_range loc2)) \<le> unat (br_offset (loc_range loc1))"
proof -
  note r1 = resolve_extent_nat [OF assms(1,2)] and r2 = resolve_extent_nat [OF assms(1,3)]
  let ?n = "unat (ff_rows_per_shard f)" and ?st = "unat (ff_row_stride f)" and ?w = "unat (ff_row_width f)"
  let ?a = "unat row1 mod ?n" and ?b = "unat row2 mod ?n"
  have w: "?w \<le> ?st" using assms(1) by (simp add: layout_fits_def word_le_nat_alt)
  have "unat row1 div ?n = unat row2 div ?n" using r1(1) r2(1) assms(5) by simp
  then have "?a \<noteq> ?b" using assms(4) by (metis div_mult_mod_eq word_unat_eq_iff)
  then consider "?a + 1 \<le> ?b" | "?b + 1 \<le> ?a" by linarith
  then show ?thesis
  proof cases
    case 1
    then have "(?a + 1) * ?st \<le> ?b * ?st" by (rule mult_right_mono) simp
    then show ?thesis using w r1(2,3) r2(2,3) by simp
  next
    case 2
    then have "(?b + 1) * ?st \<le> ?a * ?st" by (rule mult_right_mono) simp
    then show ?thesis using w r1(2,3) r2(2,3) by simp
  qed
qed

definition sample_flat :: flat_file where
  "sample_flat = \<lparr>ff_row_count = 8, ff_rows_per_shard = 4, ff_row_stride = 64, ff_row_width = 48, ff_base_offset = 16\<rparr>"

lemma flat_rows_disjoint_sample:
  "resolve_extent sample_flat 5 = Inr \<lparr>loc_shard = 1, loc_range = \<lparr>br_offset = 80, br_length = 48\<rparr>\<rparr> \<and>
   unat (16 :: u64) + unat (48 :: u64) \<le> unat (80 :: u64)"
proof -
  have fits: "layout_fits sample_flat" by (simp add: layout_fits_def sample_flat_def)
  have r: "resolve_extent sample_flat 4 = Inr \<lparr>loc_shard = 1, loc_range = \<lparr>br_offset = 16, br_length = 48\<rparr>\<rparr>"
    "resolve_extent sample_flat 5 = Inr \<lparr>loc_shard = 1, loc_range = \<lparr>br_offset = 80, br_length = 48\<rparr>\<rparr>"
    by (simp_all add: resolve_extent_def sample_flat_def)
  from flat_rows_disjoint [OF fits r] r(2) show ?thesis by simp
qed

end
