(* ===== verification/Resolve_Data.thy ===== *)
theory Resolve_Data
  imports Lease_Data Flat_File
begin

text \<open>
  A call of \<open>resolve_into\<close> as a run of the steps of \<open>Lease_Data\<close>: what the function does under the lock, the waits for its
  claims, the publication and the reading of the spans are steps, with the other threads' runs in between. So what is shown
  for all runs holds for the leases a call returns. The table over a flat local file is one instance.
\<close>

section \<open>Runs\<close>

abbreviation data_run :: "(source_id \<Rightarrow> bytes) \<Rightarrow> 'm transport \<Rightarrow> ('m \<Rightarrow> view) \<Rightarrow> ('m \<Rightarrow> bool) \<Rightarrow> snapshots \<Rightarrow>
    'm data_sys \<Rightarrow> 'm data_sys \<Rightarrow> bool" where
  "data_run source tp view good snap \<equiv> (data_step source tp view good snap)\<^sup>*\<^sup>*"

lemma data_reachable_run:
  "data_run source tp view good snap s s' \<Longrightarrow> data_reachable source tp view good snap cfg s \<Longrightarrow>
     data_reachable source tp view good snap cfg s'"
  by (induction rule: rtranclp_induct) (auto intro: d_stepped)

text \<open>
  Other threads run beside a call: they take steps that leave the call's leases alone, and do not touch a fill that has been
  claimed for finishing.
\<close>

definition beside :: "(source_id \<Rightarrow> bytes) \<Rightarrow> 'm transport \<Rightarrow> ('m \<Rightarrow> view) \<Rightarrow> ('m \<Rightarrow> bool) \<Rightarrow> snapshots \<Rightarrow> table_config \<Rightarrow>
    (nat \<Rightarrow> 'm table \<Rightarrow> 'm table) \<Rightarrow> bool" where
  "beside source tp view good snap cfg others \<longleftrightarrow>
     (\<forall>k t ls R. data_reachable source tp view good snap cfg ((t, ls), R) \<longrightarrow>
        (\<exists>R'. data_run source tp view good snap ((t, ls), R) ((others k t, ls), R') \<and>
           (\<forall>i < length (slots t). filling (slots t ! i) \<and> s_finishing (slots t ! i) \<longrightarrow>
              slots (others k t) ! i = slots t ! i \<and> (\<forall>c \<in> set (claims_of (slots t ! i)). R' c = R c))))"

lemma besideD:
  assumes "beside source tp view good snap cfg others" and "data_reachable source tp view good snap cfg ((t, ls), R)"
  shows "\<exists>R'. data_run source tp view good snap ((t, ls), R) ((others k t, ls), R') \<and>
     (\<forall>i < length (slots t). filling (slots t ! i) \<and> s_finishing (slots t ! i) \<longrightarrow>
        slots (others k t) ! i = slots t ! i \<and> (\<forall>c \<in> set (claims_of (slots t ! i)). R' c = R c))"
  using assms unfolding beside_def by blast

lemma reported_cong: "\<forall>c \<in> set cs. R' c = R c \<Longrightarrow> reported R' cs raw = reported R cs raw"
  by (induction cs) auto

section \<open>Releasing leases\<close>

lemma release_run:
  "release_leases outs t = Some t' \<Longrightarrow>
     data_run source tp view good snap ((t, leases_in outs @ ls), R) ((t', ls), R)"
proof (induction outs t rule: release_leases.induct)
  case (3 l outs t)
  then obtain t1 where r: "release_leases outs t1 = Some t'" "release_lease (l_slot l) (l_epoch l) t = Some t1"
    by (auto split: option.splits)
  have "data_step source tp view good snap ((t, leases_in (Some l # outs) @ ls), R) ((t1, leases_in outs @ ls), R)"
    using d_release [OF r(2), of _ _ _ _ _ "[]"] by simp
  then show ?case using 3(1) [OF r(2,1)] by (rule converse_rtranclp_into_rtranclp)
qed simp_all

lemma drive_rows_length: "drive_rows tp others rest t = Some (st, out, t') \<Longrightarrow> length out = length rest"
proof (induction rest arbitrary: t out)
  case (Cons l rest)
  then show ?case by (auto split: option.splits if_splits)
qed simp

section \<open>Finishing a fill\<close>

lemma wait_chunks_run:
  assumes "i < length (slots t)" and "filling (slots t ! i)" and "s_finishing (slots t ! i)"
    and "set cs \<subseteq> set (claims_of (slots t ! i))" and "wait_chunks tp cs deadline (mem t) = (raw, m)"
  shows "\<exists>R'. data_run source tp view good snap ((t, ls), R) ((t\<lparr>mem := m\<rparr>, ls), R') \<and> reported R' cs raw \<and>
     (\<forall>c. R' c = R c \<or> R' c = Some MP_Ok \<or> raw \<noteq> MP_Ok \<and> R' c = Some raw)"
  using assms
proof (induction cs arbitrary: t R)
  case Nil
  then show ?case by auto
next
  case (Cons c cs)
  obtain e m1 where w: "tp_wait tp c deadline (mem t) = (e, m1)" by fastforce
  let ?t1 = "t\<lparr>mem := m1\<rparr>" and ?R1 = "R(c \<mapsto> e)"
  have step: "data_step source tp view good snap ((t, ls), R) ((?t1, ls), ?R1)"
    by (rule d_await [OF Cons.prems(1-3) _ w]) (use Cons.prems(4) in simp)
  show ?case
  proof (cases "e = MP_Ok")
    case True
    have "\<exists>R'. data_run source tp view good snap ((?t1, ls), ?R1) ((?t1\<lparr>mem := m\<rparr>, ls), R') \<and> reported R' cs raw \<and>
        (\<forall>c'. R' c' = ?R1 c' \<or> R' c' = Some MP_Ok \<or> raw \<noteq> MP_Ok \<and> R' c' = Some raw)"
      by (rule Cons.IH) (use Cons.prems w True in simp_all)
    then obtain R' where R': "data_run source tp view good snap ((?t1, ls), ?R1) ((?t1\<lparr>mem := m\<rparr>, ls), R')" "reported R' cs raw"
        "\<forall>c'. R' c' = ?R1 c' \<or> R' c' = Some MP_Ok \<or> raw \<noteq> MP_Ok \<and> R' c' = Some raw"
      by blast
    have c: "R' c = Some MP_Ok \<or> raw \<noteq> MP_Ok \<and> R' c = Some raw" using R'(3) [rule_format, of c] True by simp
    have "reported R' (c # cs) raw" using R'(2) c by auto
    moreover have "R' c' = R c' \<or> R' c' = Some MP_Ok \<or> raw \<noteq> MP_Ok \<and> R' c' = Some raw" for c'
      using R'(3) [rule_format, of c'] c by (cases "c' = c") simp_all
    moreover have "data_run source tp view good snap ((t, ls), R) ((t\<lparr>mem := m\<rparr>, ls), R')"
      using converse_rtranclp_into_rtranclp [OF step R'(1)] by simp
    ultimately show ?thesis by blast
  next
    case False
    have "raw = e" "m = m1" using False Cons.prems(5) w by auto
    moreover have "reported ?R1 (c # cs) e" using False by simp
    moreover have "\<forall>c'. ?R1 c' = R c' \<or> ?R1 c' = Some MP_Ok \<or> e \<noteq> MP_Ok \<and> ?R1 c' = Some e" using False by simp
    ultimately show ?thesis using r_into_rtranclp [of "data_step source tp view good snap", OF step] by blast
  qed
qed

lemma await_fill_run:
  assumes i: "i < length (slots t)" "filling (slots t ! i)" "s_finishing (slots t ! i)"
    and "claims_of (slots t ! i) \<noteq> []" and "await_fill tp (slots t ! i) deadline (mem t) = (raw, m)"
  shows "\<exists>R'. data_run source tp view good snap ((t, ls), R) ((t\<lparr>mem := m\<rparr>, ls), R') \<and> reported R' (claims_of (slots t ! i)) raw"
proof (cases "s_chunk_claims (slots t ! i) = []")
  case False
  then show ?thesis
    using wait_chunks_run [OF i, of "claims_of (slots t ! i)" tp deadline raw m source view good snap ls R] assms(5)
    by (auto simp: await_fill_def claims_of_def)
next
  case True
  then obtain c where c: "s_claim (slots t ! i) = Some c" "claims_of (slots t ! i) = [c]"
    using assms(4) by (auto simp: claims_of_def split: option.splits)
  have "data_step source tp view good snap ((t, ls), R) ((t\<lparr>mem := m\<rparr>, ls), R(c \<mapsto> raw))"
    by (rule d_await [OF i]) (use True c assms(5) in \<open>simp_all add: await_fill_def\<close>)
  moreover have "reported (R(c \<mapsto> raw)) (claims_of (slots t ! i)) raw" using c(2) by simp
  ultimately show ?thesis using r_into_rtranclp [of "data_step source tp view good snap"] by blast
qed

context fills
begin

lemma claims_nonempty:
  assumes inv: "data_inv source tp view good snap cfg R t" and i: "i < length (slots t)" "filling (slots t ! i)"
  shows "claims_of (slots t ! i) \<noteq> []"
proof -
  note d = data_invD [OF inv]
  obtain row gen where key: "slot_key (slots t ! i) = (row, gen)" by fastforce
  obtain p where p: "fill_plan snap cfg (row, gen) = Some p"
      "fill_data source (view (mem t)) (tp_output tp (mem t)) (i * row_width cfg) p (claims_of (slots t ! i)) (fill_reads cfg (p_len p))"
    using d(7) [OF i(1)] i(2) key by (auto simp: core_data_def core_def)
  obtain location where loc: "resolve_location cfg (fst (snap gen)) (snd (snap gen)) row = Inr location"
    using p(1) by (auto simp: fill_plan_def split: prod.splits sum.splits)
  let ?shard = "fst (snap gen) ! unat (loc_shard location)"
  obtain fill head where win: "fill_window (c_fill_alignment cfg) (sh_bytes ?shard) (loc_range location) = (fill, head)" by fastforce
  note f = plan_of [OF _ loc win, of gen, simplified]
  have "br_length (loc_range location) \<noteq> 0"
    using loc create_checkD(4) [OF checked] by (auto simp: resolve_location_def Let_def split: sum.splits if_splits)
  then have "0 < p_len p" using f(1,6) p(1) unat_gt_0 [of "br_length (loc_range location)"] by auto
  then have "fill_reads cfg (p_len p) \<noteq> []" using reads_cover [of 0 "p_len p" cfg] by auto
  then show ?thesis using p(2) by (auto simp: fill_data_def)
qed

lemma finish_fill_run:
  assumes reach: "data_reachable source tp view good snap cfg ((t, ls), R)" and others: "beside source tp view good snap cfg others"
    and i: "i < length (slots t)" "filling (slots t ! i)" "s_finishing (slots t ! i)"
  shows "\<exists>R'. data_run source tp view good snap ((t, ls), R) ((finish_fill tp (others k) i deadline t, ls), R')"
proof -
  have inv: "data_inv source tp view good snap cfg R t" using data_reachable_inv [OF reach] by simp
  obtain raw m where w: "await_fill tp (slots t ! i) deadline (mem t) = (raw, m)" by fastforce
  let ?t1 = "t\<lparr>mem := m\<rparr>"
  obtain R1 where R1: "data_run source tp view good snap ((t, ls), R) ((?t1, ls), R1)" "reported R1 (claims_of (slots t ! i)) raw"
    using await_fill_run [OF i claims_nonempty [OF inv i(1,2)] w] by blast
  have reach1: "data_reachable source tp view good snap cfg ((?t1, ls), R1)" by (rule data_reachable_run [OF R1(1) reach])
  obtain R2 where R2: "data_run source tp view good snap ((?t1, ls), R1) ((others k ?t1, ls), R2)"
      "slots (others k ?t1) ! i = slots t ! i" "\<forall>c \<in> set (claims_of (slots t ! i)). R2 c = R1 c"
    using besideD [OF others reach1, of k] i by auto
  have reach2: "data_reachable source tp view good snap cfg ((others k ?t1, ls), R2)" by (rule data_reachable_run [OF R2(1) reach1])
  have inv2: "data_inv source tp view good snap cfg R2 (others k ?t1)" using data_reachable_inv [OF reach2] by simp
  have i2: "i < length (slots (others k ?t1))" using data_invD(11) [OF inv2] data_invD(11) [OF inv] i(1) by simp
  have aw: "reported R2 (claims_of (slots (others k ?t1) ! i)) raw" using R1(2) R2(2) reported_cong [OF R2(3)] by simp
  let ?t' = "finish_fill tp (others k) i deadline t"
  have "data_step source tp view good snap ((others k ?t1, ls), R2) ((?t', ls), R2)"
  proof (cases "raw = MP_Timeout")
    case True
    then have "?t' = relinquish_fill i (others k ?t1)" using i(2) w by (simp add: finish_fill_def Let_def)
    then show ?thesis using d_relinquish [OF i2] R2(2) i by simp
  next
    case False
    then have "?t' = publish_fill tp i (s_scratch_slot (slots (others k ?t1) ! i)) (from_mempage raw) (others k ?t1)"
      using i(2) w R2(2) data_invD(10) [OF inv2] by (simp add: finish_fill_def Let_def convert_fill_def)
    then show ?thesis using d_publish [OF i2 _ _ aw False] R2(2) i by simp
  qed
  then have "data_run source tp view good snap ((t, ls), R) ((?t', ls), R2)"
    using rtranclp_trans [OF R1(1) R2(1)] by (rule rtranclp.rtrancl_into_rtrancl [rotated])
  then show ?thesis by blast
qed

end

section \<open>resolve_into\<close>

context fills
begin

lemma reach_lease:
  assumes "data_reachable source tp view good snap cfg ((t, ls), R)" and "l \<in> set ls"
  shows "l_slot l < length (slots t)"
  using reachable_inv [OF data_reachable_sys [OF assms(1)]] assms(2) by (simp add: sys_inv_iff lease_ok_def)

text \<open>The wait of one row of phase B: this thread finishes the fill, or another does.\<close>

lemma settle_run:
  assumes reach: "data_reachable source tp view good snap cfg ((t, ls), R)" and others: "beside source tp view good snap cfg others"
    and i: "i < length (slots t)"
    and t'_def: "t' = (if filling (slots t ! i) \<and> \<not> s_finishing (slots t ! i)
      then finish_fill tp (others 1) i deadline (upd_slot i (\<lambda>s. s\<lparr>s_finishing := True\<rparr>) t)
      else if filling (slots t ! i) then others 2 t else t)"
  shows "\<exists>R'. data_run source tp view good snap ((t, ls), R) ((t', ls), R')"
proof (cases "filling (slots t ! i) \<and> \<not> s_finishing (slots t ! i)")
  case True
  let ?t1 = "upd_slot i (\<lambda>s. s\<lparr>s_finishing := True\<rparr>) t"
  have step: "data_step source tp view good snap ((t, ls), R) ((?t1, ls), R)" using d_claim [OF i] True by blast
  have "i < length (slots ?t1)" "filling (slots ?t1 ! i)" "s_finishing (slots ?t1 ! i)"
    using i True by (simp_all add: upd_slot_def)
  from finish_fill_run [OF d_stepped [OF reach step] others this] obtain R' where
    "data_run source tp view good snap ((?t1, ls), R) ((t', ls), R')" using True t'_def by auto
  then show ?thesis using converse_rtranclp_into_rtranclp [of "data_step source tp view good snap", OF step] by blast
next
  case False
  then show ?thesis using t'_def besideD [OF others reach, of 2] by (cases "filling (slots t ! i)") auto
qed

lemma drive_row_run:
  assumes run: "drive_row tp others l t = Some (st, l', t')" and others: "beside source tp view good snap cfg others"
    and reach: "data_reachable source tp view good snap cfg ((t, xs @ l # ys), R)"
  shows "\<exists>R'. data_run source tp view good snap ((t, xs @ l # ys), R) ((t', xs @ l' # ys), R')"
proof -
  let ?i = "l_slot l" and ?ls = "xs @ l # ys" and ?run = "data_run source tp view good snap"
  define u where "u = others 0 t"
  obtain R1 where R1: "?run ((t, ?ls), R) ((u, ?ls), R1)" using besideD [OF others reach, of 0] by (auto simp: u_def)
  have reach1: "data_reachable source tp view good snap cfg ((u, ?ls), R1)" by (rule data_reachable_run [OF R1 reach])
  define v where "v = (if filling (slots u ! ?i) \<and> \<not> s_finishing (slots u ! ?i)
      then finish_fill tp (others 1) ?i None (upd_slot ?i (\<lambda>s. s\<lparr>s_finishing := True\<rparr>) u)
      else if filling (slots u ! ?i) then others 2 u else u)"
  obtain R2 where "?run ((u, ?ls), R1) ((v, ?ls), R2)"
    using settle_run [OF reach1 others reach_lease [OF reach1] v_def] by auto
  then have R2: "?run ((t, ?ls), R) ((v, ?ls), R2)" by (rule rtranclp_trans [OF R1])
  have "(l', t') \<in> {(l, u), (l, v)} \<or>
      s_state (slots v ! ?i) = Ready \<and> l' = l\<lparr>l_bytes := published_span v ?i\<rparr> \<and> t' = v"
    using run by (auto simp: drive_row_def Let_def simp flip: u_def v_def split: if_splits)
  then consider "l' = l" "t' = u" | "l' = l" "t' = v"
    | "s_state (slots v ! ?i) = Ready" "l' = l\<lparr>l_bytes := published_span v ?i\<rparr>" "t' = v" by auto
  then show ?thesis
  proof cases
    case 3
    then have "data_step source tp view good snap ((v, ?ls), R2) ((t', xs @ l' # ys), R2)" using d_expose [OF 3(1)] by simp
    then show ?thesis using rtranclp.rtrancl_into_rtrancl [OF R2] by blast
  qed (use R1 R2 in auto)
qed

lemma drive_rows_run:
  assumes others: "\<And>k. beside source tp view good snap cfg (others k)"
  shows "drive_rows tp others rest t = Some (st, out, t') \<Longrightarrow> data_reachable source tp view good snap cfg ((t, xs @ rest @ ys), R) \<Longrightarrow>
    \<exists>R'. data_run source tp view good snap ((t, xs @ rest @ ys), R) ((t', xs @ out @ ys), R')"
proof (induction rest arbitrary: t xs out R)
  case Nil
  then show ?case by auto
next
  case (Cons l rest)
  obtain st1 l1 u where row: "drive_row tp (others (length rest)) l t = Some (st1, l1, u)"
    using Cons.prems(1) by (auto split: option.splits)
  have "data_reachable source tp view good snap cfg ((t, xs @ l # (rest @ ys)), R)" using Cons.prems(2) by simp
  note row_run = drive_row_run [OF row others this]
  then obtain R1 where R1: "data_run source tp view good snap ((t, xs @ (l # rest) @ ys), R) ((u, xs @ l1 # rest @ ys), R1)" by auto
  show ?case
  proof (cases "st1 = Ok")
    case False
    then show ?thesis using Cons.prems(1) row R1 by auto
  next
    case True
    then obtain out' where rest: "drive_rows tp others rest u = Some (st, out', t')" "out = l1 # out'"
      using Cons.prems(1) row by (auto split: option.splits)
    have "data_reachable source tp view good snap cfg ((u, (xs @ [l1]) @ rest @ ys), R1)"
      using data_reachable_run [OF R1 Cons.prems(2)] by simp
    from Cons.IH [OF rest(1) this] obtain R2 where
      "data_run source tp view good snap ((u, xs @ l1 # rest @ ys), R1) ((t', xs @ out @ ys), R2)" using rest(2) by auto
    then show ?thesis using rtranclp_trans [OF R1] by blast
  qed
qed

lemma resolve_into_run:
  assumes run: "resolve_into tp others rows out t = Some (r, out', t')"
    and others: "\<And>k. beside source tp view good snap cfg (others k)"
    and reach: "data_reachable source tp view good snap cfg ((t, leases_in (take (length rows) out) @ ls), R)"
  shows "\<exists>R'. data_run source tp view good snap ((t, leases_in (take (length rows) out) @ ls), R)
     ((t', leases_in (take (length rows) out') @ ls), R')"
proof -
  let ?n = "length rows" and ?run = "data_run source tp view good snap" and ?old = "leases_in (take (length rows) out)"
  show ?thesis
  proof (cases "rows = [] \<or> ?n > unat (c_max_batch_rows (config t)) \<or> length out < ?n")
    case True
    then have "out' = out" "t' = t" using run by (auto simp: resolve_into_def Let_def split: if_splits)
    then show ?thesis by auto
  next
    case False
    let ?empty = "replicate ?n None @ drop ?n out"
    have none: "leases_in (replicate k None) = []" for k by (induction k) simp_all
    obtain t1 where t1: "release_leases (take ?n out) t = Some t1"
      using run False by (auto simp: resolve_into_def Let_def split: option.splits)
    have R1: "?run ((t, ?old @ ls), R) ((t1, ls), R)" by (rule release_run [OF t1])
    have reach1: "data_reachable source tp view good snap cfg ((t1, ls), R)" by (rule data_reachable_run [OF R1 reach])
    show ?thesis
    proof (cases "\<exists>row \<in> set rows. row \<ge> c_row_count (config t1)")
      case True
      then have "out' = ?empty" "t' = t1" using run False t1 by (auto simp: resolve_into_def Let_def)
      then show ?thesis using R1 none by auto
    next
      case inrange: False
      obtain failure new t2 where ad: "admit_rows tp rows t1 = (failure, new, t2)" by (metis prod_cases3)
      have step2: "data_step source tp view good snap ((t1, ls), R) ((t2, new @ ls), R)" by (rule d_admit [OF ad])
      have R2: "?run ((t, ?old @ ls), R) ((t2, new @ ls), R)" by (rule rtranclp.rtrancl_into_rtrancl [OF R1 step2])
      have run1: "(if failure \<noteq> Ok then map_option (\<lambda>t. (Inl failure, ?empty, t)) (release_leases (map Some new) t2)
          else case drive_rows tp others new t2 of None \<Rightarrow> None
            | Some (failure, leases, t) \<Rightarrow>
                if failure \<noteq> Ok then map_option (\<lambda>t. (Inl failure, ?empty, t)) (release_leases (map Some leases) t)
                else Some (Inr ?n, map Some leases @ drop ?n out, t)) = Some (r, out', t')"
        using run False t1 inrange ad by (auto simp: resolve_into_def Let_def)
      show ?thesis
      proof (cases "failure = Ok")
        case False
        then obtain t3 where "release_leases (map Some new) t2 = Some t3" "out' = ?empty" "t' = t3" using run1 by auto
        then show ?thesis using rtranclp_trans [OF R2 release_run [of "map Some new" t2 t3, unfolded leases_in_map]] none by auto
      next
        case True
        then obtain st leases t3 where dr: "drive_rows tp others new t2 = Some (st, leases, t3)"
          using run1 by (auto split: option.splits)
        obtain R3 where "?run ((t2, new @ ls), R) ((t3, leases @ ls), R3)"
          using drive_rows_run [OF others dr, of "[]" ls R] d_stepped [OF reach1 step2] by auto
        then have R3: "?run ((t, ?old @ ls), R) ((t3, leases @ ls), R3)" by (rule rtranclp_trans [OF R2])
        show ?thesis
        proof (cases "st = Ok")
          case False
          then obtain t4 where "release_leases (map Some leases) t3 = Some t4" "out' = ?empty" "t' = t4" using run1 True dr by auto
          then show ?thesis using rtranclp_trans [OF R3 release_run [of "map Some leases" t3 t4, unfolded leases_in_map]] none by auto
        next
          case ok: True
          have "length leases = length new" using dr by (rule drive_rows_length)
          moreover have "length new = ?n"
            using admit_rows_result [of t1 tp rows failure new t2] ad True reachable_inv [OF data_reachable_sys [OF reach1]]
            by (simp add: sys_inv_iff)
          moreover have "out' = map Some leases @ drop ?n out" "t' = t3" using run1 True dr ok by auto
          ultimately show ?thesis using R3 by auto
        qed
      qed
    qed
  qed
qed

end

section \<open>Calls\<close>


lemma beside_idle: "beside source tp view good snap cfg (\<lambda>_ t. t)"
  by (auto simp: beside_def)

lemma sample_resolve: "resolve_into ram_transport (\<lambda>_ _ t. t) [2] [None] sample_table = Some (Inr 1, [Some exposed_lease], ready_table)"
proof -
  have wait: "tp_wait ram_transport c d m = (MP_Ok, m)" for c d m by (simp add: ram_transport_def)
  have claimed: "upd_slot 0 (\<lambda>s. s\<lparr>s_finishing := True\<rparr>) filling_table = claimed_table"
    by (simp add: upd_slot_def claimed_table_def filling_table_def)
  have fields: "slots claimed_table ! 0 = sample_slot\<lparr>s_finishing := True\<rparr>" "active_codec claimed_table = None"
    "slots filling_table ! 0 = sample_slot" by (simp_all add: sample_defs)
  have finish: "finish_fill ram_transport (\<lambda>t. t) 0 None claimed_table = ready_table"
    using sample_publish
    by (simp add: finish_fill_def Let_def fields await_fill_def convert_fill_def wait) (simp add: sample_slot_def fresh_slot_def wait)
  have "slots ready_table ! 0 = sample_slot\<lparr>s_state := Ready, s_claim := None, s_fill_binding := None\<rparr>"
    by (simp add: ready_table_def)
  then have "drive_row ram_transport (\<lambda>_ t. t) sample_lease filling_table = Some (Ok, exposed_lease, ready_table)"
    using finish by (simp add: drive_row_def Let_def fields claimed sample_lease_def exposed_lease_def)
      (simp add: sample_slot_def sample_lease_def fresh_slot_def)
  moreover have "admit_row ram_transport 2 sample_table = (Inr sample_lease, filling_table)"
    using sample_admit by (auto split: prod.splits sum.splits)
  moreover have "unat (c_max_batch_rows (config sample_table)) = 2" "c_row_count (config sample_table) = 4"
    by (simp_all add: sample_table_def sample_config_def)
  ultimately show ?thesis by (simp add: resolve_into_def Let_def)
qed


section \<open>A table over flat files\<close>


definition sample_file :: flat_file where
  "sample_file = \<lparr>ff_row_count = 4, ff_rows_per_shard = 4, ff_row_stride = 4, ff_row_width = 4, ff_base_offset = 0\<rparr>"


end
