(* ===== verification/Dropped_Chunks.thy ===== *)
theory Dropped_Chunks
  imports Lease_Data
begin

text \<open>
  Why \<open>leases_show_source\<close> asks for refusal across transfer sets when rows are read in chunks. A transport that keeps its
  contract and refuses overlapping submissions within each transfer set, as MemPage does, lets a chunk of a fill that has
  failed overwrite the Ready row that took its slot: the claim was dropped while its read was still running, and the
  new row was on another shard.
\<close>

section \<open>A transport whose reads take time\<close>

datatype transfer_state = Running | Done | Ended

record late =
  lt_source :: "source_id \<Rightarrow> bytes"
  lt_sets :: "(source_id \<times> nat \<times> storage) list"
  lt_output :: bytes
  lt_claims :: "((storage \<times> nat \<times> nat) \<times> source_id \<times> nat) list"
  lt_owner :: "transfer_set list"
  lt_state :: "transfer_state list"
  lt_bad :: "claim list"

definition late_create :: "source_id \<Rightarrow> u64 \<Rightarrow> storage \<Rightarrow> u32 \<Rightarrow> late \<Rightarrow> (mp_status + transfer_set) \<times> late" where
  "late_create src bytes st max_claims m = (Inr (length (lt_sets m)), m\<lparr>lt_sets := lt_sets m @ [(src, unat bytes, st)]\<rparr>)"

text \<open>A submission is refused while a running transfer of the same set has a byte of its destination.\<close>

definition busy_range :: "late \<Rightarrow> transfer_set \<Rightarrow> nat \<Rightarrow> nat \<Rightarrow> bool" where
  "busy_range m ts dst len \<longleftrightarrow> list_ex (\<lambda>c. lt_state m ! c = Running \<and> lt_owner m ! c = ts \<and>
     (case lt_claims m ! c of ((_, off, n), _) \<Rightarrow> off < dst + len \<and> dst < off + n)) [0 ..< length (lt_claims m)]"

definition late_submit :: "transfer_set \<Rightarrow> byte_range \<Rightarrow> u64 \<Rightarrow> late \<Rightarrow> (mp_status + claim) \<times> late" where
  "late_submit ts rng dst m =
     (if length (lt_sets m) \<le> ts then (Inl MP_Invalid_argument, m)
      else
        let (src, size, st) = lt_sets m ! ts; off = unat (br_offset rng); len = unat (br_length rng)
        in if st \<noteq> Output_storage \<or> size < off + len \<or> length (lt_source m src) < off + len \<or> length (lt_output m) < unat dst + len
           then (Inl MP_Out_of_range, m)
           else if busy_range m ts (unat dst) len then (Inl MP_Busy, m)
           else (Inr (length (lt_claims m)),
             m\<lparr>lt_claims := lt_claims m @ [((st, unat dst, len), src, off)], lt_owner := lt_owner m @ [ts], lt_state := lt_state m @ [Running]\<rparr>))"

text \<open>A running transfer ends: with its bytes in place, or with an error.\<close>

definition finish_transfer :: "claim \<Rightarrow> late \<Rightarrow> late" where
  "finish_transfer c m =
     (if c \<in> set (lt_bad m) then m\<lparr>lt_state := (lt_state m)[c := Ended]\<rparr>
      else case lt_claims m ! c of ((_, dst, len), src, off) \<Rightarrow>
        m\<lparr>lt_state := (lt_state m)[c := Done], lt_output := put_at (lt_output m) dst (slice (lt_source m src) off len)\<rparr>)"

definition late_wait :: "claim \<Rightarrow> deadline \<Rightarrow> late \<Rightarrow> mp_status \<times> late" where
  "late_wait c deadline m =
     (let m' = (if lt_state m ! c = Running then finish_transfer c m else m)
      in (if lt_state m' ! c = Done then MP_Ok else MP_Io_error, m'))"

definition late_bytes :: "claim \<Rightarrow> late \<Rightarrow> bytes" where
  "late_bytes c m = (case lt_claims m ! c of ((_, dst, len), _) \<Rightarrow> slice (lt_output m) dst len)"

definition late_transport :: "late transport" where
  "late_transport = \<lparr>tp_create = late_create, tp_submit = late_submit, tp_wait = late_wait, tp_bytes = late_bytes,
     tp_reset = (\<lambda>c m. m), tp_output = lt_output, tp_put = (\<lambda>off bs m. m\<lparr>lt_output := put_at (lt_output m) off bs\<rparr>)\<rparr>"

section \<open>It keeps the contract\<close>

definition late_view :: "late \<Rightarrow> view" where
  "late_view m = \<lparr>v_issued = {..<length (lt_claims m)}, v_pending = {c. c < length (lt_claims m) \<and> lt_state m ! c = Running},
     v_done = {c. c < length (lt_claims m) \<and> lt_state m ! c = Done},
     v_dest = (\<lambda>c. fst (lt_claims m ! c)), v_from = (\<lambda>c. snd (lt_claims m ! c)),
     v_set = (\<lambda>ts. if ts < length (lt_sets m) then Some (lt_sets m ! ts) else None)\<rparr>"

definition late_good :: "(source_id \<Rightarrow> bytes) \<Rightarrow> late \<Rightarrow> bool" where
  "late_good source m \<longleftrightarrow> lt_source m = source \<and> length (lt_state m) = length (lt_claims m) \<and>
     (\<forall>((st, dst, len), src, off) \<in> set (lt_claims m).
        st = Output_storage \<and> dst + len \<le> length (lt_output m) \<and> off + len \<le> length (source src))"

lemma late_goodD:
  assumes "late_good source m" and "c < length (lt_claims m)" and "lt_claims m ! c = ((st, dst, len), src, off)"
  shows "st = Output_storage" and "dst + len \<le> length (lt_output m)" and "off + len \<le> length (source src)"
  using assms nth_mem [OF assms(2)] by (fastforce simp: late_good_def)+

lemma late_view_ok: "view_ok (late_view m)"
  by (auto simp: view_ok_def late_view_def)

lemma finish_transfer_steps:
  assumes g: "late_good source m" and c: "c < length (lt_claims m)" "lt_state m ! c = Running"
  shows "steps source late_transport late_view (late_good source) m (finish_transfer c m)"
    and "lt_claims (finish_transfer c m) = lt_claims m" and "lt_state (finish_transfer c m) ! c \<noteq> Running"
proof -
  let ?m = "finish_transfer c m"
  obtain st dst len src off where cl: "lt_claims m ! c = ((st, dst, len), src, off)" by (metis prod.exhaust)
  note d = late_goodD [OF g c(1) cl]
  have len: "length (lt_state m) = length (lt_claims m)" and src: "lt_source m = source" using g by (simp_all add: late_good_def)
  let ?data = "slice (source src) off len"
  have data: "length ?data = len" using d(3) by simp
  show same: "lt_claims ?m = lt_claims m" by (simp add: finish_transfer_def cl)
  show "lt_state ?m ! c \<noteq> Running" using c(1) len by (simp add: finish_transfer_def cl)
  have sets: "lt_sets ?m = lt_sets m" by (simp add: finish_transfer_def cl)
  have state: "lt_state ?m ! x = (if x = c then if c \<in> set (lt_bad m) then Ended else Done else lt_state m ! x)" for x
    using c(1) len by (simp add: finish_transfer_def cl nth_list_update)
  have out: "lt_output ?m = (if c \<in> set (lt_bad m) then lt_output m else put_at (lt_output m) dst ?data)"
    by (simp add: finish_transfer_def cl src)
  then have outlen: "length (lt_output ?m) = length (lt_output m)" using d(2) data by simp
  have good': "late_good source ?m"
    using g outlen same unfolding late_good_def by (simp add: finish_transfer_def cl)
  have byte: "lt_output ?m ! k = (if c \<notin> set (lt_bad m) \<and> dst \<le> k \<and> k < dst + len then source src ! (off + (k - dst)) else lt_output m ! k)"
    if "k < length (lt_output m)" for k
    using that d(2,3) data nth_put_at [of dst ?data "lt_output m" k] by (auto simp: out nth_slice)
  have "moves source (late_view m, lt_output m) (late_view ?m, lt_output ?m)"
    unfolding moves_def prod.case
  proof (intro conjI ballI allI impI)
    fix k assume k: "k < length (lt_output m)" "\<not> covers (late_view ?m) (writers (late_view m) (late_view ?m)) k"
    have "c \<in> writers (late_view m) (late_view ?m)" using c by (simp add: writers_def late_view_def)
    then have "\<not> (dst \<le> k \<and> k < dst + len)" using k(2) cl d(1) same by (auto simp: covers_def late_view_def)
    then show "lt_output ?m ! k = lt_output m ! k" using byte [OF k(1)] by auto
  next
    fix x dst' len' src' start k
    assume x: "x \<in> v_done (late_view ?m) - v_done (late_view m)" and xs: "v_dest (late_view ?m) x = (Output_storage, dst', len')"
      "v_from (late_view ?m) x = (src', start)" "k < len'" "dst' + k < length (lt_output m)"
    have "x = c" "c \<notin> set (lt_bad m)" using x state same by (auto simp: late_view_def split: if_splits)
    then show "lt_output ?m ! (dst' + k) = source src' ! (start + k)"
      using xs cl same byte [of "dst' + k"] by (simp add: late_view_def)
  qed (use same sets state outlen c in \<open>auto simp: view_ok_def late_view_def writers_def split: if_splits\<close>)
  then show "steps source late_transport late_view (late_good source) m ?m"
    using good' by (simp add: steps_def late_transport_def)
qed

lemma late_submit_step:
  assumes g: "late_good source m" and run: "late_submit ts rng dst m = (Inr c, m')"
  shows "c = length (lt_claims m)" and "steps source late_transport late_view (late_good source) m m'"
    and "ts < length (lt_sets m)" and "\<exists>src n st. lt_sets m ! ts = (src, n, st) \<and> unat (br_offset rng) + unat (br_length rng) \<le> n \<and>
       lt_claims m' = lt_claims m @ [((st, unat dst, unat (br_length rng)), src, unat (br_offset rng))]"
proof -
  obtain src n st where set: "lt_sets m ! ts = (src, n, st)" by (metis prod_cases3)
  have m': "c = length (lt_claims m)" "ts < length (lt_sets m)" "st = Output_storage" "unat (br_offset rng) + unat (br_length rng) \<le> n"
    "unat (br_offset rng) + unat (br_length rng) \<le> length (source src)" "unat dst + unat (br_length rng) \<le> length (lt_output m)"
    "m' = m\<lparr>lt_claims := lt_claims m @ [((st, unat dst, unat (br_length rng)), src, unat (br_offset rng))], lt_owner := lt_owner m @ [ts],
       lt_state := lt_state m @ [Running]\<rparr>"
    using run set g by (auto simp: late_submit_def Let_def late_good_def split: if_splits)
  show "c = length (lt_claims m)" "ts < length (lt_sets m)" using m' by simp_all
  show "\<exists>src n st. lt_sets m ! ts = (src, n, st) \<and> unat (br_offset rng) + unat (br_length rng) \<le> n \<and>
       lt_claims m' = lt_claims m @ [((st, unat dst, unat (br_length rng)), src, unat (br_offset rng))]"
    using set m'(4,7) by simp
  have good': "late_good source m'" using g m'(3,5,6,7) by (auto simp: late_good_def)
  have len: "length (lt_state m) = length (lt_claims m)" using g by (simp add: late_good_def)
  have "moves source (late_view m, lt_output m) (late_view m', lt_output m')"
    unfolding moves_def prod.case using m'(7) len
    by (auto simp: view_ok_def late_view_def writers_def nth_append less_Suc_eq)
  then show "steps source late_transport late_view (late_good source) m m'" using good' by (simp add: steps_def late_transport_def)
qed

lemma late_stays: "late_good source m \<Longrightarrow> steps source late_transport late_view (late_good source) m m"
  by (simp add: steps_def moves_refl late_view_ok)

lemma late_contract: "transfer_contract source late_transport late_view (late_good source)"
  unfolding transfer_contract_def
proof (intro conjI allI impI)
  show "view_ok (late_view m)" for m by (rule late_view_ok)
next
  fix m src n st k r m' assume g: "late_good source m" and "tp_create late_transport src n st k m = (r, m')"
  then have m': "r = Inr (length (lt_sets m))" "m' = m\<lparr>lt_sets := lt_sets m @ [(src, unat n, st)]\<rparr>"
    by (simp_all add: late_transport_def late_create_def)
  then show "steps source late_transport late_view (late_good source) m m'" "v_issued (late_view m') = v_issued (late_view m)"
    "\<And>ts. r = Inr ts \<Longrightarrow> v_set (late_view m') ts = Some (src, unat n, st)"
    using g by (auto simp: steps_def moves_def late_good_def late_transport_def late_view_def view_ok_def nth_append writers_def)
next
  fix m ts rng dst r m' assume g: "late_good source m" and run: "tp_submit late_transport ts rng dst m = (r, m')"
  then have run': "late_submit ts rng dst m = (r, m')" by (simp add: late_transport_def)
  have refused: "m' = m" if "r = Inl e" for e
    using run' that by (auto simp: late_submit_def Let_def split: if_splits prod.splits)
  show "steps source late_transport late_view (late_good source) m m'"
    using refused late_stays [OF g] late_submit_step(2) [OF g] run' by (cases r) auto
  show "v_issued (late_view m') = v_issued (late_view m)" if "r = Inl e" for e using refused that by simp
  fix c assume c: "r = Inr c"
  note s = late_submit_step [OF g run' [unfolded c]]
  obtain src n st where set: "lt_sets m ! ts = (src, n, st)" "unat (br_offset rng) + unat (br_length rng) \<le> n"
    "lt_claims m' = lt_claims m @ [((st, unat dst, unat (br_length rng)), src, unat (br_offset rng))]" using s(4) by blast
  show "c \<notin> v_issued (late_view m)" "v_issued (late_view m') = insert c (v_issued (late_view m))"
    using s(1) set(3) by (auto simp: late_view_def)
  fix src' n' st' assume "v_set (late_view m) ts = Some (src', n', st')"
  then have "src' = src" "n' = n" "st' = st" using s(3) set(1) by (simp_all add: late_view_def)
  then show "v_dest (late_view m') c = (st', unat dst, unat (br_length rng))" "v_from (late_view m') c = (src', unat (br_offset rng))"
    "unat (br_offset rng) + unat (br_length rng) \<le> n'"
    using s(1) set by (simp_all add: late_view_def)
next
  fix m c d raw m' assume g: "late_good source m" and ci: "c \<in> v_issued (late_view m)" and run: "tp_wait late_transport c d m = (raw, m')"
  have m': "m' = (if lt_state m ! c = Running then finish_transfer c m else m)" "raw = (if lt_state m' ! c = Done then MP_Ok else MP_Io_error)"
    using run by (auto simp: late_transport_def late_wait_def Let_def)
  have c: "c < length (lt_claims m)" using ci by (simp add: late_view_def)
  have "steps source late_transport late_view (late_good source) m m' \<and> lt_claims m' = lt_claims m \<and> lt_state m' ! c \<noteq> Running"
    using finish_transfer_steps [OF g c] late_stays [OF g] m'(1) by auto
  then show "steps source late_transport late_view (late_good source) m m'" "v_issued (late_view m') = v_issued (late_view m)"
    "raw = MP_Ok \<Longrightarrow> c \<in> v_done (late_view m')" "raw \<noteq> MP_Timeout \<Longrightarrow> c \<notin> v_pending (late_view m')"
    using m'(2) c by (auto simp: late_view_def split: if_splits)
next
  fix m c assume "late_good source m"
  then show "steps source late_transport late_view (late_good source) m (tp_reset late_transport c m)"
    "v_issued (late_view (tp_reset late_transport c m)) = v_issued (late_view m)"
    using late_stays by (simp_all add: late_transport_def)
qed

section \<open>A run that overwrites a Ready row\<close>

definition late_data :: "source_id \<Rightarrow> bytes" where
  "late_data src = (if src = 7 then [1, 2, 3, 4] else [5, 6, 7, 8])"

definition late_resolver :: resolver where
  "late_resolver row = Inr \<lparr>loc_shard = ucast row, loc_range = \<lparr>br_offset = 0, br_length = 4\<rparr>\<rparr>"

definition late_sources :: "shard_source list" where
  "late_sources = [\<lparr>sh_source = 7, sh_bytes = 4\<rparr>, \<lparr>sh_source = 8, sh_bytes = 4\<rparr>]"

text \<open>One slot of four bytes, two rows of four bytes on two shards, read in chunks of two bytes.\<close>

definition late_config :: table_config where
  "late_config = \<lparr>c_row_count = 2, c_source_row_bytes = 4, c_row_extent = Exact, c_fill_chunk_bytes = 2,
     c_fill_alignment = 0, c_output_row_bytes = 4, c_representation = Identity, c_codec = None,
     c_sources = late_sources, c_generation = 1, c_resolve_extent = Some late_resolver,
     c_output_addr = 0, c_output_size = 4, c_budget_rows = 1, c_scratch_size = 0, c_scratch_rows = 0,
     c_max_tickets = 1, c_max_batch_rows = 1\<rparr>"

definition late_memory :: late where
  "late_memory = \<lparr>lt_source = late_data, lt_sets = [], lt_output = [0, 0, 0, 0], lt_claims = [], lt_owner = [], lt_state = [], lt_bad = [0]\<rparr>"

text \<open>The states of the run: the slot, the index, what is counted, and the transport's claims.\<close>

definition late_table :: "slot \<Rightarrow> index_vec \<Rightarrow> nat \<Rightarrow> nat \<Rightarrow> nat \<Rightarrow> table_stats \<Rightarrow> late \<Rightarrow> late table" where
  "late_table s ix pins fl busy c m = \<lparr>config = late_config, active_codec = None, chunks_per_row = 2,
     current_binding = \<lparr>b_id = 0, b_sources = late_sources, b_resolver = late_resolver, b_row_transfers = [0, 1],
       b_scratch_transfers = [], b_in_flight = fl\<rparr>,
     retiring_binding = None, slots = [s], index = ix, index_shift = 63, tickets = [fresh_ticket], waiters = [(None, 0)],
     clock_hand = 0, current_generation = 1, pins_total = pins, tickets_held = 0, in_flight = fl, non_free = busy, counters = c,
     scratch_used = [], worker_stopping = False, next_binding = 1, mem = m\<rparr>"

definition late_ram :: "nat \<Rightarrow> transfer_state list \<Rightarrow> bytes \<Rightarrow> late" where
  "late_ram n sts out = late_memory\<lparr>lt_sets := [(7, 4, Output_storage), (8, 4, Output_storage)],
     lt_claims := take n [((Output_storage, 0, 2), 7, 0), ((Output_storage, 2, 2), 7, 2), ((Output_storage, 0, 2), 8, 0), ((Output_storage, 2, 2), 8, 2)],
     lt_owner := take n [0, 0, 1, 1], lt_state := sts, lt_output := out\<rparr>"

definition first_slot :: slot where
  "first_slot = fresh_slot\<lparr>s_row_generation := 1, s_epoch := 1, s_pins := 1, s_state := Filling, s_referenced := True,
     s_indexed := True, s_fill_binding := Some 0, s_chunk_claims := [0, 1], s_published_bytes := 4\<rparr>"

definition second_slot :: slot where
  "second_slot = fresh_slot\<lparr>s_row_index := 1, s_row_generation := 1, s_epoch := 2, s_pins := 1, s_state := Filling, s_referenced := True,
     s_indexed := True, s_fill_binding := Some 0, s_chunk_claims := [2, 3], s_published_bytes := 4\<rparr>"

definition failed_slot :: slot where
  "failed_slot = first_slot\<lparr>s_state := Failed, s_failure := Io_error, s_indexed := False, s_fill_binding := None, s_chunk_claims := []\<rparr>"

definition ready_slot :: slot where
  "ready_slot = second_slot\<lparr>s_state := Ready, s_fill_binding := None, s_chunk_claims := []\<rparr>"

definition first_lease :: lease where
  "first_lease = \<lparr>l_slot = 0, l_epoch = 1, l_bytes = (0, 0), l_row_index = 0, l_generation = 1\<rparr>"

definition second_lease :: lease where
  "second_lease = \<lparr>l_slot = 0, l_epoch = 2, l_bytes = (0, 0), l_row_index = 1, l_generation = 1\<rparr>"

abbreviation "fetched n \<equiv> zero_stats\<lparr>fetches := n\<rparr>"
abbreviation "fetched_failed n \<equiv> zero_stats\<lparr>fetches := n, failed := 1\<rparr>"

lemmas late_defs = late_table_def late_ram_def late_memory_def late_config_def first_slot_def second_slot_def failed_slot_def
  ready_slot_def first_lease_def second_lease_def fresh_slot_def zero_stats_def

lemma late_home: "index_home 63 (0, 1) = 0" "index_home 63 (1, 1) = 1"
  by (simp_all add: index_home_def index_hash_def Let_def)

lemma late_reads: "chunk_reads 2 0 4 = [(0, 2), (2, 2)]"
  by (simp add: chunk_reads.simps)

lemma late_chunks: "chunks_per_row_of late_config = 2"
  by (simp add: chunks_per_row_of_def late_config_def Let_def)

lemma late_created: "create late_transport late_config late_memory = Inr (late_table fresh_slot [None, None] 0 0 0 zero_stats (late_ram 0 [] [0, 0, 0, 0]))"
proof -
  have "bit_ceil 2 = 2" "countr_zero 2 = 1" by code_simp+
  moreover have "create_check late_config = None"
    by (simp add: create_check_def late_config_def late_sources_def representation_check_def SIZE_MAX_def NONE_def
        word_le_nat_alt)
  ultimately show ?thesis
    using late_chunks
    by (simp add: create_def new_table_def Let_def make_binding_def active_codec_of_def late_transport_def late_create_def late_defs late_sources_def
        replicate_small)
qed

lemma late_first:
  "admit_rows late_transport [0] (late_table fresh_slot [None, None] 0 0 0 zero_stats (late_ram 0 [] [0, 0, 0, 0])) =
     (Ok, [first_lease], late_table first_slot [Some 0, None] 1 1 1 (fetched 1) (late_ram 2 [Running, Running] [0, 0, 0, 0]))"
proof -
  let ?t = "late_table fresh_slot [None, None] 0 0 0 zero_stats (late_ram 0 [] [0, 0, 0, 0])"
  have miss: "table_find ?t 0 1 = None" by (simp add: late_table_def index_find_def late_home find_stop_def)
  have "unat (2 * of_nat (length (slots ?t)) :: u32) = Suc 1" by (simp add: late_table_def)
  then have victim: "claim_victim late_transport ?t = (Some 0, ?t)"
    unfolding claim_victim_def by (simp only: claim_victim_loop.simps) (simp add: late_table_def fresh_slot_def Let_def)
  have start: "start_fill_locked late_transport 0 0 ?t =
     (Ok, late_table (first_slot\<lparr>s_pins := 0, s_referenced := False\<rparr>) [Some 0, None] 0 1 1 (fetched 1) (late_ram 2 [Running, Running] [0, 0, 0, 0]))"
    by (simp add: start_fill_locked_def Let_def admit_slot_def upd_slot_def late_defs resolve_location_def late_resolver_def late_sources_def
        fill_window_def submit_fill_def late_transport_def late_submit_def busy_range_def late_data_def fill_started_def count_def
        index_insert_def late_home late_reads)
  have "current_generation ?t = 1" by (simp add: late_table_def)
  then show ?thesis
    by (simp add: admit_row_def miss victim start) (simp add: pin_slot_def upd_slot_def make_lease_def late_defs)
qed

abbreviation late_zero :: bytes where
  "late_zero \<equiv> [0, 0, 0, 0]"

lemma late_waits:
  "late_wait 0 None (late_ram 2 [Running, Running] late_zero) = (MP_Io_error, late_ram 2 [Ended, Running] late_zero)"
  "late_wait 2 None (late_ram 4 [Ended, Running, Running, Running] late_zero) = (MP_Ok, late_ram 4 [Ended, Running, Done, Running] [5, 6, 0, 0])"
  "late_wait 3 None (late_ram 4 [Ended, Running, Done, Running] [5, 6, 0, 0]) = (MP_Ok, late_ram 4 [Ended, Running, Done, Done] [5, 6, 7, 8])"
  "finish_transfer 1 (late_ram 4 [Ended, Running, Done, Done] [5, 6, 7, 8]) = late_ram 4 [Ended, Done, Done, Done] [5, 6, 3, 4]"
  by (simp_all add: late_wait_def finish_transfer_def late_ram_def late_memory_def late_data_def slice_def put_at_def Let_def)

lemma late_erased: "keys 0 = (0, 1) \<Longrightarrow> index_erase 63 keys [Some 0, None] (0, 1) = [None, None]"
  by (simp add: index_erase_def late_home key_stop_def Let_def)

lemma late_failed:
  "publish_fill late_transport 0 None Io_error
     (late_table (first_slot\<lparr>s_finishing := True\<rparr>) [Some 0, None] 1 1 1 (fetched 1) (late_ram 2 [Ended, Running] late_zero)) =
   late_table failed_slot [None, None] 1 0 1 (fetched_failed 1) (late_ram 2 [Ended, Running] late_zero)"
  by (simp add: late_erased publish_fill_def upd_slot_def leave_binding_def reset_claims_def late_transport_def Let_def unindex_locked_def count_def
      slot_key_def slot_keys_eq late_defs)

lemma late_second:
  "admit_rows late_transport [1] (late_table (failed_slot\<lparr>s_pins := 0\<rparr>) [None, None] 0 0 1 (fetched_failed 1) (late_ram 2 [Ended, Running] late_zero)) =
     (Ok, [second_lease], late_table second_slot [None, Some 0] 1 1 1 (fetched_failed 2)
        (late_ram 4 [Ended, Running, Running, Running] late_zero))"
proof -
  define t where "t = late_table (failed_slot\<lparr>s_pins := 0\<rparr>) [None, None] 0 0 1 (fetched_failed 1) (late_ram 2 [Ended, Running] late_zero)"
  define t1 where "t1 = late_table (failed_slot\<lparr>s_pins := 0, s_state := Free, s_referenced := False\<rparr>) [None, None] 0 0 0
    (fetched_failed 1) (late_ram 2 [Ended, Running] late_zero)"
  define t2 where "t2 = late_table (second_slot\<lparr>s_pins := 0, s_referenced := False\<rparr>) [None, Some 0] 0 1 1 (fetched_failed 2)
    (late_ram 4 [Ended, Running, Running, Running] late_zero)"
  have miss: "table_find t 1 1 = None" by (simp add: t_def late_table_def index_find_def late_home find_stop_def)
  have "unat (2 * of_nat (length (slots t)) :: u32) = Suc 1" by (simp add: t_def late_table_def)
  then have victim: "claim_victim late_transport t = (Some 0, t1)"
    unfolding claim_victim_def by (simp only: claim_victim_loop.simps)
      (simp add: t_def t1_def make_free_def unindex_locked_def reset_claims_def upd_slot_def late_defs Let_def)
  have start: "start_fill_locked late_transport 0 1 t1 = (Ok, t2)"
    by (simp add: t1_def t2_def start_fill_locked_def Let_def admit_slot_def upd_slot_def late_defs resolve_location_def late_resolver_def
        late_sources_def fill_window_def submit_fill_def late_transport_def late_submit_def busy_range_def late_data_def fill_started_def
        count_def index_insert_def late_home late_reads upt_rec)
  have "current_generation t = 1" by (simp add: t_def late_table_def)
  then show ?thesis
    unfolding t_def [symmetric]
    by (simp add: admit_row_def miss victim start) (simp add: t2_def pin_slot_def upd_slot_def make_lease_def late_defs)
qed

lemma late_published:
  "publish_fill late_transport 0 None Ok
     (late_table (second_slot\<lparr>s_finishing := True\<rparr>) [None, Some 0] 1 1 1 (fetched_failed 2) m) =
   late_table ready_slot [None, Some 0] 1 0 1 (fetched_failed 2) m"
  by (simp add: publish_fill_def upd_slot_def leave_binding_def reset_claims_def late_transport_def Let_def late_defs)

definition late_snapshots :: snapshots where
  "late_snapshots gen = (late_sources, late_resolver)"

definition late_lease :: lease where
  "late_lease = second_lease\<lparr>l_bytes := (0, 4)\<rparr>"

text \<open>The state after the late chunk: row 1 is Ready and leased, and holds two bytes of row 0.\<close>

definition late_end :: "late table" where
  "late_end = late_table ready_slot [None, Some 0] 1 0 1 (fetched_failed 2) (late_ram 4 [Ended, Done, Done, Done] [5, 6, 3, 4])"

abbreviation late_reach :: "late data_sys \<Rightarrow> bool" where
  "late_reach \<equiv> data_reachable late_data late_transport late_view (late_good late_data) late_snapshots late_config"

abbreviation late_step :: "late data_sys \<Rightarrow> late data_sys \<Rightarrow> bool" where
  "late_step \<equiv> data_step late_data late_transport late_view (late_good late_data) late_snapshots"

lemmas late_fields = late_table_def first_slot_def second_slot_def failed_slot_def ready_slot_def fresh_slot_def claims_of_def

lemma late_wait_is: "tp_wait late_transport = late_wait"
  by (simp add: late_transport_def)

text \<open>The first fill fails: its second chunk is still running when its claims are dropped.\<close>

lemma late_run_failed:
  "late_reach ((late_table (failed_slot\<lparr>s_pins := 0\<rparr>) [None, None] 0 0 1 (fetched_failed 1) (late_ram 2 [Ended, Running] late_zero), []),
     [0 \<mapsto> MP_Io_error])"
proof -
  let ?m = "late_ram 2 [Running, Running] late_zero" and ?m' = "late_ram 2 [Ended, Running] late_zero" and ?R = "[0 \<mapsto> MP_Io_error]"
  let ?fin = "first_slot\<lparr>s_finishing := True\<rparr>"
  have "late_reach ((late_table fresh_slot [None, None] 0 0 0 zero_stats (late_ram 0 [] late_zero), []), \<lambda>_. None)"
    by (rule d_created [OF late_created])
      (simp_all add: late_good_def late_memory_def late_transport_def late_view_def late_snapshots_def late_config_def)
  from d_stepped [OF this d_admit [OF late_first]]
  have r1: "late_reach ((late_table first_slot [Some 0, None] 1 1 1 (fetched 1) ?m, [first_lease]), \<lambda>_. None)" by simp
  have "late_step ((late_table first_slot [Some 0, None] 1 1 1 (fetched 1) ?m, [first_lease]), \<lambda>_. None)
      ((late_table ?fin [Some 0, None] 1 1 1 (fetched 1) ?m, [first_lease]), \<lambda>_. None)"
    using d_claim [of 0 "late_table first_slot [Some 0, None] 1 1 1 (fetched 1) ?m"] by (simp add: late_fields upd_slot_def)
  note r2 = d_stepped [OF r1 this]
  have "late_step ((late_table ?fin [Some 0, None] 1 1 1 (fetched 1) ?m, [first_lease]), \<lambda>_. None)
      ((late_table ?fin [Some 0, None] 1 1 1 (fetched 1) ?m', [first_lease]), ?R)"
    using d_await [of 0 "late_table ?fin [Some 0, None] 1 1 1 (fetched 1) ?m" 0 late_transport None MP_Io_error ?m'
      late_data late_view "late_good late_data" late_snapshots "[first_lease]" "\<lambda>_. None"]
    by (simp add: late_wait_is late_fields late_waits)
  note r3 = d_stepped [OF r2 this]
  have "late_step ((late_table ?fin [Some 0, None] 1 1 1 (fetched 1) ?m', [first_lease]), ?R)
      ((late_table failed_slot [None, None] 1 0 1 (fetched_failed 1) ?m', [first_lease]), ?R)"
    using d_publish [of 0 "late_table ?fin [Some 0, None] 1 1 1 (fetched 1) ?m'" ?R MP_Io_error late_data late_transport
      late_view "late_good late_data" late_snapshots "[first_lease]"] late_failed
    by (simp add: late_fields)
  note r4 = d_stepped [OF r3 this]
  have "release_lease (l_slot first_lease) (l_epoch first_lease) (late_table failed_slot [None, None] 1 0 1 (fetched_failed 1) ?m') =
      Some (late_table (failed_slot\<lparr>s_pins := 0\<rparr>) [None, None] 0 0 1 (fetched_failed 1) ?m')"
    by (simp add: release_lease_def unpin_locked_def upd_slot_def first_lease_def late_fields)
  from d_release [OF this, of late_data late_transport late_view "late_good late_data" late_snapshots "[]" "[]" ?R] d_stepped [OF r4]
  show ?thesis by simp
qed

text \<open>The second fill takes the slot and succeeds; then the late chunk arrives.\<close>

lemma late_run:
  "\<exists>R. late_reach ((late_end, [late_lease]), R)"
proof -
  let ?m1 = "late_ram 4 [Ended, Running, Running, Running] late_zero" and ?m2 = "late_ram 4 [Ended, Running, Done, Running] [5, 6, 0, 0]"
  let ?m3 = "late_ram 4 [Ended, Running, Done, Done] [5, 6, 7, 8]"
  let ?R1 = "[0 \<mapsto> MP_Io_error]" and ?R2 = "[0 \<mapsto> MP_Io_error, 2 \<mapsto> MP_Ok]" and ?R3 = "[0 \<mapsto> MP_Io_error, 2 \<mapsto> MP_Ok, 3 \<mapsto> MP_Ok]"
  let ?fin = "second_slot\<lparr>s_finishing := True\<rparr>" and ?t = "\<lambda>s. late_table s [None, Some 0] 1 1 1 (fetched_failed 2)"
  let ?ready = "late_table ready_slot [None, Some 0] 1 0 1 (fetched_failed 2)"
  from d_stepped [OF late_run_failed d_admit [OF late_second]]
  have r1: "late_reach ((?t second_slot ?m1, [second_lease]), ?R1)" by simp
  have "late_step ((?t second_slot ?m1, [second_lease]), ?R1) ((?t ?fin ?m1, [second_lease]), ?R1)"
    using d_claim [of 0 "?t second_slot ?m1"] by (simp add: late_fields upd_slot_def)
  note r2 = d_stepped [OF r1 this]
  have "late_step ((?t ?fin ?m1, [second_lease]), ?R1) ((?t ?fin ?m2, [second_lease]), ?R2)"
    using d_await [of 0 "?t ?fin ?m1" 2 late_transport None MP_Ok ?m2 late_data late_view "late_good late_data" late_snapshots "[second_lease]" ?R1]
    by (simp add: late_wait_is late_fields late_waits)
  note r3 = d_stepped [OF r2 this]
  have "late_step ((?t ?fin ?m2, [second_lease]), ?R2) ((?t ?fin ?m3, [second_lease]), ?R3)"
    using d_await [of 0 "?t ?fin ?m2" 3 late_transport None MP_Ok ?m3 late_data late_view "late_good late_data" late_snapshots "[second_lease]" ?R2]
    by (simp add: late_wait_is late_fields late_waits)
  note r4 = d_stepped [OF r3 this]
  have "late_step ((?t ?fin ?m3, [second_lease]), ?R3) ((?ready ?m3, [second_lease]), ?R3)"
    using d_publish [of 0 "?t ?fin ?m3" ?R3 MP_Ok late_data late_transport late_view "late_good late_data" late_snapshots "[second_lease]"]
      late_published by (simp add: late_fields)
  note r5 = d_stepped [OF r4 this]
  have "published_span (?ready ?m3) (l_slot second_lease) = (0, 4)" "s_state (slots (?ready ?m3) ! l_slot second_lease) = Ready"
    by (simp_all add: published_span_def output_span_def second_lease_def late_fields late_config_def)
  then have "late_step ((?ready ?m3, [second_lease]), ?R3) ((?ready ?m3, [late_lease]), ?R3)"
    using d_expose [of "?ready ?m3" second_lease late_data late_transport late_view "late_good late_data" late_snapshots "[]" "[]"]
    by (simp add: late_lease_def)
  note r6 = d_stepped [OF r5 this]
  have mem: "mem (?ready ?m3) = ?m3" by (simp add: late_table_def)
  have good: "late_good late_data ?m3" and one: "1 < length (lt_claims ?m3)" "lt_state ?m3 ! 1 = Running"
    by (simp_all add: late_good_def late_ram_def late_memory_def late_data_def)
  note f = finish_transfer_steps [OF good one]
  have "late_step ((?ready ?m3, [late_lease]), ?R3) ((late_end, [late_lease]), ?R3)"
    using d_progress [of late_data late_transport late_view "late_good late_data" "?ready ?m3" "finish_transfer 1 ?m3" late_snapshots "[late_lease]" ?R3]
      f(1,2) late_waits(4) by (simp add: mem late_view_def) (simp add: late_end_def late_table_def)
  from d_stepped [OF r6 this] show ?thesis by blast
qed

text \<open>
  The transport keeps its contract, the table is configured as it should be, the lease is held and exposed on a Ready row, and
  it shows \<open>5, 6, 3, 4\<close> where the source of its row has \<open>5, 6, 7, 8\<close>.
\<close>

lemma late_chunk_corrupts:
  "transfer_contract late_data late_transport late_view (late_good late_data) \<and> c_representation late_config = Identity \<and>
   width_fits late_config \<and> sources_fit late_data late_snapshots late_config \<and>
   (\<exists>R. late_reach ((late_end, [late_lease]), R)) \<and>
   s_state (slots late_end ! l_slot late_lease) = Ready \<and> l_bytes late_lease = (0, 4) \<and>
   slice (tp_output late_transport (mem late_end)) 0 4 = [5, 6, 3, 4] \<and>
   \<not> shows_source late_data late_snapshots late_config (tp_output late_transport (mem late_end)) late_lease"
proof (intro conjI late_contract late_run)
  show out: "slice (tp_output late_transport (mem late_end)) 0 4 = [5, 6, 3, 4]"
    by (simp add: late_end_def late_transport_def late_defs slice_def)
  show lease: "l_bytes late_lease = (0, 4)" by (simp add: late_lease_def)
  show "\<not> shows_source late_data late_snapshots late_config (tp_output late_transport (mem late_end)) late_lease"
    using out lease by (simp add: shows_source_def late_lease_def second_lease_def late_snapshots_def late_resolver_def late_sources_def
        late_config_def resolve_location_def late_data_def slice_def)
  show "s_state (slots late_end ! l_slot late_lease) = Ready" by (simp add: late_end_def late_lease_def late_defs)
  show "sources_fit late_data late_snapshots late_config"
    by (simp add: sources_fit_def late_snapshots_def late_sources_def late_data_def late_config_def)
qed (simp_all add: late_config_def width_fits_def)

end
