(* ===== verification/Row_Cache.thy ===== *)
theory Row_Cache
  imports Table_Properties "HOL-Library.Multiset"
begin

text \<open>
  The handles around a table (row_cache.hpp): \<open>RowLease\<close> and \<open>PrefetchTicket\<close> with their moves and
  resets, the registry \<open>RowCache\<close>, and \<open>Table::resolve_one\<close>, the blocking call for one row, which is
  compared with \<open>resolve_into\<close> on a batch of one.
\<close>

section \<open>resolve_one\<close>

text \<open>
  \<open>others 1\<close> is the interference while this thread finishes the fill, \<open>others 2\<close> while it waits on the
  condition variable; \<open>None\<close> is a wait that does not end.
\<close>

definition resolve_one :: "'m transport \<Rightarrow> (nat \<Rightarrow> 'm table \<Rightarrow> 'm table) \<Rightarrow> u64 \<Rightarrow> 'm table \<Rightarrow>
    ((status + lease) \<times> 'm table) option" where
  "resolve_one tp others row_index t0 =
     (if row_index \<ge> c_row_count (config t0) then Some (Inl Out_of_range, t0)
      else
        let found = table_find t0 row_index (current_generation t0);
            found_ready = (case found of None \<Rightarrow> False | Some slot \<Rightarrow> s_state (slots t0 ! slot) = Ready);
            found_filling = (case found of None \<Rightarrow> False | Some slot \<Rightarrow> s_state (slots t0 ! slot) = Filling);
            t = (if found_filling then Table_Model.count (\<lambda>c. c\<lparr>coalesced := coalesced c + 1\<rparr>) t0 else t0);
            (admission, became_finisher, t) =
              (case found of
                 Some slot \<Rightarrow> (Inr slot, False, t)
               | None \<Rightarrow>
                   (case claim_victim tp t of
                      (None, t) \<Rightarrow> (Inl Pool_exhausted, False, t)
                    | (Some slot, t) \<Rightarrow>
                        (case start_fill_locked tp slot row_index t of
                           (st, t) \<Rightarrow>
                             if st \<noteq> Ok then (Inl st, False, t) else (Inr slot, True, t))))
        in case admission of
             Inl error \<Rightarrow> Some (Inl error, t)
           | Inr slot \<Rightarrow>
               let t = pin_slot slot t;
                   epoch = s_epoch (slots t ! slot);
                   finishes = (became_finisher \<or>
                     s_state (slots t ! slot) = Filling \<and> \<not> s_finishing (slots t ! slot));
                   t' = (if finishes then
                           finish_fill tp (others 1) slot None (upd_slot slot (\<lambda>s. s\<lparr>s_finishing := True\<rparr>) t)
                         else if settled slot epoch t then t
                         else others 2 t)
               in if \<not> finishes \<and> \<not> settled slot epoch t' then None
                  else if s_epoch (slots t' ! slot) \<noteq> epoch then Some (Inl Pool_exhausted, t')
                  else if s_state (slots t' ! slot) = Ready then
                    let t' = (if found_ready then Table_Model.count (\<lambda>c. c\<lparr>hits := hits c + 1\<rparr>) t' else t')
                    in Some (Inr \<lparr>l_slot = slot, l_epoch = epoch, l_bytes = published_span t' slot,
                               l_row_index = row_index, l_generation = s_row_generation (slots t' ! slot)\<rparr>, t')
                  else Some (Inl (s_failure (slots t' ! slot)), unpin_locked slot t'))"

section \<open>RowLease and PrefetchTicket\<close>

text \<open>
  A \<open>RowLease\<close> variable is empty (\<open>None\<close>) or names one of the tables and a lease on it. A reset
  gives \<open>None\<close> for \<open>std::terminate\<close>.
\<close>

type_synonym row_lease = "(nat \<times> lease) option"

type_synonym row_ticket = "(nat \<times> prefetch_ticket) option"

definition reset_lease :: "row_lease \<Rightarrow> 'm table list \<Rightarrow> 'm table list option" where
  "reset_lease v ts =
     (case v of
        None \<Rightarrow> Some ts
      | Some (c, l) \<Rightarrow> map_option (\<lambda>t. ts[c := t]) (release_lease (l_slot l) (l_epoch l) (ts ! c)))"

text \<open>\<open>vars[i] = std::move(vars[j])\<close>; a variable assigned to itself is left alone.\<close>

definition assign_lease :: "nat \<Rightarrow> nat \<Rightarrow> row_lease list \<Rightarrow> 'm table list \<Rightarrow>
    (row_lease list \<times> 'm table list) option" where
  "assign_lease i j vars ts =
     (if i = j then Some (vars, ts)
      else map_option (\<lambda>ts. (vars[i := vars ! j, j := None], ts)) (reset_lease (vars ! i) ts))"

definition reset_ticket :: "row_ticket \<Rightarrow> 'm table list \<Rightarrow> 'm table list option" where
  "reset_ticket v ts =
     (case v of
        None \<Rightarrow> Some ts
      | Some (c, tk) \<Rightarrow> map_option (\<lambda>t. ts[c := t]) (discard_ticket (pt_record tk) (pt_generation tk) (ts ! c)))"

definition assign_ticket :: "nat \<Rightarrow> nat \<Rightarrow> row_ticket list \<Rightarrow> 'm table list \<Rightarrow>
    (row_ticket list \<times> 'm table list) option" where
  "assign_ticket i j vars ts =
     (if i = j then Some (vars, ts)
      else map_option (\<lambda>ts. (vars[i := vars ! j, j := None], ts)) (reset_ticket (vars ! i) ts))"

section \<open>RowCache\<close>

definition register_table :: "'m transport \<Rightarrow> table_config \<Rightarrow> 'm \<Rightarrow> 'm table list \<Rightarrow>
    (status + u32) \<times> 'm table list" where
  "register_table tp cfg m tables =
     (case create tp cfg m of
        Inl error \<Rightarrow> (Inl error, tables)
      | Inr t \<Rightarrow> (Inr (of_nat (length (tables @ [t]) - 1)), tables @ [t]))"

definition table_of :: "u32 \<Rightarrow> 'm table list \<Rightarrow> 'm table option" where
  "table_of handle tables = (if unat handle < length tables then Some (tables ! unat handle) else None)"

definition table_count :: "'m table list \<Rightarrow> nat" where
  "table_count tables = length tables"

section \<open>resolve_one is resolve_into on one row\<close>

text \<open>The tail both calls share, from the pinned state on: finish the fill, wait for it, or go on.\<close>

definition awaited :: "'m transport \<Rightarrow> (nat \<Rightarrow> 'm table \<Rightarrow> 'm table) \<Rightarrow> nat \<Rightarrow> 'm table \<Rightarrow> 'm table" where
  "awaited tp others slot t =
     (if filling (slots t ! slot) \<and> \<not> s_finishing (slots t ! slot)
      then finish_fill tp (others 1) slot None (upd_slot slot (\<lambda>s. s\<lparr>s_finishing := True\<rparr>) t)
      else if filling (slots t ! slot) then others 2 t else t)"

lemma drive_row_awaited:
  assumes "others 0 = id" and "s_epoch (slots t ! l_slot l) = l_epoch l"
  shows "drive_row tp others l t =
     (let t' = awaited tp others (l_slot l) t; s = slots t ! l_slot l; s' = slots t' ! l_slot l in
      if filling s \<and> s_finishing s \<and> \<not> settled (l_slot l) (l_epoch l) t' then None
      else if s_epoch s' \<noteq> l_epoch l then Some (Pool_exhausted, l, t')
      else if s_state s' = Ready then Some (Ok, l\<lparr>l_bytes := published_span t' (l_slot l)\<rparr>, t')
      else Some (s_failure s', l, t'))"
  using assms by (simp add: drive_row_def awaited_def Let_def)

text \<open>\<open>resolve_one\<close> in terms of the admission of \<open>resolve_into\<close>, when the row was found or started.\<close>

lemma resolve_one_admitted:
  assumes inv: "table_inv t" and range: "row < c_row_count (config t)" and run: "admit_row tp row t = (Inr l, t1)"
    and fill: "s_state (slots t1 ! l_slot l) \<noteq> Failed"
  shows "resolve_one tp others row t =
     (let t' = awaited tp others (l_slot l) t1; s = slots t1 ! l_slot l; s' = slots t' ! l_slot l in
      if filling s \<and> s_finishing s \<and> \<not> settled (l_slot l) (l_epoch l) t' then None
      else if s_epoch s' \<noteq> l_epoch l then Some (Inl Pool_exhausted, t')
      else if s_state s' = Ready
      then Some (Inr (l\<lparr>l_bytes := published_span t' (l_slot l), l_generation := s_row_generation s'\<rparr>), t')
      else Some (Inl (s_failure s'), unpin_locked (l_slot l) t'))"
proof (cases "table_find t row (current_generation t)")
  case (Some i)
  note f = find_state [OF inv Some]
  show ?thesis
  proof (cases "s_state (slots t ! i) = Ready")
    case True
    then have "t1 = Table_Model.count (\<lambda>c. c\<lparr>hits := hits c + 1\<rparr>) (pin_slot i t)" and "l = make_lease i row (0, 0) t1"
      using run Some by (auto simp: admit_row_def Let_def)
    then show ?thesis using range Some True f
      by (simp add: resolve_one_def Let_def awaited_def settled_def make_lease_def pin_slot_nth
            published_span_def output_span_def not_less [symmetric])
  next
    case False
    then have fl: "filling (slots t ! i)" using f(3) by simp
    define u where "u = pin_slot i (Table_Model.count (\<lambda>c. c\<lparr>coalesced := coalesced c + 1\<rparr>) t)"
    have t1: "t1 = u" and l: "l = make_lease i row (0, 0) u"
      using run Some fl by (auto simp: admit_row_def Let_def u_def)
    have "filling (slots u ! i)" using fl f(1) by (simp add: u_def pin_slot_nth)
    then show ?thesis using range Some fl
      by (simp add: resolve_one_def Let_def awaited_def t1 l make_lease_def settled_def u_def not_less [symmetric])
  qed
next
  case None
  obtain i u v where vict: "claim_victim tp t = (Some i, u)" and start: "start_fill_locked tp i row u = (Ok, v)"
    and t1: "t1 = pin_slot i v" and l: "l = make_lease i row (0, 0) t1"
    using run None by (auto simp: admit_row_def Let_def split: prod.splits option.splits if_splits)
  have ev: "evicts t u" and i: "i < length (slots t)" and free: "s_state (slots u ! i) = Free"
    using claim_victim_result [OF vict inv] by blast+
  have invu: "table_inv u" and iu: "i < length (slots u)" using ev i by (simp_all add: evicts_def env_of_eq)
  have "i < length (slots v)" using miss_result(1,2) [OF inv None vict start] by (simp add: admits_def)
  moreover from this have "\<not> start_failed i row Ok u v"
    using fill by (auto simp: start_failed_def t1 l make_lease_def pin_slot_nth)
  then have "started i row u v" using start_fill_result(4) [OF start invu iu free evicts_miss [OF inv ev None]] by blast
  ultimately have "filling (slots t1 ! i)" "\<not> s_finishing (slots t1 ! i)"
    using iu by (auto simp: started_def t1 pin_slot_nth)
  then show ?thesis using range None vict start
    by (simp add: resolve_one_def Let_def awaited_def t1 [symmetric] l make_lease_def not_less [symmetric])
qed

lemma resolve_one_refused:
  assumes "row < c_row_count (config t)" and run: "admit_row tp row t = (Inl e, t1)"
  shows "resolve_one tp others row t = Some (Inl e, t1)"
proof -
  obtain w u where vict: "claim_victim tp t = (w, u)" by fastforce
  have none: "table_find t row (current_generation t) = None"
    using run by (cases "table_find t row (current_generation t)") (auto simp: admit_row_def Let_def)
  have range: "\<not> c_row_count (config t) \<le> row" using assms(1) by simp
  show ?thesis
  proof (cases w)
    case None
    then show ?thesis using run none vict range by (simp add: admit_row_def resolve_one_def)
  next
    case (Some i)
    obtain st v where "start_fill_locked tp i row u = (st, v)" by fastforce
    then show ?thesis using run none vict Some range
      by (cases "st = Ok") (simp_all add: admit_row_def resolve_one_def Let_def)
  qed
qed

lemma resolve_one_failed:
  assumes inv: "table_inv t" and range: "row < c_row_count (config t)" and run: "admit_row tp row t = (Inr l, t1)"
    and fail: "s_state (slots t1 ! l_slot l) = Failed"
  shows "\<exists>t'. resolve_one tp others row t = Some (Inl Ok, t')"
proof (cases "table_find t row (current_generation t)")
  case (Some i)
  note f = find_state [OF inv Some]
  have "l_slot l = i" "s_state (slots t1 ! i) = s_state (slots t ! i)"
    using run Some f(1) by (auto simp: admit_row_def Let_def make_lease_def pin_slot_nth split: if_splits)
  then show ?thesis using fail f(3) by simp
next
  case None
  obtain i u v where vict: "claim_victim tp t = (Some i, u)" and start: "start_fill_locked tp i row u = (Ok, v)"
    and t1: "t1 = pin_slot i v" and l: "l_slot l = i"
    using run None by (auto simp: admit_row_def Let_def make_lease_def split: prod.splits option.splits if_splits)
  have i: "i < length (slots v)" using miss_result(1,2) [OF inv None vict start] by (simp add: admits_def)
  then have failed: "s_state (slots v ! i) = Failed" using fail by (simp add: t1 l pin_slot_nth)
  moreover have "s_failure (slots v ! i) = Ok" using miss_result(9) [OF inv None vict start] failed by simp
  moreover have "finish_fill tp (others 1) i None (upd_slot i (\<lambda>s. s\<lparr>s_finishing := True\<rparr>) t1) =
      upd_slot i (\<lambda>s. s\<lparr>s_finishing := True\<rparr>) t1"
    using failed i by (simp add: finish_fill_def t1 upd_slot_def pin_slot_nth)
  ultimately show ?thesis using range None vict start i
    by (simp add: resolve_one_def Let_def t1 [symmetric] not_less [symmetric]) (simp add: t1 upd_slot_def pin_slot_nth)
qed

text \<open>\<open>resolve_into\<close> on one row in range and an empty lease.\<close>

lemma resolve_into_single:
  assumes "row < c_row_count (config t)" and "c_max_batch_rows (config t) \<noteq> 0"
  shows "resolve_into tp others [row] [None] t =
     (case admit_row tp row t of
        (Inl error, t) \<Rightarrow> if error \<noteq> Ok then Some (Inl error, [None], t) else Some (Inr 1, [], t)
      | (Inr l, t) \<Rightarrow>
          (case drive_row tp (others 0) l t of
             None \<Rightarrow> None
           | Some (failure, l, t) \<Rightarrow>
               if failure \<noteq> Ok
               then map_option (\<lambda>t. (Inl failure, [None], t)) (release_lease (l_slot l) (l_epoch l) t)
               else Some (Inr 1, [Some l], t)))"
proof -
  have "0 < unat (c_max_batch_rows (config t))" "\<not> c_row_count (config t) \<le> row"
    using assms by (simp_all add: unat_gt_0 not_le word_neq_0_conv)
  then show ?thesis
    by (auto simp: resolve_into_def Let_def split: prod.splits sum.splits option.splits)
qed

text \<open>The result of \<open>resolve_one\<close> as a batch of one reports it.\<close>

definition as_batch :: "(status + lease) \<times> 'm table \<Rightarrow> (status + nat) \<times> lease option list \<times> 'm table" where
  "as_batch = (\<lambda>(r, t). case r of Inl error \<Rightarrow> (Inl error, [None], t) | Inr l \<Rightarrow> (Inr 1, [Some l], t))"

text \<open>
  C39. \<open>resolve_one\<close> is \<open>resolve_into\<close> on a batch of one. With no other thread between the two locked sections
  of \<open>resolve_into\<close>, and with the interference a pin keeps out anywhere else, the two calls return the same
  lease or the same error, in the same final state of the table, statistics included, and one hangs exactly
  when the other does; unless the error is called \<open>ok\<close>, which only a resolver or a transport that reports a
  failure under that name can cause.
\<close>

theorem resolve_one_is_resolve_into:
  assumes "table_inv t" and "others 0 = id" and "c_max_batch_rows (config t) \<noteq> 0"
    and "call_relies tp (\<lambda>_. others) [row] [None] t" and "waits_out tp"
    and "\<forall>t'. resolve_one tp others row t \<noteq> Some (Inl Ok, t')"
  shows "resolve_into tp (\<lambda>_. others) [row] [None] t = map_option as_batch (resolve_one tp others row t)"
proof (cases "row < c_row_count (config t)")
  case False
  then show ?thesis using assms(3)
    by (simp add: resolve_into_def resolve_one_def as_batch_def not_less unat_gt_0 Suc_le_eq)
next
  case range: True
  note batch = resolve_into_single [OF range assms(3), where tp = tp and others = "\<lambda>_. others"]
  obtain r t1 where run: "admit_row tp row t = (r, t1)" by fastforce
  note a = admit_row_result [OF assms(1) run]
  show ?thesis
  proof (cases r)
    case (Inl e)
    then show ?thesis using batch run a(2) [OF Inl] resolve_one_refused [OF range] by (simp add: as_batch_def)
  next
    case (Inr l)
    have ok: "lease_ok t1 l" using a(3) [OF Inr] by blast
    have inv1: "table_inv t1" using a(1) by (simp add: admits_def)
    have cl: "call_leases tp [row] [None] t = [l]" using run Inr by (simp add: call_leases_def)
    have rely: "relies [l] (l_slot l) others" using assms(4) by (simp add: call_relies_def cl)
    have held: "held_ok t1 [l]" using ok by (auto simp: held_ok_def lease_ok_def)
    have fill: "s_state (slots t1 ! l_slot l) \<noteq> Failed"
      using resolve_one_failed [OF assms(1) range, of tp l t1 others] run Inr assms(6) by auto
    note one = resolve_one_admitted [OF assms(1) range run [unfolded Inr] fill, of others]
    have ep: "s_epoch (slots t1 ! l_slot l) = l_epoch l" using ok by (simp add: lease_ok_def)
    note two = drive_row_awaited [where others = others and t = t1 and l = l and tp = tp, OF assms(2) ep]
    show ?thesis
    proof (cases "drive_row tp others l t1")
      case None
      then show ?thesis using batch run Inr one two by (auto simp: Let_def split: if_splits)
    next
      case (Some x)
      obtain st l' t' where x: "x = (st, l', t')" by (metis prod_cases3)
      note d = drive_row_result [OF Some [unfolded x] inv1 held _ rely assms(5), simplified]
      let ?s = "slots t' ! l_slot l"
      have t': "t' = awaited tp others (l_slot l) t1" using Some x two by (auto simp: Let_def split: if_splits)
      have s': "s_epoch ?s = l_epoch l" "s_row_generation ?s = l_generation l" "s_pins ?s \<noteq> 0"
        using d(1) ok by (auto simp: interferes_def lease_ok_def slot_key_def)
      have rel: "release_lease (l_slot l) (l_epoch l) t' = Some (unpin_locked (l_slot l) t')"
        using s' by (simp add: release_lease_def)
      show ?thesis
      proof (cases "s_state ?s = Ready")
        case True
        then show ?thesis using batch run Inr one two Some x s'
          by (auto simp: Let_def t' [symmetric] as_batch_def split: if_splits)
      next
        case False
        then have "resolve_one tp others row t = Some (Inl (s_failure ?s), unpin_locked (l_slot l) t')"
          "st = s_failure ?s" "l' = l"
          using one two Some x s' by (auto simp: Let_def t' [symmetric] split: if_splits)
        then show ?thesis using batch run Inr Some x rel assms(6) by (auto simp: as_batch_def)
      qed
    qed
  qed
qed

lemma sample_resolve_one:
  "resolve_one ram_transport (finisher ram_transport) 2 sample_table =
     Some (Inr (sample_lease\<lparr>l_bytes := (0, 4)\<rparr>), ready_table)"
proof -
  have "admit_rows ram_transport [2] sample_table = (Ok, [sample_lease], filling_table)" by (rule sample_admit)
  then have run: "admit_row ram_transport 2 sample_table = (Inr sample_lease, filling_table)"
    by (auto split: prod.splits sum.splits)
  have slot: "l_slot sample_lease = 0" "l_epoch sample_lease = 1" by (simp_all add: sample_lease_def)
  have claim: "upd_slot 0 (\<lambda>s. s\<lparr>s_finishing := True\<rparr>) filling_table = claimed_table"
    by (simp add: upd_slot_def claimed_table_def filling_table_def)
  have wait: "tp_wait ram_transport c d m = (MP_Ok, m)" for c d m by (simp add: ram_transport_def)
  have claimed: "filling (slots claimed_table ! 0)" "s_scratch_slot (slots claimed_table ! 0) = None"
    "s_chunk_claims (slots claimed_table ! 0) = []" "active_codec claimed_table = None"
    by (simp_all add: sample_defs)
  have "finish_fill ram_transport (finisher ram_transport 1) 0 None claimed_table = ready_table"
    using claimed sample_publish by (simp add: finish_fill_def await_fill_def convert_fill_def finisher_def wait)
  moreover have "filling (slots filling_table ! 0)" "\<not> s_finishing (slots filling_table ! 0)"
    by (simp_all add: sample_defs)
  ultimately have "awaited ram_transport (finisher ram_transport) 0 filling_table = ready_table"
    by (simp add: awaited_def claim)
  moreover have "s_state (slots filling_table ! 0) \<noteq> Failed" "2 < c_row_count (config sample_table)"
    "\<not> s_finishing (slots filling_table ! 0)" by (simp_all add: sample_defs)
  moreover have "s_state (slots ready_table ! 0) = Ready" "s_epoch (slots ready_table ! 0) = 1"
    "s_row_generation (slots ready_table ! 0) = 1" "published_span ready_table 0 = (0, 4)"
    by (simp_all add: sample_defs published_span_def output_span_def)
  ultimately show ?thesis
    using resolve_one_admitted [OF sample_inv(1) _ run, of "finisher ram_transport"]
    by (simp add: slot) (simp add: sample_lease_def)
qed

theorem resolve_one_is_resolve_into_witness:
  "resolve_into ram_transport (\<lambda>_. finisher ram_transport) [2] [None] sample_table =
     Some (Inr 1, [Some (sample_lease\<lparr>l_bytes := (0, 4)\<rparr>)], ready_table)"
proof -
  have "finisher ram_transport 0 = id" by (rule ext) (simp add: finisher_def)
  moreover have "c_max_batch_rows (config sample_table) \<noteq> 0" by (simp add: sample_defs)
  ultimately show ?thesis
    using resolve_one_is_resolve_into [OF sample_inv(1) _ _ sample_call_relies sample_waits]
    by (simp add: sample_resolve_one as_batch_def)
qed

section \<open>Handles own their pins\<close>

text \<open>
  The leases a set of variables holds on table \<open>c\<close>. The variables own their pins when every lease they hold
  is a pin of its table that nobody else counts on.
\<close>

fun leases_on :: "nat \<Rightarrow> row_lease list \<Rightarrow> lease list" where
  "leases_on c [] = []"
| "leases_on c (None # vs) = leases_on c vs"
| "leases_on c (Some (c', l) # vs) = (if c' = c then l # leases_on c vs else leases_on c vs)"

definition owned :: "'m table list \<Rightarrow> row_lease list \<Rightarrow> bool" where
  "owned ts vars \<longleftrightarrow> (\<forall>c l. Some (c, l) \<in> set vars \<longrightarrow> c < length ts) \<and>
     (\<forall>c < length ts. table_inv (ts ! c) \<and> held_ok (ts ! c) (leases_on c vars))"

lemma leases_on_append [simp]: "leases_on c (xs @ ys) = leases_on c xs @ leases_on c ys"
  by (induction c xs rule: leases_on.induct) auto

lemma leases_on_mset:
  "mset (leases_on c vars) = {#snd (the v). v \<in># filter_mset (\<lambda>v. \<exists>l. v = Some (c, l)) (mset vars)#}"
  by (induction c vars rule: leases_on.induct) auto

lemma held_ok_mset: "mset ls = mset ls' \<Longrightarrow> held_ok t ls \<longleftrightarrow> held_ok t ls'"
proof -
  assume eq: "mset ls = mset ls'"
  have "pins_of ls j = pins_of ls' j" for j
    unfolding pins_of_def tally_def by (simp add: eq flip: sum_mset_sum_list)
  then show ?thesis using mset_eq_setD [OF eq] by (simp add: held_ok_def)
qed

lemma owned_mset:
  assumes "mset vars = mset vars'"
  shows "owned ts vars \<longleftrightarrow> owned ts vars'"
proof -
  have "held_ok t (leases_on c vars) \<longleftrightarrow> held_ok t (leases_on c vars')" for c and t :: "'a table"
    by (rule held_ok_mset) (simp add: leases_on_mset assms)
  then show ?thesis using mset_eq_setD [OF assms] by (simp add: owned_def)
qed

lemma reset_lease_owned:
  assumes "owned ts (v # vars)"
  obtains ts' where "reset_lease v ts = Some ts'" and "owned ts' vars" and "length ts' = length ts"
    and "\<And>c. c < length ts \<Longrightarrow> releases (pins_of (leases_on c [v])) (ts ! c) (ts' ! c)"
proof (cases v)
  case None
  have "releases (pins_of []) (ts ! c) (ts ! c)" if "c < length ts" for c
    using assms that by (simp add: owned_def releases_def)
  then show thesis using that [of ts] assms None by (simp add: reset_lease_def owned_def)
next
  case (Some x)
  obtain c l where v: "v = Some (c, l)" using Some by (cases x) auto
  have c: "c < length ts" using assms by (auto simp: owned_def v)
  then have "table_inv (ts ! c)" "held_ok (ts ! c) (leases_on c (v # vars))" using assms unfolding owned_def by blast+
  then have inv: "table_inv (ts ! c)" and held: "held_ok (ts ! c) (l # leases_on c vars)" by (simp_all add: v)
  have l: "l_slot l < length (slots (ts ! c))" "s_epoch (slots (ts ! c) ! l_slot l) = l_epoch l"
    "s_pins (slots (ts ! c) ! l_slot l) \<noteq> 0" using held by (auto simp: held_ok_def)
  obtain u where u: "release_lease (l_slot l) (l_epoch l) (ts ! c) = Some u" "releases (\<lambda>j. of_bool (l_slot l = j)) (ts ! c) u"
    by (rule release_lease_result [OF inv l])
  show thesis
  proof (rule that [of "ts[c := u]"])
    show "reset_lease v ts = Some (ts[c := u])" using u(1) by (simp add: reset_lease_def v)
    show "owned (ts[c := u]) vars"
      using assms u(2) held_ok_release [OF held u(2)] by (auto simp: owned_def v nth_list_update releases_def)
    show "releases (pins_of (leases_on c' [v])) (ts ! c') (ts[c := u] ! c')" if "c' < length ts" for c'
      using u(2) assms that c by (cases "c' = c") (auto simp: v owned_def releases_def)
  qed simp
qed

text \<open>
  Moving a lease between variables never terminates the process, releases exactly what the target held, and leaves
  the variables in possession of the rest.
\<close>

lemma assign_lease_owned:
  assumes "owned ts vars" and "i < length vars" and "j < length vars" and "i \<noteq> j"
  shows "\<exists>vars' ts'. assign_lease i j vars ts = Some (vars', ts') \<and> owned ts' vars' \<and>
     mset vars' + {#vars ! i#} = mset vars + {#None#}"
proof -
  have "mset (vars ! i # (vars[i := vars ! j, j := None])) = mset vars + {#None#}"
    using assms(2-4) by (simp add: mset_update nth_list_update add_mset_commute)
  then have eq: "mset (vars ! i # (vars[i := vars ! j, j := None])) = mset (None # vars)" by simp
  have "owned ts (None # vars)" using assms(1) by (simp add: owned_def)
  then have "owned ts (vars ! i # (vars[i := vars ! j, j := None]))" using owned_mset [OF eq] by blast
  then obtain ts' where "reset_lease (vars ! i) ts = Some ts'" "owned ts' (vars[i := vars ! j, j := None])"
    by (rule reset_lease_owned)
  then show ?thesis using assms(4) eq by (auto simp: assign_lease_def)
qed

end
