(* ===== verification/Size_Classed.thy ===== *)
theory Size_Classed
  imports Row_Cache Complex_Main
begin

text \<open>
  The size-classed table (size_classed_table.hpp): the discovery of the row widths, the renumbering of the
  rows into classes, the division of the storage between the classes in double arithmetic, one exact-width
  table per class, and the operations that route a row to its class.
\<close>

section \<open>Data\<close>

record size_classed_config =
  z_row_count :: u64
  z_sources :: "shard_source list"
  z_generation :: u64
  z_resolve_extent :: "resolver option"
  z_output_addr :: u64
  z_output_size :: u64
  z_max_tickets :: u32
  z_max_batch_rows :: u32
  z_fill_chunk_bytes :: u64
  z_fill_alignment :: u64
  z_max_classes :: u32

text \<open>\<open>SizeClassedTable::Class\<close>.\<close>

record row_class =
  k_width :: u64
  k_slot_bytes :: u64
  k_rows :: u64
  k_budget_rows :: u32

text \<open>
  The members of a \<open>SizeClassedTable\<close>. A class number is below \<open>max_classes\<close>. The resolvers are functions
  inside the configurations of the tables; \<open>scratch_\<close> lives only inside one call.
\<close>

record 'm size_classed =
  z_config :: size_classed_config
  z_classes :: "row_class list"
  z_class_of :: "nat list"
  z_local_of :: "u32 list"
  z_global_of :: "u64 list list"
  z_tables :: "'m table list"

section \<open>Discovering the classes\<close>

text \<open>\<open>std::find\<close> over the widths seen so far.\<close>

fun find_width :: "u64 \<Rightarrow> u64 list \<Rightarrow> nat option" where
  "find_width width [] = None"
| "find_width width (w # ws) = (if w = width then Some 0 else map_option Suc (find_width width ws))"

text \<open>The pass over the extents: the widths in the order of their first row, and the class of every row.\<close>

fun discover :: "resolver \<Rightarrow> nat \<Rightarrow> u64 list \<Rightarrow> u64 list \<Rightarrow> nat list \<Rightarrow> status + u64 list \<times> nat list" where
  "discover resolve max_classes [] widths cs = Inr (widths, cs)"
| "discover resolve max_classes (row # rows) widths cs =
     (case resolve row of
        Inl error \<Rightarrow> Inl error
      | Inr location \<Rightarrow>
          let width = br_length (loc_range location) in
          if width = 0 then Inl Invalid_argument
          else case find_width width widths of
            Some k \<Rightarrow> discover resolve max_classes rows widths (cs @ [k])
          | None \<Rightarrow>
              if length widths = max_classes then Inl Invalid_argument
              else discover resolve max_classes rows (widths @ [width]) (cs @ [length widths]))"

text \<open>\<open>xs[idx(0)] = val(0); ...; xs[idx(n - 1)] = val(n - 1)\<close>.\<close>

fun scatter :: "(nat \<Rightarrow> nat) \<Rightarrow> (nat \<Rightarrow> 'a) \<Rightarrow> nat \<Rightarrow> 'a list \<Rightarrow> 'a list" where
  "scatter idx val 0 xs = xs"
| "scatter idx val (Suc n) xs = (scatter idx val n xs)[idx n := val n]"

definition width_order :: "u64 list \<Rightarrow> nat list" where
  "width_order widths = sort_key (\<lambda>k. widths ! k) [0 ..< length widths]"

definition rank_of :: "u64 list \<Rightarrow> nat list" where
  "rank_of widths =
     scatter (\<lambda>r. width_order widths ! r) (\<lambda>r. r) (length widths) (replicate (length widths) 0)"

definition class_widths :: "u64 list \<Rightarrow> u64 list" where
  "class_widths widths =
     scatter (\<lambda>c. rank_of widths ! c) (\<lambda>c. widths ! c) (length widths) (replicate (length widths) 0)"

text \<open>The pass that gives every row its class and its index within the class.\<close>

fun renumber :: "nat list \<Rightarrow> (u64 \<times> nat) list \<Rightarrow> nat list \<Rightarrow> u32 list \<Rightarrow> u64 list list \<Rightarrow>
    nat list \<times> u32 list \<times> u64 list list" where
  "renumber rank [] class_of local_of global_of = (class_of, local_of, global_of)"
| "renumber rank ((row, k) # rest) class_of local_of global_of =
     (let cls = rank ! k in
      renumber rank rest (class_of @ [cls]) (local_of @ [of_nat (length (global_of ! cls))])
        (global_of[cls := global_of ! cls @ [row]]))"

section \<open>Dividing the storage\<close>

text \<open>
  \<open>double\<close>: a value is a rational, every operation rounds to the nearest with a significand of 53 bits,
  ties to even. The values of this code are zero or lie far inside the exponent range.
\<close>

fun bit_size :: "int \<Rightarrow> int" where
  "bit_size n = (if n \<le> 0 then 0 else 1 + bit_size (n div 2))"

declare bit_size.simps [simp del]

definition exponent_of :: "rat \<Rightarrow> int" where
  "exponent_of q =
     (let (a, b) = quotient_of q; k = bit_size a - bit_size b in
      if (if k \<ge> 0 then 2 ^ nat k * b \<le> a else b \<le> 2 ^ nat (- k) * a) then k else k - 1)"

definition round_even :: "rat \<Rightarrow> int" where
  "round_even q =
     (let f = \<lfloor>q\<rfloor>; d = q - of_int f in
      if d < 1 / 2 then f else if d > 1 / 2 then f + 1 else if even f then f else f + 1)"

definition to_double :: "rat \<Rightarrow> rat" where
  "to_double q =
     (if q \<le> 0 then 0
      else let e = exponent_of q - 52 in
        if e \<ge> 0 then of_int (round_even (q / 2 ^ nat e)) * 2 ^ nat e
        else of_int (round_even (q * 2 ^ nat (- e))) / 2 ^ nat (- e))"

definition double_of :: "u64 \<Rightarrow> rat" where
  "double_of x = to_double (of_nat (unat x))"

text \<open>\<open>static_cast<double>(cls.rows) * static_cast<double>(cls.slot_bytes)\<close>.\<close>

definition class_weight :: "row_class \<Rightarrow> rat" where
  "class_weight cls = to_double (double_of (k_rows cls) * double_of (k_slot_bytes cls))"

definition total_weight :: "row_class list \<Rightarrow> rat" where
  "total_weight classes = foldl (\<lambda>total_bytes cls. to_double (total_bytes + class_weight cls)) 0 classes"

text \<open>The classes with their row counts and slot sizes; the budgets are still zero.\<close>

definition sized_class :: "size_classed_config \<Rightarrow> u64 \<Rightarrow> u64 list \<Rightarrow> row_class" where
  "sized_class cfg width rows =
     \<lparr>k_width = width,
      k_slot_bytes = (if z_fill_alignment cfg \<noteq> 0 then aligned_slot_bytes width (z_fill_alignment cfg) else width),
      k_rows = of_nat (length rows), k_budget_rows = 0\<rparr>"

text \<open>
  The loop over the classes that fixes the budgets, with the bytes used so far. \<open>None\<close> is the integer
  division by a slot size of zero.
\<close>

fun split_storage :: "size_classed_config \<Rightarrow> rat \<Rightarrow> row_class list \<Rightarrow> u64 \<Rightarrow>
    (status + row_class list \<times> u64) option" where
  "split_storage cfg total_bytes [] used = Some (Inr ([], used))"
| "split_storage cfg total_bytes (cls # rest) used =
     (let share = to_double (class_weight cls / total_bytes);
          bytes = (word_of_int \<lfloor>to_double (share * double_of (z_output_size cfg))\<rfloor> :: u64)
      in if k_slot_bytes cls = 0 then None
         else
           let rows = min (bytes div k_slot_bytes cls) (k_rows cls) in
           if rows < min (2 * ucast (z_max_batch_rows cfg)) (k_rows cls) \<or> rows \<ge> ucast NONE
           then Some (Inl Invalid_argument)
           else
             (case split_storage cfg total_bytes rest (used + rows * k_slot_bytes cls) of
                Some (Inr (classes, used)) \<Rightarrow> Some (Inr (cls\<lparr>k_budget_rows := ucast rows\<rparr> # classes, used))
              | failure \<Rightarrow> failure))"

section \<open>create\<close>

text \<open>\<open>ClassResolver::resolve_extent\<close>.\<close>

definition class_resolver :: "resolver \<Rightarrow> u64 list \<Rightarrow> resolver" where
  "class_resolver resolve rows local = resolve (rows ! unat local)"

text \<open>The configuration of the table of one class, whose slice of the storage starts at \<open>pos\<close>.\<close>

definition class_config :: "size_classed_config \<Rightarrow> resolver \<Rightarrow> u64 \<Rightarrow> row_class \<Rightarrow> u64 list \<Rightarrow> table_config" where
  "class_config cfg resolve pos cls rows =
     \<lparr>c_row_count = k_rows cls, c_source_row_bytes = k_width cls, c_row_extent = Exact,
      c_fill_chunk_bytes = z_fill_chunk_bytes cfg, c_fill_alignment = z_fill_alignment cfg,
      c_output_row_bytes = k_slot_bytes cls, c_representation = Identity, c_codec = None,
      c_sources = z_sources cfg, c_generation = z_generation cfg,
      c_resolve_extent = Some (class_resolver resolve rows),
      c_output_addr = z_output_addr cfg + pos,
      c_output_size = ucast (k_budget_rows cls) * k_slot_bytes cls, c_budget_rows = k_budget_rows cls,
      c_scratch_size = 0, c_scratch_rows = 0, c_max_tickets = z_max_tickets cfg,
      c_max_batch_rows = z_max_batch_rows cfg\<rparr>"

text \<open>
  One table per class. \<open>mems c\<close> is the transport state of the table of class \<open>c\<close>, whose output storage is
  that class's slice.
\<close>

fun create_tables :: "'m transport \<Rightarrow> (nat \<Rightarrow> 'm) \<Rightarrow> size_classed_config \<Rightarrow> resolver \<Rightarrow> nat \<Rightarrow> u64 \<Rightarrow>
    (row_class \<times> u64 list) list \<Rightarrow> status + 'm table list" where
  "create_tables tp mems cfg resolve c pos [] = Inr []"
| "create_tables tp mems cfg resolve c pos ((cls, rows) # rest) =
     (case create tp (class_config cfg resolve pos cls rows) (mems c) of
        Inl error \<Rightarrow> Inl error
      | Inr table \<Rightarrow>
          map_sum id (\<lambda>tables. table # tables)
            (create_tables tp mems cfg resolve (c + 1) (pos + ucast (k_budget_rows cls) * k_slot_bytes cls) rest))"

definition size_classed_create :: "'m transport \<Rightarrow> (nat \<Rightarrow> 'm) \<Rightarrow> size_classed_config \<Rightarrow>
    (status + 'm size_classed) option" where
  "size_classed_create tp mems cfg =
     (if z_row_count cfg = 0 \<or> z_row_count cfg \<ge> ucast NONE \<or> z_resolve_extent cfg = None \<or>
         z_max_batch_rows cfg = 0 \<or> z_max_classes cfg = 0
      then Some (Inl Invalid_argument)
      else
        let resolve = the (z_resolve_extent cfg);
            rows = map of_nat [0 ..< unat (z_row_count cfg)]
        in case discover resolve (unat (z_max_classes cfg)) rows [] [] of
             Inl error \<Rightarrow> Some (Inl error)
           | Inr (widths, first_class) \<Rightarrow>
               (case renumber (rank_of widths) (zip rows first_class) [] [] (replicate (length widths) []) of
                  (class_of, local_of, global_of) \<Rightarrow>
                    let classes = map2 (sized_class cfg) (class_widths widths) global_of in
                    (case split_storage cfg (total_weight classes) classes 0 of
                       None \<Rightarrow> None
                     | Some (Inl error) \<Rightarrow> Some (Inl error)
                     | Some (Inr (classes, used)) \<Rightarrow>
                         if used > z_output_size cfg then Some (Inl Invalid_argument)
                         else
                           (case create_tables tp mems cfg resolve 0 0 (zip classes global_of) of
                              Inl error \<Rightarrow> Some (Inl error)
                            | Inr tables \<Rightarrow>
                                Some (Inr \<lparr>z_config = cfg, z_classes = classes, z_class_of = class_of,
                                  z_local_of = local_of, z_global_of = global_of, z_tables = tables\<rparr>)))))"

section \<open>Operations\<close>

text \<open>The local rows of class \<open>c\<close> that one \<open>prefetch\<close> writes to its scratch; \<open>None\<close> is a row out of range.\<close>

fun class_rows :: "'m size_classed \<Rightarrow> nat \<Rightarrow> u64 list \<Rightarrow> u64 list option" where
  "class_rows z c [] = Some []"
| "class_rows z c (row # rows) =
     (if row \<ge> z_row_count (z_config z) then None
      else map_option (\<lambda>locals. if z_class_of z ! unat row = c
                                then ucast (z_local_of z ! unat row) # locals else locals)
             (class_rows z c rows))"

text \<open>
  The loop of \<open>prefetch\<close>. The ticket of a class is dropped at once; \<open>None\<close> is \<open>std::terminate\<close>.
\<close>

fun prefetch_classes :: "'m transport \<Rightarrow> 'm size_classed \<Rightarrow> u64 list \<Rightarrow> nat list \<Rightarrow> 'm table list \<Rightarrow>
    (status \<times> 'm table list) option" where
  "prefetch_classes tp z rows [] ts = Some (Ok, ts)"
| "prefetch_classes tp z rows (c # cs) ts =
     (case class_rows z c rows of
        None \<Rightarrow> Some (Out_of_range, ts)
      | Some locals \<Rightarrow>
          if locals = [] then prefetch_classes tp z rows cs ts
          else case prefetch tp locals (ts ! c) of
            (Inl error, t) \<Rightarrow> Some (error, ts[c := t])
          | (Inr ticket, t) \<Rightarrow>
              (case reset_ticket (Some (c, ticket)) (ts[c := t]) of
                 None \<Rightarrow> None
               | Some ts \<Rightarrow> prefetch_classes tp z rows cs ts))"

definition size_classed_prefetch :: "'m transport \<Rightarrow> u64 list \<Rightarrow> 'm size_classed \<Rightarrow>
    (status \<times> 'm size_classed) option" where
  "size_classed_prefetch tp rows z =
     (if length rows > unat (z_max_batch_rows (z_config z)) then Some (Batch_too_large, z)
      else map_option (\<lambda>(status, ts). (status, z\<lparr>z_tables := ts\<rparr>))
             (prefetch_classes tp z rows [0 ..< length (z_tables z)] (z_tables z)))"

text \<open>
  \<open>tables_[c]->resolve_into(&local, 1, out.subspan(i, 1))\<close>. The call first releases what the caller's variable
  held, which may be a lease of another class.
\<close>

definition resolve_class :: "'m transport \<Rightarrow> (nat \<Rightarrow> 'm table \<Rightarrow> 'm table) \<Rightarrow> nat \<Rightarrow> u64 \<Rightarrow> row_lease \<Rightarrow>
    'm table list \<Rightarrow> ((status + nat) \<times> row_lease \<times> 'm table list) option" where
  "resolve_class tp others c local var ts =
     (case (case var of
              None \<Rightarrow> Some (None, ts)
            | Some (c', l) \<Rightarrow> if c' = c then Some (Some l, ts)
                              else map_option (\<lambda>ts. (None, ts)) (reset_lease var ts)) of
        None \<Rightarrow> None
      | Some (own, ts) \<Rightarrow>
          (case resolve_into tp (\<lambda>_. others) [local] [own] (ts ! c) of
             None \<Rightarrow> None
           | Some (r, out, t) \<Rightarrow> Some (r, map_option (\<lambda>l. (c, l)) (hd out), ts[c := t])))"

text \<open>\<open>out[0].reset(); ...; out[i - 1].reset()\<close>.\<close>

fun reset_leases :: "row_lease list \<Rightarrow> 'm table list \<Rightarrow> 'm table list option" where
  "reset_leases [] ts = Some ts"
| "reset_leases (v # vs) ts = Option.bind (reset_lease v ts) (reset_leases vs)"

text \<open>
  The loop of \<open>resolve_into\<close>, with the leases it has written so far. \<open>others i\<close> is the interference during
  the call for entry \<open>i\<close>. On a failure the entries written so far are reset.
\<close>

fun resolve_rows :: "'m transport \<Rightarrow> (nat \<Rightarrow> nat \<Rightarrow> 'm table \<Rightarrow> 'm table) \<Rightarrow> 'm size_classed \<Rightarrow> u64 list \<Rightarrow>
    row_lease list \<Rightarrow> row_lease list \<Rightarrow> 'm table list \<Rightarrow>
    ((status + unit) \<times> row_lease list \<times> 'm table list) option" where
  "resolve_rows tp others z [] written out ts = Some (Inr (), written @ out, ts)"
| "resolve_rows tp others z (row # rows) written out ts =
     (if row \<ge> z_row_count (z_config z) then
        map_option (\<lambda>ts. (Inl Out_of_range, replicate (length written) None @ out, ts)) (reset_leases written ts)
      else
        case resolve_class tp (others (length written)) (z_class_of z ! unat row)
               (ucast (z_local_of z ! unat row)) (hd out) ts of
          None \<Rightarrow> None
        | Some (Inl error, v, ts) \<Rightarrow>
            map_option (\<lambda>ts. (Inl error, replicate (length written) None @ v # tl out, ts)) (reset_leases written ts)
        | Some (Inr _, v, ts) \<Rightarrow> resolve_rows tp others z rows (written @ [v]) (tl out) ts)"

definition size_classed_resolve_into :: "'m transport \<Rightarrow> (nat \<Rightarrow> nat \<Rightarrow> 'm table \<Rightarrow> 'm table) \<Rightarrow> u64 list \<Rightarrow>
    row_lease list \<Rightarrow> 'm size_classed \<Rightarrow> ((status + nat) \<times> row_lease list \<times> 'm size_classed) option" where
  "size_classed_resolve_into tp others rows out z =
     (if rows = [] then Some (Inl Empty_range, out, z)
      else if length out < length rows then Some (Inl Invalid_argument, out, z)
      else map_option (\<lambda>(r, out, ts). (map_sum id (\<lambda>_. length rows) r, out, z\<lparr>z_tables := ts\<rparr>))
             (resolve_rows tp others z rows [] out (z_tables z)))"

definition size_classed_try_get :: "u64 \<Rightarrow> 'm size_classed \<Rightarrow> row_lease \<times> 'm size_classed" where
  "size_classed_try_get row_index z =
     (if row_index \<ge> z_row_count (z_config z) then (None, z)
      else
        let c = z_class_of z ! unat row_index in
        case try_get (ucast (z_local_of z ! unat row_index)) (z_tables z ! c) of
          (r, t) \<Rightarrow> (map_option (\<lambda>l. (c, l)) r, z\<lparr>z_tables := (z_tables z)[c := t]\<rparr>))"

definition add_stats :: "table_stats \<Rightarrow> table_stats \<Rightarrow> table_stats" where
  "add_stats acc s =
     \<lparr>hits = hits acc + hits s, misses = misses acc + misses s, fetches = fetches acc + fetches s,
      coalesced = coalesced acc + coalesced s, conversions = conversions acc + conversions s,
      codec_failures = codec_failures acc + codec_failures s, evictions = evictions acc + evictions s,
      resident = resident acc + resident s, leased = leased acc + leased s, failed = failed acc + failed s\<rparr>"

definition size_classed_stats :: "'m size_classed \<Rightarrow> table_stats" where
  "size_classed_stats z = foldl (\<lambda>sum t. add_stats sum (stats t)) zero_stats (z_tables z)"

text \<open>\<open>drain\<close>, class by class, until the first status that is not \<open>ok\<close>.\<close>

fun drain_tables :: "(nat \<Rightarrow> 'm table \<Rightarrow> 'm table) \<Rightarrow> deadline \<Rightarrow> nat \<Rightarrow> 'm table list \<Rightarrow>
    (status \<times> 'm table list) option" where
  "drain_tables others deadline c [] = Some (Ok, [])"
| "drain_tables others deadline c (t # ts) =
     (case drain (others c) deadline t of
        None \<Rightarrow> None
      | Some (status, t) \<Rightarrow>
          if status \<noteq> Ok then Some (status, t # ts)
          else map_option (\<lambda>(status, ts). (status, t # ts)) (drain_tables others deadline (c + 1) ts))"

definition size_classed_drain :: "(nat \<Rightarrow> 'm table \<Rightarrow> 'm table) \<Rightarrow> deadline \<Rightarrow> 'm size_classed \<Rightarrow>
    (status \<times> 'm size_classed) option" where
  "size_classed_drain others deadline z =
     map_option (\<lambda>(status, ts). (status, z\<lparr>z_tables := ts\<rparr>)) (drain_tables others deadline 0 (z_tables z))"

end
