(* ===== verification/Size_Classed_Sound.thy ===== *)
theory Size_Classed_Sound
  imports Size_Classed
begin

text \<open>
  What the size-classed table promises: its routing tables are a bijection between the rows and the local
  rows of the classes, every class has exactly one width, and the slices of the storage do not overlap.
\<close>

section \<open>Discovery and renumbering\<close>

lemma find_width_Some: "find_width w ws = Some k \<Longrightarrow> k < length ws \<and> ws ! k = w"
  by (induction ws arbitrary: k) (auto split: if_splits)

lemma find_width_None: "find_width w ws = None \<longleftrightarrow> w \<notin> set ws"
  by (induction ws) auto

text \<open>\<open>width_at resolve row w\<close>: the row resolves to an extent of \<open>w\<close> bytes.\<close>

definition width_at :: "resolver \<Rightarrow> u64 \<Rightarrow> u64 \<Rightarrow> bool" where
  "width_at resolve row w \<longleftrightarrow> (\<exists>location. resolve row = Inr location \<and> br_length (loc_range location) = w)"

lemma discover_result:
  assumes "discover resolve m rows ws cs = Inr (ws', cs')" and "distinct ws"
  shows "\<exists>ks extra. cs' = cs @ ks \<and> ws' = ws @ extra \<and> distinct ws' \<and> length ks = length rows \<and>
     (\<forall>r < length rows. ks ! r < length ws' \<and> width_at resolve (rows ! r) (ws' ! (ks ! r))) \<and>
     (0 \<notin> set ws \<longrightarrow> 0 \<notin> set ws') \<and> (length ws \<le> m \<longrightarrow> length ws' \<le> m)"
  using assms
proof (induction resolve m rows ws cs rule: discover.induct)
  case (1 resolve m ws cs)
  then show ?case by simp
next
  case (2 resolve m row rows ws cs)
  obtain loc where loc: "resolve row = Inr loc" and w0: "br_length (loc_range loc) \<noteq> 0"
    using "2.prems"(1) by (auto simp: Let_def split: sum.splits if_splits)
  let ?w = "br_length (loc_range loc)"
  have here: "width_at resolve row ?w" using loc by (simp add: width_at_def)
  have step: "\<exists>ks extra. cs' = cs @ ks \<and> ws' = ws @ extra \<and> distinct ws' \<and> length ks = length (row # rows) \<and>
     (\<forall>r < length (row # rows). ks ! r < length ws' \<and> width_at resolve ((row # rows) ! r) (ws' ! (ks ! r))) \<and>
     (0 \<notin> set ws \<longrightarrow> 0 \<notin> set ws') \<and> (length ws \<le> m \<longrightarrow> length ws' \<le> m)"
    if rest: "cs' = (cs @ [k]) @ ks" "ws' = ws @ new @ extra" "distinct ws'" "length ks = length rows"
      "\<forall>r < length rows. ks ! r < length ws' \<and> width_at resolve (rows ! r) (ws' ! (ks ! r))"
      "0 \<notin> set ws \<longrightarrow> 0 \<notin> set ws'" "length ws \<le> m \<longrightarrow> length ws' \<le> m"
      and k: "k < length ws'" "ws' ! k = ?w" for k ks new extra
  proof (intro exI conjI)
    show "cs' = cs @ (k # ks)" "ws' = ws @ (new @ extra)" using rest(1,2) by simp_all
    show "\<forall>r < length (row # rows). (k # ks) ! r < length ws' \<and> width_at resolve ((row # rows) ! r) (ws' ! ((k # ks) ! r))"
      using rest(5) k here by (simp add: All_less_Suc2)
  qed (use rest in simp_all)
  show ?case
  proof (cases "find_width ?w ws")
    case (Some k)
    have "discover resolve m rows ws (cs @ [k]) = Inr (ws', cs')" using "2.prems"(1) loc w0 Some by simp
    from "2.IH"(2) [OF loc refl w0 Some this "2.prems"(2)]
    obtain ks extra where r: "cs' = (cs @ [k]) @ ks" "ws' = ws @ extra" "distinct ws'" "length ks = length rows"
      "\<forall>r < length rows. ks ! r < length ws' \<and> width_at resolve (rows ! r) (ws' ! (ks ! r))"
      "0 \<notin> set ws \<longrightarrow> 0 \<notin> set ws'" "length ws \<le> m \<longrightarrow> length ws' \<le> m" by blast
    moreover have "k < length ws'" "ws' ! k = ?w"
      using find_width_Some [OF Some] r(2) by (auto simp: nth_append)
    ultimately show ?thesis using step [of k ks "[]" extra] by simp
  next
    case None
    then have len: "length ws \<noteq> m" and run: "discover resolve m rows (ws @ [?w]) (cs @ [length ws]) = Inr (ws', cs')"
      using "2.prems"(1) loc w0 by (auto split: if_splits)
    have "distinct (ws @ [?w])" using "2.prems"(2) None find_width_None by auto
    from "2.IH"(1) [OF loc refl w0 None len run this]
    obtain ks extra where r: "cs' = (cs @ [length ws]) @ ks" "ws' = (ws @ [?w]) @ extra" "distinct ws'"
      "length ks = length rows"
      "\<forall>r < length rows. ks ! r < length ws' \<and> width_at resolve (rows ! r) (ws' ! (ks ! r))"
      "0 \<notin> set (ws @ [?w]) \<longrightarrow> 0 \<notin> set ws'" "length (ws @ [?w]) \<le> m \<longrightarrow> length ws' \<le> m" by blast
    have "length ws < length ws'" "ws' ! length ws = ?w" using r(2) by (auto simp: nth_append)
    then show ?thesis using step [of "length ws" ks "[?w]" extra] r w0 len by auto
  qed
qed

text \<open>Writing distinct positions leaves every value where it was written.\<close>

lemma length_scatter [simp]: "length (scatter idx val n xs) = length xs"
  by (induction n) simp_all

lemma scatter_nth:
  assumes "inj_on idx {..<n}" and "\<And>i. i < n \<Longrightarrow> idx i < length xs" and "i < n"
  shows "scatter idx val n xs ! idx i = val i"
  using assms
proof (induction n)
  case (Suc n)
  show ?case
  proof (cases "i = n")
    case False
    then have "idx i \<noteq> idx n" using Suc.prems inj_onD [OF Suc.prems(1), of i n] by auto
    then show ?thesis using Suc False by (auto simp: lessThan_Suc inj_on_insert)
  qed (use Suc in simp)
qed simp

lemma width_order_props:
  "length (width_order ws) = length ws" "set (width_order ws) = {..<length ws}" "distinct (width_order ws)"
  by (auto simp: width_order_def)

lemma rank_of_order:
  assumes "r < length ws"
  shows "rank_of ws ! (width_order ws ! r) = r"
  unfolding rank_of_def
proof (rule scatter_nth [OF _ _ assms])
  show "inj_on (\<lambda>r. width_order ws ! r) {..<length ws}"
    using width_order_props inj_on_nth [of "width_order ws" "{..<length ws}"] by auto
  show "width_order ws ! i < length (replicate (length ws) 0)" if "i < length ws" for i
    using that width_order_props nth_mem [of i "width_order ws"] by fastforce
qed

lemma rank_of_bij:
  assumes "c < length ws"
  shows "\<exists>r < length ws. width_order ws ! r = c \<and> rank_of ws ! c = r"
proof -
  have "c \<in> set (width_order ws)" using assms width_order_props by simp
  then obtain r where "r < length ws" "width_order ws ! r = c"
    using width_order_props(1) by (metis in_set_conv_nth)
  then show ?thesis using rank_of_order by metis
qed

lemma class_widths_nth:
  assumes "c < length ws"
  shows "class_widths ws ! (rank_of ws ! c) = ws ! c" and "rank_of ws ! c < length ws"
proof -
  have rank: "\<And>i. i < length ws \<Longrightarrow> rank_of ws ! i < length ws" using rank_of_bij by blast
  show "class_widths ws ! (rank_of ws ! c) = ws ! c"
    unfolding class_widths_def
  proof (rule scatter_nth [OF _ _ assms])
    show "inj_on ((!) (rank_of ws)) {..<length ws}"
      by (rule inj_onI) (metis lessThan_iff rank_of_bij)
  qed (use rank in simp)
  show "rank_of ws ! c < length ws" by (rule rank [OF assms])
qed

lemma class_widths_sorted:
  assumes "distinct ws"
  shows "sorted_wrt (<) (class_widths ws)" and "length (class_widths ws) = length ws"
proof -
  show len: "length (class_widths ws) = length ws" by (simp add: class_widths_def)
  have eq: "class_widths ws = map ((!) ws) (width_order ws)"
  proof (rule nth_equalityI)
    fix r assume "r < length (class_widths ws)"
    then have r: "r < length ws" using len by simp
    then have "width_order ws ! r < length ws" using width_order_props nth_mem [of r "width_order ws"] by fastforce
    then show "class_widths ws ! r = map ((!) ws) (width_order ws) ! r"
      using class_widths_nth(1) [of "width_order ws ! r" ws] rank_of_order [OF r] r width_order_props(1) by simp
  qed (simp add: len width_order_props)
  have "distinct (class_widths ws)"
    unfolding eq using assms width_order_props by (auto simp: distinct_map inj_on_nth)
  moreover have "sorted (class_widths ws)" unfolding eq width_order_def by (rule sorted_sort_key)
  ultimately show "sorted_wrt (<) (class_widths ws)" by (simp add: strict_sorted_iff)
qed

text \<open>
  The routing tables after a prefix \<open>done\<close> of the rows: every row of the prefix is at its local index of its
  class, and every local index belongs to one row.
\<close>

definition routed :: "u64 list \<Rightarrow> nat list \<Rightarrow> u32 list \<Rightarrow> u64 list list \<Rightarrow> bool" where
  "routed rows cs ls gs \<longleftrightarrow> length cs = length rows \<and> length ls = length rows \<and>
     (\<forall>r < length rows. cs ! r < length gs \<and> unat (ls ! r) < length (gs ! (cs ! r)) \<and>
        gs ! (cs ! r) ! unat (ls ! r) = rows ! r) \<and>
     (\<forall>c < length gs. \<forall>i < length (gs ! c). \<exists>r < length rows. cs ! r = c \<and> unat (ls ! r) = i) \<and>
     (\<forall>c < length gs. length (gs ! c) \<le> length rows)"

lemma routed_step:
  assumes "routed rows cs ls gs" and c: "c < length gs" and small: "length rows < 2 ^ 32"
  shows "routed (rows @ [row]) (cs @ [c]) (ls @ [of_nat (length (gs ! c))]) (gs[c := gs ! c @ [row]])"
proof -
  let ?n = "length rows" and ?gs = "gs[c := gs ! c @ [row]]" and ?l = "of_nat (length (gs ! c)) :: u32"
  have len: "length cs = ?n" "length ls = ?n" and bound: "\<forall>c < length gs. length (gs ! c) \<le> ?n"
    and there: "\<forall>r < ?n. cs ! r < length gs \<and> unat (ls ! r) < length (gs ! (cs ! r)) \<and> gs ! (cs ! r) ! unat (ls ! r) = rows ! r"
    and onto: "\<forall>c < length gs. \<forall>i < length (gs ! c). \<exists>r < ?n. cs ! r = c \<and> unat (ls ! r) = i"
    using assms(1) by (simp_all add: routed_def)
  have "length (gs ! c) < 2 ^ 32" using bound c small le_less_trans by blast
  then have l: "unat ?l = length (gs ! c)" by (rule unat_of_nat32)
  show ?thesis
    unfolding routed_def
  proof (intro conjI allI impI)
    fix r assume "r < length (rows @ [row])"
    then have r: "r < ?n \<or> r = ?n" by auto
    show "(cs @ [c]) ! r < length ?gs" using r there c len by (auto simp: nth_append)
    show "unat ((ls @ [?l]) ! r) < length (?gs ! ((cs @ [c]) ! r))"
      using r there c len l by (auto simp: nth_append nth_list_update less_Suc_eq)
    show "?gs ! ((cs @ [c]) ! r) ! unat ((ls @ [?l]) ! r) = (rows @ [row]) ! r"
      using r there c len l by (auto simp: nth_append nth_list_update)
  next
    fix c' i assume c': "c' < length ?gs" and i: "i < length (?gs ! c')"
    show "\<exists>r < length (rows @ [row]). (cs @ [c]) ! r = c' \<and> unat ((ls @ [?l]) ! r) = i"
    proof (cases "c' = c \<and> i = length (gs ! c)")
      case True
      then show ?thesis using l len by (auto intro!: exI [of _ ?n] simp: nth_append)
    next
      case False
      then have "i < length (gs ! c')" using i c' by (cases "c' = c") (auto simp: nth_list_update)
      then obtain r where "r < ?n" "cs ! r = c'" "unat (ls ! r) = i" using onto c' by auto
      then show ?thesis using len by (auto intro!: exI [of _ r] simp: nth_append)
    qed
  next
    fix c' assume "c' < length ?gs"
    then show "length (?gs ! c') \<le> length (rows @ [row])"
      using bound by (cases "c' = c") (auto simp: nth_list_update le_SucI)
  qed (use len in simp_all)
qed

lemma renumber_result:
  assumes "renumber rank (zip rest ks) cs ls gs = (cs', ls', gs')" and "routed rows cs ls gs"
    and "length ks = length rest" and "\<forall>k \<in> set ks. rank ! k < length gs" and "length rows + length rest < 2 ^ 32"
  shows "routed (rows @ rest) cs' ls' gs' \<and> cs' = cs @ map ((!) rank) ks \<and> length gs' = length gs"
  using assms
proof (induction rest arbitrary: ks cs ls gs rows)
  case Nil
  then show ?case by simp
next
  case (Cons row rest)
  then obtain k ks' where ks: "ks = k # ks'" by (cases ks) auto
  let ?c = "rank ! k"
  have step: "routed (rows @ [row]) (cs @ [?c]) (ls @ [of_nat (length (gs ! ?c))]) (gs[?c := gs ! ?c @ [row]])"
    using routed_step [OF Cons.prems(2)] Cons.prems(4,5) ks by simp
  have run: "renumber rank (zip rest ks') (cs @ [?c]) (ls @ [of_nat (length (gs ! ?c))]) (gs[?c := gs ! ?c @ [row]]) = (cs', ls', gs')"
    using Cons.prems(1) ks by (simp add: Let_def)
  show ?case using Cons.IH [OF run step] Cons.prems(3,4,5) ks by auto
qed

section \<open>The division of the storage\<close>

text \<open>The bytes of storage a class gets, and where its slice starts.\<close>

definition class_bytes :: "row_class \<Rightarrow> nat" where
  "class_bytes cls = unat (k_budget_rows cls) * unat (k_slot_bytes cls)"

definition slice_start :: "row_class list \<Rightarrow> nat \<Rightarrow> nat" where
  "slice_start classes c = (\<Sum>cls \<leftarrow> take c classes. class_bytes cls)"

definition full_bytes :: "row_class \<Rightarrow> nat" where
  "full_bytes cls = unat (k_rows cls) * unat (k_slot_bytes cls)"

lemma class_bytes_word: "ucast (k_budget_rows cls) * k_slot_bytes cls = (of_nat (class_bytes cls) :: u64)"
  by (simp add: class_bytes_def)

lemma slice_start_simps [simp]:
  "slice_start ks 0 = 0" "slice_start (k # ks) (Suc c) = class_bytes k + slice_start ks c"
  by (simp_all add: slice_start_def)

lemma slice_start_Suc: "c < length ks \<Longrightarrow> slice_start ks (Suc c) = slice_start ks c + class_bytes (ks ! c)"
  by (simp add: slice_start_def take_Suc_conv_app_nth)

lemma slice_start_mono: "c \<le> c' \<Longrightarrow> slice_start ks c \<le> slice_start ks c'"
  unfolding slice_start_def by (auto dest!: le_Suc_ex simp: take_add)

text \<open>The budget fits its 32 bits because of the guard before the cast.\<close>

lemma budget_cast: "(rows :: u64) < ucast NONE \<Longrightarrow> unat (ucast rows :: u32) = unat rows"
  by (simp add: NONE_def unsigned_ucast_eq take_bit_nat_eq_self word_less_nat_alt)

definition budgeted :: "u32 \<Rightarrow> row_class \<Rightarrow> row_class \<Rightarrow> bool" where
  "budgeted batch cls cls' \<longleftrightarrow> k_width cls' = k_width cls \<and> k_slot_bytes cls' = k_slot_bytes cls \<and>
     k_rows cls' = k_rows cls \<and> k_slot_bytes cls \<noteq> 0 \<and> unat (k_budget_rows cls') \<le> unat (k_rows cls) \<and>
     min (2 * ucast batch) (k_rows cls) \<le> ucast (k_budget_rows cls')"

lemma split_storage_result:
  assumes "split_storage cfg tot ks used = Some (Inr (ks', used'))"
  shows "list_all2 (budgeted (z_max_batch_rows cfg)) ks ks' \<and>
     used' = used + of_nat (\<Sum>cls \<leftarrow> ks'. class_bytes cls)"
  using assms
proof (induction ks arbitrary: used ks')
  case Nil
  then show ?case by simp
next
  case (Cons cls rest)
  define bytes where "bytes = (word_of_int \<lfloor>to_double (to_double (class_weight cls / tot) *
      double_of (z_output_size cfg))\<rfloor> :: u64)"
  define rows where "rows = min (bytes div k_slot_bytes cls) (k_rows cls)"
  define batch where "batch = (2 * ucast (z_max_batch_rows cfg) :: u64)"
  have slot: "k_slot_bytes cls \<noteq> 0" and guard: "min batch (k_rows cls) \<le> rows" "rows < ucast NONE"
    using Cons.prems unfolding split_storage.simps Let_def bytes_def [symmetric] rows_def [symmetric] batch_def [symmetric]
    by (auto simp: min_le_iff_disj split: if_splits)
  then obtain rest' where rest: "split_storage cfg tot rest (used + rows * k_slot_bytes cls) = Some (Inr (rest', used'))"
    and ks': "ks' = cls\<lparr>k_budget_rows := ucast rows\<rparr> # rest'"
    using Cons.prems unfolding split_storage.simps Let_def bytes_def [symmetric] rows_def [symmetric] batch_def [symmetric]
    by (auto split: if_splits option.splits sum.splits)
  have cast: "unat (ucast rows :: u32) = unat rows" by (rule budget_cast [OF guard(2)])
  then have wide: "(ucast (ucast rows :: u32) :: u64) = rows" by (metis of_nat_unat ucast_id)
  have "unat rows \<le> unat (k_rows cls)" by (simp add: rows_def word_le_nat_alt [symmetric])
  then have "budgeted (z_max_batch_rows cfg) cls (cls\<lparr>k_budget_rows := ucast rows\<rparr>)"
    using slot guard(1) cast wide by (simp add: budgeted_def batch_def)
  moreover have "rows * k_slot_bytes cls = of_nat (class_bytes (cls\<lparr>k_budget_rows := ucast rows\<rparr>))"
    using class_bytes_word [of "cls\<lparr>k_budget_rows := ucast rows\<rparr>"] wide by simp
  ultimately show ?case using Cons.IH [OF rest] ks' by simp
qed

lemma create_tables_result:
  assumes "create_tables tp mems cfg resolve c pos (zip ks gs) = Inr ts" and "length gs = length ks"
  shows "length ts = length ks \<and>
     (\<forall>q < length ks. create tp (class_config cfg resolve (pos + of_nat (slice_start ks q)) (ks ! q) (gs ! q)) (mems (c + q)) =
        Inr (ts ! q))"
  using assms
proof (induction ks arbitrary: gs c pos ts)
  case Nil
  then show ?case by simp
next
  case (Cons k ks)
  then obtain g gs' where gs: "gs = g # gs'" by (cases gs) auto
  obtain t ts' where t: "create tp (class_config cfg resolve pos k g) (mems c) = Inr t"
    and rest: "create_tables tp mems cfg resolve (c + 1) (pos + of_nat (class_bytes k)) (zip ks gs') = Inr ts'"
    and ts: "ts = t # ts'"
    using Cons.prems(1) unfolding gs
    by (cases "create_tables tp mems cfg resolve (c + 1) (pos + of_nat (class_bytes k)) (zip ks gs')")
      (auto simp: class_bytes_word split: sum.splits)
  have "length ts' = length ks \<and>
     (\<forall>q < length ks. create tp (class_config cfg resolve (pos + of_nat (class_bytes k) + of_nat (slice_start ks q)) (ks ! q) (gs' ! q))
        (mems (c + 1 + q)) = Inr (ts' ! q))"
    using Cons.IH [OF rest] Cons.prems(2) gs by simp
  then show ?case using t by (auto simp: ts gs All_less_Suc2 add.assoc)
qed

lemma create_discovered:
  assumes "size_classed_create tp mems cfg = Some (Inr z)"
  obtains resolve widths ks sized used where
    "z_config z = cfg" "z_resolve_extent cfg = Some resolve" "z_max_batch_rows cfg \<noteq> 0" "z_row_count cfg < ucast NONE"
    "discover resolve (unat (z_max_classes cfg)) (map of_nat [0 ..< unat (z_row_count cfg)]) [] [] = Inr (widths, ks)"
    "renumber (rank_of widths) (zip (map of_nat [0 ..< unat (z_row_count cfg)]) ks) [] [] (replicate (length widths) []) =
       (z_class_of z, z_local_of z, z_global_of z)"
    "sized = map2 (sized_class cfg) (class_widths widths) (z_global_of z)"
    "split_storage cfg (total_weight sized) sized 0 = Some (Inr (z_classes z, used))" "used \<le> z_output_size cfg"
    "create_tables tp mems cfg resolve 0 0 (zip (z_classes z) (z_global_of z)) = Inr (z_tables z)"
proof -
  have guard: "z_row_count cfg < ucast NONE" "z_max_batch_rows cfg \<noteq> 0"
    using assms unfolding size_classed_create_def by (auto simp: not_le split: if_splits)
  obtain resolve where resolve: "z_resolve_extent cfg = Some resolve"
    using assms by (cases "z_resolve_extent cfg") (simp_all add: size_classed_create_def)
  let ?rows = "map of_nat [0 ..< unat (z_row_count cfg)] :: u64 list"
  obtain widths ks where d: "discover resolve (unat (z_max_classes cfg)) ?rows [] [] = Inr (widths, ks)"
    using assms resolve unfolding size_classed_create_def Let_def by (auto split: if_splits sum.splits prod.splits)
  obtain cs ls gs where n: "renumber (rank_of widths) (zip ?rows ks) [] [] (replicate (length widths) []) = (cs, ls, gs)"
    by (metis prod_cases3)
  define sized where "sized = map2 (sized_class cfg) (class_widths widths) gs"
  have run: "(case split_storage cfg (total_weight sized) sized 0 of
      None \<Rightarrow> None | Some (Inl error) \<Rightarrow> Some (Inl error)
    | Some (Inr (classes, used)) \<Rightarrow>
        if used > z_output_size cfg then Some (Inl Invalid_argument)
        else (case create_tables tp mems cfg resolve 0 0 (zip classes gs) of
                Inl error \<Rightarrow> Some (Inl error)
              | Inr tables \<Rightarrow> Some (Inr \<lparr>z_config = cfg, z_classes = classes, z_class_of = cs, z_local_of = ls,
                    z_global_of = gs, z_tables = tables\<rparr>))) = Some (Inr z)"
    using assms d n unfolding size_classed_create_def resolve option.sel Let_def sized_def by (auto split: if_splits)
  then obtain classes used where s: "split_storage cfg (total_weight sized) sized 0 = Some (Inr (classes, used))"
    and u: "used \<le> z_output_size cfg"
    by (auto simp: not_less split: option.splits sum.splits if_splits)
  then obtain tables where t: "create_tables tp mems cfg resolve 0 0 (zip classes gs) = Inr tables"
    and z: "z = \<lparr>z_config = cfg, z_classes = classes, z_class_of = cs, z_local_of = ls, z_global_of = gs, z_tables = tables\<rparr>"
    using run by (auto split: sum.splits if_splits)
  show thesis by (rule that [OF _ resolve guard(2,1) d, of sized used]) (use n s t u z in \<open>simp_all add: sized_def\<close>)
qed

text \<open>What the construction establishes, as the operations use it.\<close>

definition size_classed_ok :: "'m transport \<Rightarrow> (nat \<Rightarrow> 'm) \<Rightarrow> 'm size_classed \<Rightarrow> bool" where
  "size_classed_ok tp mems z \<longleftrightarrow>
     (let cfg = z_config z; resolve = the (z_resolve_extent cfg); n = unat (z_row_count cfg) in
      n < 2 ^ 32 \<and> z_max_batch_rows cfg \<noteq> 0 \<and>
      routed (map of_nat [0 ..< n]) (z_class_of z) (z_local_of z) (z_global_of z) \<and>
      length (z_global_of z) = length (z_classes z) \<and> length (z_tables z) = length (z_classes z) \<and>
      sorted_wrt (<) (map k_width (z_classes z)) \<and>
      (\<forall>row < n. width_at resolve (of_nat row) (k_width (z_classes z ! (z_class_of z ! row)))) \<and>
      (\<forall>c < length (z_classes z). k_rows (z_classes z ! c) = of_nat (length (z_global_of z ! c)) \<and>
         min (2 * ucast (z_max_batch_rows cfg)) (k_rows (z_classes z ! c)) \<le> (ucast (k_budget_rows (z_classes z ! c)) :: u64) \<and>
         create tp (class_config cfg resolve (of_nat (slice_start (z_classes z) c)) (z_classes z ! c) (z_global_of z ! c)) (mems c) =
           Inr (z_tables z ! c)))"

lemma create_size_classed_ok:
  assumes "size_classed_create tp mems cfg = Some (Inr z)"
  shows "size_classed_ok tp mems z" and "z_config z = cfg"
    and "(\<Sum>cls \<leftarrow> z_classes z. full_bytes cls) < 2 ^ 64 \<Longrightarrow>
           (\<Sum>cls \<leftarrow> z_classes z. class_bytes cls) \<le> unat (z_output_size cfg)"
proof -
  let ?n = "unat (z_row_count cfg)" let ?rows = "map of_nat [0 ..< ?n] :: u64 list"
  obtain resolve widths ks sized used where c: "z_config z = cfg" "z_resolve_extent cfg = Some resolve"
    "z_max_batch_rows cfg \<noteq> 0" "z_row_count cfg < ucast NONE"
    and disc: "discover resolve (unat (z_max_classes cfg)) ?rows [] [] = Inr (widths, ks)"
    and ren: "renumber (rank_of widths) (zip ?rows ks) [] [] (replicate (length widths) []) =
       (z_class_of z, z_local_of z, z_global_of z)"
    and sized: "sized = map2 (sized_class cfg) (class_widths widths) (z_global_of z)"
    and split: "split_storage cfg (total_weight sized) sized 0 = Some (Inr (z_classes z, used))"
    and used: "used \<le> z_output_size cfg"
    and tabs: "create_tables tp mems cfg resolve 0 0 (zip (z_classes z) (z_global_of z)) = Inr (z_tables z)"
    by (rule create_discovered [OF assms])
  show "z_config z = cfg" by (rule c(1))
  have n: "?n < 2 ^ 32" using c(4) by (simp add: word_less_nat_alt NONE_def)
  have d: "distinct widths" "length ks = ?n"
    "\<forall>r < ?n. ks ! r < length widths \<and> width_at resolve (?rows ! r) (widths ! (ks ! r))"
    using discover_result [OF disc] by auto
  have ranks: "\<forall>k \<in> set ks. rank_of widths ! k < length (replicate (length widths) ([] :: u64 list))"
    using d(2,3) class_widths_nth(2) by (auto simp: in_set_conv_nth)
  have "routed [] [] [] (replicate (length widths) ([] :: u64 list))" by (simp add: routed_def)
  note r = renumber_result [OF ren this _ ranks]
  have routed: "routed ?rows (z_class_of z) (z_local_of z) (z_global_of z)"
    and class_of: "z_class_of z = map ((!) (rank_of widths)) ks" and len: "length (z_global_of z) = length widths"
    using r d(2) n by auto
  note sr = split_storage_result [OF split]
  have bud: "list_all2 (budgeted (z_max_batch_rows cfg)) sized (z_classes z)" using sr by blast
  have lens: "length sized = length widths" "length (z_classes z) = length widths"
    using sized len class_widths_sorted(2) [OF d(1)] list_all2_lengthD [OF bud] by simp_all
  have cls: "budgeted (z_max_batch_rows cfg) (sized_class cfg (class_widths widths ! q) (z_global_of z ! q)) (z_classes z ! q)"
    if "q < length widths" for q
    using list_all2_nthD2 [OF bud] that lens len class_widths_sorted(2) [OF d(1)] by (simp add: sized)
  have widths: "map k_width (z_classes z) = class_widths widths"
    using cls lens class_widths_sorted(2) [OF d(1)]
    by (intro nth_equalityI) (simp_all add: budgeted_def sized_class_def)
  have row: "width_at resolve (of_nat q) (k_width (z_classes z ! (z_class_of z ! q)))" if "q < ?n" for q
  proof -
    have k: "ks ! q < length widths" using d(3) that by blast
    then have "k_width (z_classes z ! (z_class_of z ! q)) = widths ! (ks ! q)"
      using class_widths_nth [OF k] widths lens that d(2) by (metis class_of nth_map)
    then show ?thesis using d(3) that by simp
  qed
  have "length (z_tables z) = length (z_classes z)" "\<forall>q < length (z_classes z).
      create tp (class_config cfg resolve (of_nat (slice_start (z_classes z) q)) (z_classes z ! q) (z_global_of z ! q)) (mems q) =
        Inr (z_tables z ! q)"
    using create_tables_result [OF tabs] len lens by simp_all
  then show "size_classed_ok tp mems z"
    unfolding size_classed_ok_def Let_def c(1,2) option.sel
    using n c(3) routed len lens widths class_widths_sorted(1) [OF d(1)] row cls
    by (simp add: budgeted_def sized_class_def)
  assume "(\<Sum>cls \<leftarrow> z_classes z. full_bytes cls) < 2 ^ 64"
  moreover have "(\<Sum>cls \<leftarrow> z_classes z. class_bytes cls) \<le> (\<Sum>cls \<leftarrow> z_classes z. full_bytes cls)"
    using bud by (intro sum_list_mono) (auto simp: list_all2_conv_all_nth in_set_conv_nth budgeted_def class_bytes_def full_bytes_def)
  ultimately have small: "(\<Sum>cls \<leftarrow> z_classes z. class_bytes cls) < 2 ^ 64" by linarith
  have "used = of_nat (\<Sum>cls \<leftarrow> z_classes z. class_bytes cls)" using sr by simp
  then have "unat used = (\<Sum>cls \<leftarrow> z_classes z. class_bytes cls)" using unat_of_nat64 [OF small] by simp
  then show "(\<Sum>cls \<leftarrow> z_classes z. class_bytes cls) \<le> unat (z_output_size cfg)"
    using used by (simp add: word_le_nat_alt)
qed

section \<open>A sample\<close>

text \<open>Three rows of four, two and four bytes over one source, with storage for all of them.\<close>

definition sample_widths :: resolver where
  "sample_widths row = Inr \<lparr>loc_shard = 0, loc_range = \<lparr>br_offset = row * 4, br_length = (if row = 1 then 2 else 4)\<rparr>\<rparr>"

definition sample_classed_config :: size_classed_config where
  "sample_classed_config = \<lparr>z_row_count = 3, z_sources = [\<lparr>sh_source = 7, sh_bytes = 16\<rparr>], z_generation = 1,
     z_resolve_extent = Some sample_widths, z_output_addr = 0, z_output_size = 10, z_max_tickets = 1,
     z_max_batch_rows = 1, z_fill_chunk_bytes = 0, z_fill_alignment = 0, z_max_classes = 8\<rparr>"

definition sample_sized :: "row_class list" where
  "sample_sized = [\<lparr>k_width = 2, k_slot_bytes = 2, k_rows = 1, k_budget_rows = 0\<rparr>,
     \<lparr>k_width = 4, k_slot_bytes = 4, k_rows = 2, k_budget_rows = 0\<rparr>]"

lemma sample_rows: "map of_nat [0 ..< 3] = [0, 1, 2 :: u64]"
  by (simp add: upt_rec)

lemma sample_discover: "discover sample_widths 8 [0, 1, 2] [] [] = Inr ([4, 2], [0, 1, 0])"
  by (simp add: sample_widths_def)

lemma sample_renumber:
  "renumber (rank_of [4, 2]) [(0, 0), (1, Suc 0), (2, 0)] [] [] [[], []] = ([1, 0, 1], [0, 0, 1], [[1], [0, 2]])"
  "class_widths [4, 2] = [2, 4]"
  by code_simp+

lemma sample_doubles:
  "to_double 1 = 1" "to_double 2 = 2" "to_double 4 = 4" "to_double 8 = 8" "to_double 10 = 10"
  "\<lfloor>to_double (to_double (1 / 5) * 10)\<rfloor> = 2" "\<lfloor>to_double (to_double (4 / 5) * 10)\<rfloor> = 8"
  by code_simp+

lemma sample_none: "\<not> (4294967295 :: u64) \<le> 1" "\<not> (4294967295 :: u64) \<le> 2" "\<not> (4294967295 :: u32) \<le> 1"
  by code_simp+

lemma sample_split:
  "split_storage sample_classed_config (total_weight sample_sized) sample_sized 0 =
     Some (Inr ([\<lparr>k_width = 2, k_slot_bytes = 2, k_rows = 1, k_budget_rows = 1\<rparr>,
                 \<lparr>k_width = 4, k_slot_bytes = 4, k_rows = 2, k_budget_rows = 2\<rparr>], 10))"
  by (simp add: sample_sized_def total_weight_def class_weight_def double_of_def sample_doubles sample_classed_config_def NONE_def sample_none Let_def)

definition sample_classes :: "row_class list" where
  "sample_classes = [\<lparr>k_width = 2, k_slot_bytes = 2, k_rows = 1, k_budget_rows = 1\<rparr>,
     \<lparr>k_width = 4, k_slot_bytes = 4, k_rows = 2, k_budget_rows = 2\<rparr>]"

lemma sample_class_create:
  "\<exists>t. create ram_transport (class_config sample_classed_config sample_widths pos (\<lparr>k_width = 2, k_slot_bytes = 2, k_rows = 1, k_budget_rows = 1\<rparr>) rows) m = Inr t"
  "\<exists>t. create ram_transport (class_config sample_classed_config sample_widths pos (\<lparr>k_width = 4, k_slot_bytes = 4, k_rows = 2, k_budget_rows = 2\<rparr>) rows) m = Inr t"
  by (simp_all add: create_def class_config_def create_check_def sample_classed_config_def representation_check_def SIZE_MAX_def NONE_def
      make_binding_def active_codec_of_def chunks_per_row_of_def ram_transport_def ram_create_def sample_none)

lemma sample_classed_create:
  "\<exists>z. size_classed_create ram_transport (\<lambda>_. sample_memory) sample_classed_config = Some (Inr z) \<and>
     z_classes z = sample_classes \<and> z_class_of z = [1, 0, 1] \<and> z_local_of z = [0, 0, 1] \<and> z_global_of z = [[1], [0, 2]]"
proof -
  let ?cfg = sample_classed_config
  have cfg: "z_row_count ?cfg = 3" "z_resolve_extent ?cfg = Some sample_widths" "z_max_batch_rows ?cfg = 1"
    "z_max_classes ?cfg = 8" "z_output_size ?cfg = 10" by (simp_all add: sample_classed_config_def)
  have sized: "[sized_class ?cfg 2 [1], sized_class ?cfg 4 [0, 2]] = sample_sized"
    by (simp add: sized_class_def sample_sized_def sample_classed_config_def)
  obtain t0 t1 where "create_tables ram_transport (\<lambda>_. sample_memory) ?cfg sample_widths 0 0 (zip sample_classes [[1], [0, 2]]) = Inr [t0, t1]"
    using sample_class_create(1) [of 0 "[1]" sample_memory] sample_class_create(2) [of 2 "[0, 2]" sample_memory]
    by (auto simp: sample_classes_def)
  then show ?thesis
    using sample_split unfolding sample_classes_def [symmetric]
    by (simp add: size_classed_create_def cfg sample_rows sample_discover sample_renumber sized Let_def NONE_def
          del: discover.simps renumber.simps split_storage.simps create_tables.simps)
qed

section \<open>The routing\<close>

lemma routed_inj:
  assumes "routed (map of_nat [0 ..< n]) cs ls gs" and "n < 2 ^ 32" and "r < n" and "r' < n"
    and "cs ! r = cs ! r'" and "ls ! r = ls ! r'"
  shows "r = r'"
proof -
  have "(of_nat r :: u64) = gs ! (cs ! r) ! unat (ls ! r)" "(of_nat r' :: u64) = gs ! (cs ! r') ! unat (ls ! r')"
    using assms(1,3,4) by (auto simp: routed_def)
  then have "(of_nat r :: u64) = of_nat r'" using assms(5,6) by simp
  then have "unat (of_nat r :: u64) = unat (of_nat r' :: u64)" by simp
  then show ?thesis using assms(2-4) by (simp add: unat_of_nat64)
qed

lemma class_table_room:
  assumes "min (2 * ucast (batch :: u32)) (of_nat rows) \<le> (ucast (budget :: u32) :: u64)" and "rows < 2 ^ 32"
  shows "min (2 * unat batch) rows \<le> unat budget"
proof -
  have "unat (2 * ucast batch :: u64) = 2 * unat batch"
    using unat_u32 [of batch] unat_of_nat64 [of "2 * unat batch"] by simp
  moreover have "unat (of_nat rows :: u64) = rows" using assms(2) by (simp add: unat_of_nat64)
  moreover have "unat (ucast budget :: u64) = unat budget"
    using unat_u32 [of budget] by (simp add: unsigned_ucast_eq take_bit_nat_eq_self)
  ultimately show ?thesis using assms(1) by (auto simp: word_le_nat_alt min_le_iff_disj)
qed

text \<open>
  C35. The construction is sound. Every row \<open>r\<close> has one place: class \<open>class_of[r]\<close>, local index \<open>local_of[r]\<close>, where
  \<open>global_of\<close> leads back to \<open>r\<close>, and different rows have different places. The classes have strictly increasing widths,
  and the row's extent has exactly the width of its class. Every class has a table that satisfies the table
  invariant and has room for all its rows or for two batches. And when the rows at their slot sizes take fewer than
  \<open>2 ^ 64\<close> bytes, the slices of the classes follow each other without overlap and stay inside the caller's storage,
  whatever the rounding of the shares.
\<close>

theorem size_classed_create_sound:
  assumes "size_classed_create tp mems cfg = Some (Inr z)" and "n = unat (z_row_count cfg)"
  shows "(\<forall>r < n. z_class_of z ! r < length (z_classes z) \<and>
        unat (z_local_of z ! r) < length (z_global_of z ! (z_class_of z ! r)) \<and>
        z_global_of z ! (z_class_of z ! r) ! unat (z_local_of z ! r) = of_nat r \<and>
        width_at (the (z_resolve_extent cfg)) (of_nat r) (k_width (z_classes z ! (z_class_of z ! r)))) \<and>
     (\<forall>r < n. \<forall>r' < n. z_class_of z ! r = z_class_of z ! r' \<longrightarrow> z_local_of z ! r = z_local_of z ! r' \<longrightarrow> r = r') \<and>
     sorted_wrt (<) (map k_width (z_classes z)) \<and> length (z_tables z) = length (z_classes z) \<and>
     (\<forall>c < length (z_classes z). table_inv (z_tables z ! c) \<and>
        min (2 * unat (z_max_batch_rows cfg)) (length (z_global_of z ! c)) \<le> length (slots (z_tables z ! c)) \<and>
        c_output_addr (config (z_tables z ! c)) = z_output_addr cfg + of_nat (slice_start (z_classes z) c) \<and>
        ((\<Sum>cls \<leftarrow> z_classes z. full_bytes cls) < 2 ^ 64 \<longrightarrow>
           slice_start (z_classes z) (Suc c) = slice_start (z_classes z) c + unat (c_output_size (config (z_tables z ! c))) \<and>
           slice_start (z_classes z) (Suc c) \<le> unat (z_output_size cfg)))"
proof -
  note ok = create_size_classed_ok [OF assms(1)]
  have n: "n < 2 ^ 32" and routed: "routed (map of_nat [0 ..< n]) (z_class_of z) (z_local_of z) (z_global_of z)"
    and lens: "length (z_global_of z) = length (z_classes z)" "length (z_tables z) = length (z_classes z)"
    and sorted: "sorted_wrt (<) (map k_width (z_classes z))"
    and width: "\<forall>r < n. width_at (the (z_resolve_extent cfg)) (of_nat r) (k_width (z_classes z ! (z_class_of z ! r)))"
    and tables: "\<forall>c < length (z_classes z). k_rows (z_classes z ! c) = of_nat (length (z_global_of z ! c)) \<and>
       min (2 * ucast (z_max_batch_rows cfg)) (k_rows (z_classes z ! c)) \<le> (ucast (k_budget_rows (z_classes z ! c)) :: u64) \<and>
       create tp (class_config cfg (the (z_resolve_extent cfg)) (of_nat (slice_start (z_classes z) c)) (z_classes z ! c)
          (z_global_of z ! c)) (mems c) = Inr (z_tables z ! c)"
    using ok(1) unfolding size_classed_ok_def Let_def ok(2) assms(2) [symmetric] by blast+
  have there: "\<forall>r < n. z_class_of z ! r < length (z_classes z) \<and>
        unat (z_local_of z ! r) < length (z_global_of z ! (z_class_of z ! r)) \<and>
        z_global_of z ! (z_class_of z ! r) ! unat (z_local_of z ! r) = of_nat r"
    using routed lens(1) by (simp add: routed_def)
  have table: "table_inv (z_tables z ! c) \<and>
      min (2 * unat (z_max_batch_rows cfg)) (length (z_global_of z ! c)) \<le> length (slots (z_tables z ! c)) \<and>
      c_output_addr (config (z_tables z ! c)) = z_output_addr cfg + of_nat (slice_start (z_classes z) c) \<and>
      ((\<Sum>cls \<leftarrow> z_classes z. full_bytes cls) < 2 ^ 64 \<longrightarrow>
         slice_start (z_classes z) (Suc c) = slice_start (z_classes z) c + unat (c_output_size (config (z_tables z ! c))) \<and>
         slice_start (z_classes z) (Suc c) \<le> unat (z_output_size cfg))"
    if c: "c < length (z_classes z)" for c
  proof -
    note t = create_result [OF conjunct2 [OF conjunct2 [OF tables [rule_format, OF c]]]]
    have "min (2 * ucast (z_max_batch_rows cfg)) (of_nat (length (z_global_of z ! c))) \<le> (ucast (k_budget_rows (z_classes z ! c)) :: u64)"
      using tables c by metis
    moreover have "length (z_global_of z ! c) < 2 ^ 32" using routed lens(1) n c by (auto simp: routed_def)
    ultimately have room: "min (2 * unat (z_max_batch_rows cfg)) (length (z_global_of z ! c)) \<le> length (slots (z_tables z ! c))"
      using class_table_room t(4) by (simp add: class_config_def)
    have part: "slice_start (z_classes z) (Suc c) \<le> (\<Sum>cls \<leftarrow> z_classes z. class_bytes cls)"
      using slice_start_mono [of "Suc c" "length (z_classes z)" "z_classes z"] c by (simp add: slice_start_def)
    have fits: "class_bytes (z_classes z ! c) < 2 ^ 64" "slice_start (z_classes z) (Suc c) \<le> unat (z_output_size cfg)"
      if "(\<Sum>cls \<leftarrow> z_classes z. full_bytes cls) < 2 ^ 64"
      using part ok(3) [OF that] slice_start_Suc [OF c] unat_u64 [of "z_output_size cfg"] by linarith+
    have "c_output_size (config (z_tables z ! c)) = of_nat (class_bytes (z_classes z ! c))"
      using t(3) by (simp add: class_config_def class_bytes_word)
    then show ?thesis
      using t(2,3) room slice_start_Suc [OF c] fits unat_of_nat64 by (auto simp: class_config_def)
  qed
  show ?thesis using there width routed_inj [OF routed n] sorted lens(2) table by blast
qed

theorem size_classed_create_sound_witness:
  "\<exists>z. size_classed_create ram_transport (\<lambda>_. sample_memory) sample_classed_config = Some (Inr z) \<and>
     slice_start (z_classes z) 2 \<le> 10 \<and> z_global_of z ! (z_class_of z ! 2) ! unat (z_local_of z ! 2) = 2"
proof -
  obtain z where z: "size_classed_create ram_transport (\<lambda>_. sample_memory) sample_classed_config = Some (Inr z)"
    and cls: "z_classes z = sample_classes" using sample_classed_create by blast
  have cfg: "unat (z_row_count sample_classed_config) = 3" "unat (z_output_size sample_classed_config) = 10"
    by (simp_all add: sample_classed_config_def)
  have sum: "(\<Sum>cls \<leftarrow> z_classes z. full_bytes cls) < 2 ^ 64" and len: "length (z_classes z) = 2"
    by (simp_all add: cls sample_classes_def full_bytes_def)
  note s = size_classed_create_sound [OF z refl, unfolded cfg len]
  have "slice_start (z_classes z) (Suc 1) \<le> 10" using s sum by (metis one_less_numeral_iff semiring_norm(76))
  moreover have "z_global_of z ! (z_class_of z ! 2) ! unat (z_local_of z ! 2) = of_nat 2" using s by simp
  ultimately show ?thesis using z by (auto simp: numeral_2_eq_2)
qed

text \<open>
  The alignment is not checked before it is used: an alignment of \<open>2 ^ 63\<close> makes every slot size wrap to zero, and the
  construction divides by it.
\<close>

lemma unchecked_alignment_divides_by_zero:
  "size_classed_create tp mems (sample_classed_config\<lparr>z_fill_alignment := 2 ^ 63\<rparr>) = None"
proof -
  have cfg: "z_row_count sample_classed_config = 3" "z_resolve_extent sample_classed_config = Some sample_widths"
    "z_max_batch_rows sample_classed_config = 1" "z_max_classes sample_classed_config = 8"
    by (simp_all add: sample_classed_config_def)
  have "k_slot_bytes (sized_class (sample_classed_config\<lparr>z_fill_alignment := 2 ^ 63\<rparr>) 2 rows) = 0" for rows
    by (simp add: sized_class_def aligned_slot_bytes_def)
  then show ?thesis
    by (simp add: size_classed_create_def cfg sample_rows sample_discover sample_renumber Let_def NONE_def
          del: discover.simps renumber.simps)
qed

end
