(* ===== verification/Size_Classed_Calls.thy ===== *)
theory Size_Classed_Calls
  imports Size_Classed_Sound
begin

text \<open>
  The calls of the size-classed table: \<open>resolve_into\<close> goes through the classes row by row, and is all or nothing
  across them. The interference of other threads is the one of \<open>Table_Calls\<close>, relative to all the leases the
  caller holds at that moment.
\<close>

section \<open>One row of one class\<close>

text \<open>A lease on a row that \<open>resolve_into\<close> reported as resolved, and that is still good.\<close>

definition lease_done :: "'m table \<Rightarrow> u64 \<Rightarrow> lease \<Rightarrow> bool" where
  "lease_done t row l \<longleftrightarrow> l_row_index l = row \<and> lease_ok t l \<and>
     (s_state (slots t ! l_slot l) = Ready \<and> l_bytes l = published_span t (l_slot l) \<or>
      s_state (slots t ! l_slot l) = Failed \<and> s_failure (slots t ! l_slot l) = Ok)"

lemma lease_done_same:
  assumes "lease_done t row l" and "same_fill (slots t ! l_slot l) (slots t' ! l_slot l)" and "config t' = config t"
    and "length (slots t') = length (slots t)" and "s_pins (slots t' ! l_slot l) \<noteq> 0"
  shows "lease_done t' row l"
  using assms same_fillD [OF assms(2)] by (auto simp: lease_done_def lease_ok_def published_span_def output_span_def)

lemma lease_done_admits: "lease_done t row l \<Longrightarrow> admits t t' \<Longrightarrow> lease_done t' row l"
  using lease_ok_admits [of t l t'] lease_done_same [of t row l t']
  by (auto simp: lease_done_def [of t] admits_def lease_ok_def [of t'])

lemma lease_done_interferes:
  assumes "lease_done t row l" and "interferes held t t'" and "0 < held (l_slot l)"
  shows "lease_done t' row l"
  using assms interferes_span [OF assms(2) _ assms(3)] by (auto simp: lease_done_def lease_ok_def interferes_def)

lemma lease_done_releases:
  assumes "lease_done t row l" and "releases k t t'" and "held_ok t' ls" and "l \<in> set ls"
  shows "lease_done t' row l"
proof (rule lease_done_same [OF assms(1)])
  have "l_slot l < length (slots t)" using assms(1) by (simp add: lease_done_def lease_ok_def)
  then show "same_fill (slots t ! l_slot l) (slots t' ! l_slot l)" "s_pins (slots t' ! l_slot l) \<noteq> 0"
    "config t' = config t" "length (slots t') = length (slots t)"
    using assms(2,3) pins_of_pos [OF assms(4)] by (auto simp: releases_def held_ok_def)
qed

lemma admit_row_held:
  assumes "table_inv t" and "held_ok t ls" and "admit_row tp row t = (r, t1)"
  shows "held_ok t1 (case r of Inl _ \<Rightarrow> ls | Inr l \<Rightarrow> l # ls)"
proof -
  note a = admit_row_result [OF assms(1,3)]
  have same: "s_epoch (slots t1 ! l_slot l) = l_epoch l" "l_slot l < length (slots t1)" if "l \<in> set ls" for l
  proof -
    have "l_slot l < length (slots t)" "s_epoch (slots t ! l_slot l) = l_epoch l" "blocked (slots t ! l_slot l)"
      using assms(2) that pins_of_pos [OF that] by (auto simp: held_ok_def blocked_def)
    then show "s_epoch (slots t1 ! l_slot l) = l_epoch l" "l_slot l < length (slots t1)"
      using a(1) same_fillD(2) by (auto simp: admits_def)
  qed
  show ?thesis
  proof (cases r)
    case (Inl e)
    then show ?thesis using a(1,2) assms(2) same by (auto simp: held_ok_def admits_def)
  next
    case (Inr l)
    then show ?thesis using a(1) a(3) [OF Inr] assms(2) same
      by (auto simp: held_ok_def admits_def lease_ok_def intro: add_mono)
  qed
qed

lemma batch_pos: "(n :: u32) \<noteq> 0 \<Longrightarrow> 0 < unat n"
  by (simp add: unat_gt_0 word_neq_0_conv)

lemma resolve_single_result:
  assumes run: "resolve_into tp (\<lambda>_. others) [row] [None] t = Some (r, out', t')"
    and inv: "table_inv t" and held: "held_ok t ls" and batch: "c_max_batch_rows (config t) \<noteq> 0"
    and rely: "\<forall>l t1. admit_row tp row t = (Inr l, t1) \<longrightarrow> relies (l # ls) (l_slot l) others" and out: "waits_out tp"
  shows "table_inv t' \<and> config t' = config t \<and>
     (\<exists>v. out' = [v] \<and> held_ok t' (leases_in [v] @ ls) \<and>
        (case r of Inl _ \<Rightarrow> v = None | Inr _ \<Rightarrow> \<exists>l. v = Some l \<and> lease_done t' row l)) \<and>
     (\<forall>l \<in> set ls. \<forall>row'. lease_done t row' l \<longrightarrow> lease_done t' row' l)"
proof (cases "row < c_row_count (config t)")
  case False
  then have "r = Inl Out_of_range" "out' = [None]" "t' = t"
    using run batch_pos [OF batch] by (auto simp: resolve_into_def not_less)
  then show ?thesis using inv held by simp
next
  case True
  note single = run [unfolded resolve_into_single [OF True batch]]
  obtain a t1 where adm: "admit_row tp row t = (a, t1)" by fastforce
  note ar = admit_row_result [OF inv adm] and ah = admit_row_held [OF inv held adm]
  have inv1: "table_inv t1" "config t1 = config t" using ar(1) by (simp_all add: admits_def)
  show ?thesis
  proof (cases a)
    case (Inl e)
    then have "r = Inl e" "out' = [None]" "t' = t1" using single adm ar(2) [OF Inl] by auto
    then show ?thesis using inv1 ah Inl lease_done_admits [OF _ ar(1)] by simp
  next
    case (Inr l)
    obtain st l' t2 where dr: "drive_row tp others l t1 = Some (st, l', t2)"
      using single adm Inr by (auto split: option.splits)
    have held1: "held_ok t1 (l # ls)" using ah Inr by simp
    have rl: "relies (l # ls) (l_slot l) others" using rely adm Inr by simp
    note d = drive_row_result [OF dr inv1(1) held1 _ rl out, simplified]
    have held2: "held_ok t2 (l # ls)" and inv2: "table_inv t2" "config t2 = config t"
      using interferes_held [OF held1 d(1)] d(1) inv1(2) by (simp_all add: interferes_def)
    have kept: "lease_done t2 row' k" if "k \<in> set ls" "lease_done t row' k" for row' k
      using lease_done_interferes [OF lease_done_admits [OF that(2) ar(1)] d(1)] pins_of_pos [OF that(1)] by simp
    show ?thesis
    proof (cases "st = Ok")
      case False
      have l: "l_slot l < length (slots t2)" "s_epoch (slots t2 ! l_slot l) = l_epoch l" "s_pins (slots t2 ! l_slot l) \<noteq> 0"
        using held2 by (auto simp: held_ok_def)
      obtain u where u: "release_lease (l_slot l) (l_epoch l) t2 = Some u" "releases (\<lambda>j. of_bool (l_slot l = j)) t2 u"
        by (rule release_lease_result [OF inv2(1) l])
      have res: "r = Inl st" "out' = [None]" "t' = u" using single adm Inr dr False d(2) u(1) by auto
      have heldu: "held_ok u ls" by (rule held_ok_release [OF held2 u(2)])
      then show ?thesis
        using res u(2) inv2 lease_done_releases [OF _ u(2) heldu] kept by (auto simp: releases_def)
    next
      case ok: True
      then have res: "r = Inr 1" "out' = [Some l']" "t' = t2" using single adm Inr dr by auto
      have sl: "l_slot l' = l_slot l" "l_epoch l' = l_epoch l" "l_row_index l' = l_row_index l"
        "l_generation l' = l_generation l" using d(3) [OF ok] by auto
      have "lease_ok t1 l" "l_row_index l = row" using ar(3) [OF Inr] by blast+
      then have "lease_ok t2 l" using lease_ok_interferes [of t1 l "l # ls" t2] d(1) by simp
      then have "lease_done t2 row l'"
        using d(3) [OF ok] sl \<open>l_row_index l = row\<close> by (auto simp: lease_done_def lease_ok_def)
      moreover have "held_ok t2 (l' # ls)" using held2 sl by (simp add: held_ok_def)
      ultimately show ?thesis using res inv2 kept by auto
    qed
  qed
qed

lemma resolve_single_pins:
  assumes run: "resolve_into tp (\<lambda>_. others) [row] [None] t = Some (r, out', t')"
    and inv: "table_inv t" and held: "held_ok t ls" and batch: "c_max_batch_rows (config t) \<noteq> 0"
    and rely: "\<forall>l t1. admit_row tp row t = (Inr l, t1) \<longrightarrow> relies (l # ls) (l_slot l) others" and out: "waits_out tp"
    and pins: "keeps_pins others"
  shows "length (slots t') = length (slots t) \<and>
     (\<forall>j < length (slots t). s_pins (slots t' ! j) = s_pins (slots t ! j) + pins_of (leases_in out') j)"
proof (cases "row < c_row_count (config t)")
  case False
  then have "out' = [None]" "t' = t" using run batch_pos [OF batch] by (auto simp: resolve_into_def not_less)
  then show ?thesis by simp
next
  case True
  note single = run [unfolded resolve_into_single [OF True batch]]
  obtain a t1 where adm: "admit_row tp row t = (a, t1)" by fastforce
  note ar = admit_row_result [OF inv adm] and ah = admit_row_held [OF inv held adm]
  have inv1: "table_inv t1" and len1: "length (slots t1) = length (slots t)" using ar(1) by (simp_all add: admits_def)
  show ?thesis
  proof (cases a)
    case (Inl e)
    then have "out' = [None]" "t' = t1" using single adm ar(2) [OF Inl] by auto
    then show ?thesis using ar(2) [OF Inl] len1 by simp
  next
    case (Inr l)
    obtain st l' t2 where dr: "drive_row tp others l t1 = Some (st, l', t2)"
      using single adm Inr by (auto split: option.splits)
    have held1: "held_ok t1 (l # ls)" using ah Inr by simp
    have rl: "relies (l # ls) (l_slot l) others" using rely adm Inr by simp
    have lin: "l \<in> set (l # ls)" by simp
    note d = drive_row_result [OF dr inv1 held1 lin rl out] and sp = same_pinsD [OF drive_row_pins [OF dr inv1 held1 lin rl pins]]
    have p: "s_pins (slots t2 ! j) = s_pins (slots t ! j) + of_bool (j = l_slot l)" if "j < length (slots t)" for j
      using sp(2) ar(3) [OF Inr] that len1 by simp
    show ?thesis
    proof (cases "st = Ok")
      case False
      then have rel: "release_lease (l_slot l) (l_epoch l) t2 = Some t'" and o: "out' = [None]"
        using single adm Inr dr d(2) by auto
      then have "t' = unpin_locked (l_slot l) t2" by (simp add: release_lease_def split: if_splits)
      moreover have "l_slot l < length (slots t)" using ar(3) [OF Inr] len1 by (simp add: lease_ok_def)
      ultimately show ?thesis using p o sp(1) len1 by (auto simp: unpin_locked_def upd_slot_def nth_list_update)
    next
      case True
      then have o: "out' = [Some l']" "t' = t2" "l_slot l' = l_slot l" using single adm Inr dr d(3) [OF True] by auto
      show ?thesis using p sp(1) len1 by (auto simp: o eq_commute)
    qed
  qed
qed

section \<open>All or nothing across the classes\<close>

text \<open>The pins of every table change by the leases that left and entered the variables.\<close>

definition balanced :: "'m table list \<Rightarrow> row_lease list \<Rightarrow> 'm table list \<Rightarrow> row_lease list \<Rightarrow> bool" where
  "balanced ts vars ts' vars' \<longleftrightarrow> length ts' = length ts \<and>
     (\<forall>c < length ts. length (slots (ts' ! c)) = length (slots (ts ! c)) \<and>
        (\<forall>j < length (slots (ts ! c)). s_pins (slots (ts' ! c) ! j) + pins_of (leases_on c vars) j =
           s_pins (slots (ts ! c) ! j) + pins_of (leases_on c vars') j))"

lemma balanced_refl [simp]: "balanced ts vars ts vars" by (simp add: balanced_def)

lemma balanced_trans: "balanced ts vars ts1 vars1 \<Longrightarrow> balanced ts1 vars1 ts' vars' \<Longrightarrow> balanced ts vars ts' vars'"
proof -
  assume b: "balanced ts vars ts1 vars1" "balanced ts1 vars1 ts' vars'"
  have "s_pins (slots (ts' ! c) ! j) + pins_of (leases_on c vars) j = s_pins (slots (ts ! c) ! j) + pins_of (leases_on c vars') j"
    if "c < length ts" "j < length (slots (ts ! c))" for c j
  proof -
    have "s_pins (slots (ts1 ! c) ! j) + pins_of (leases_on c vars) j = s_pins (slots (ts ! c) ! j) + pins_of (leases_on c vars1) j"
      "s_pins (slots (ts' ! c) ! j) + pins_of (leases_on c vars1) j = s_pins (slots (ts1 ! c) ! j) + pins_of (leases_on c vars') j"
      using b that by (simp_all add: balanced_def)
    then show ?thesis by linarith
  qed
  then show ?thesis using b by (simp add: balanced_def)
qed

lemma balanced_frame: "balanced ts vars ts' vars' \<Longrightarrow> balanced ts (xs @ vars @ ys) ts' (xs @ vars' @ ys)"
  by (auto simp: balanced_def)

lemma reset_lease_balanced:
  assumes "owned ts (v # vars)" and "reset_lease v ts = Some ts'"
  shows "balanced ts [v] ts' [None]"
proof -
  have rel: "releases (pins_of (leases_on c [v])) (ts ! c) (ts' ! c)" and len: "length ts' = length ts"
    if "c < length ts" for c
    using reset_lease_owned [OF assms(1)] assms(2) that by (metis option.inject)+
  have "pins_of (leases_on c [v]) j \<le> s_pins (slots (ts ! c) ! j)" if "c < length ts" "j < length (slots (ts ! c))" for c j
    using assms(1) that leases_on_append [of c "[v]" vars] by (fastforce simp: owned_def held_ok_def)
  moreover have "length ts' = length ts" using reset_lease_owned [OF assms(1)] assms(2) by (metis option.inject)
  ultimately show ?thesis using rel by (auto simp: balanced_def releases_def)
qed

lemma resolve_into_resets:
  assumes "c_max_batch_rows (config t) \<noteq> 0"
  shows "resolve_into tp others [row] [Some l] t =
     (case release_lease (l_slot l) (l_epoch l) t of
        None \<Rightarrow> None
      | Some t1 \<Rightarrow> resolve_into tp others [row] [None] t1)"
proof (cases "release_lease (l_slot l) (l_epoch l) t")
  case None
  then show ?thesis using batch_pos [OF assms] by (simp add: resolve_into_def)
next
  case (Some t1)
  then have "config t1 = config t" by (auto simp: release_lease_def unpin_locked_def upd_slot_def split: if_splits)
  then show ?thesis using batch_pos [OF assms] Some
    by (simp add: resolve_into_def Let_def split: prod.split option.split)
qed

lemma resolve_class_eq:
  assumes "c < length ts" and "c_max_batch_rows (config (ts ! c)) \<noteq> 0"
  shows "resolve_class tp others c local var ts =
     (case reset_lease var ts of
        None \<Rightarrow> None
      | Some ts1 \<Rightarrow>
          (case resolve_into tp (\<lambda>_. others) [local] [None] (ts1 ! c) of
             None \<Rightarrow> None
           | Some (r, out, t) \<Rightarrow> Some (r, map_option (\<lambda>l. (c, l)) (hd out), ts1[c := t])))"
proof (cases var)
  case (Some x)
  obtain c' l where x: "x = (c', l)" by (cases x)
  show ?thesis
  proof (cases "c' = c")
    case True
    then show ?thesis using assms(1) Some x resolve_into_resets [OF assms(2)]
      by (simp add: resolve_class_def reset_lease_def split: option.split)
  qed (simp add: resolve_class_def Some x split: option.split)
qed (simp add: resolve_class_def reset_lease_def)

lemma leases_on_Cons: "leases_on c (map_option (\<lambda>l. (c, l)) v # vars) = leases_in [v] @ leases_on c vars"
  "c' \<noteq> c \<Longrightarrow> leases_on c' (map_option (\<lambda>l. (c, l)) v # vars) = leases_on c' vars"
  by (cases v; simp)+

lemma resolve_class_result:
  assumes run: "resolve_class tp others c local v0 ts = Some (r, v, ts')" and own: "owned ts (v0 # vars)"
    and c: "c < length ts" and batch: "c_max_batch_rows (config (ts ! c)) \<noteq> 0"
    and rely: "\<forall>ts1 l t1. reset_lease v0 ts = Some ts1 \<longrightarrow> admit_row tp local (ts1 ! c) = (Inr l, t1) \<longrightarrow>
       relies (l # leases_on c vars) (l_slot l) others"
    and out: "waits_out tp"
  shows "owned ts' (v # vars) \<and> map config ts' = map config ts \<and>
     (case r of Inl _ \<Rightarrow> v = None | Inr _ \<Rightarrow> \<exists>l. v = Some (c, l) \<and> lease_done (ts' ! c) local l) \<and>
     (\<forall>c' l row. Some (c', l) \<in> set vars \<longrightarrow> lease_done (ts ! c') row l \<longrightarrow> lease_done (ts' ! c') row l)"
proof -
  obtain ts1 where ts1: "reset_lease v0 ts = Some ts1" and own1: "owned ts1 vars" and len: "length ts1 = length ts"
    and rel: "\<And>c. c < length ts \<Longrightarrow> releases (pins_of (leases_on c [v0])) (ts ! c) (ts1 ! c)"
    using reset_lease_owned [OF own] by blast
  obtain out' t where res: "resolve_into tp (\<lambda>_. others) [local] [None] (ts1 ! c) = Some (r, out', t)"
    and v: "v = map_option (\<lambda>l. (c, l)) (hd out')" and ts': "ts' = ts1[c := t]"
    using run unfolding resolve_class_eq [OF c batch] ts1 by (auto split: option.splits)
  have inv1: "table_inv (ts1 ! c)" "held_ok (ts1 ! c) (leases_on c vars)" "config (ts1 ! c) = config (ts ! c)"
    using own1 c len rel [OF c] by (auto simp: owned_def releases_def)
  have rely1: "\<forall>l t1. admit_row tp local (ts1 ! c) = (Inr l, t1) \<longrightarrow> relies (l # leases_on c vars) (l_slot l) others"
    using rely ts1 by blast
  note s = resolve_single_result [OF res inv1(1,2) _ rely1 out]
  have s: "table_inv t" "config t = config (ts1 ! c)"
    "\<exists>w. out' = [w] \<and> held_ok t (leases_in [w] @ leases_on c vars) \<and>
      (case r of Inl _ \<Rightarrow> w = None | Inr _ \<Rightarrow> \<exists>l. w = Some l \<and> lease_done t local l)"
    "\<forall>l \<in> set (leases_on c vars). \<forall>row'. lease_done (ts1 ! c) row' l \<longrightarrow> lease_done t row' l"
    using s batch inv1(3) by simp_all
  then obtain w where w: "out' = [w]" "held_ok t (leases_in [w] @ leases_on c vars)"
    "case r of Inl _ \<Rightarrow> w = None | Inr _ \<Rightarrow> \<exists>l. w = Some l \<and> lease_done t local l" by blast
  have on: "l \<in> set (leases_on c' vars)" if "Some (c', l) \<in> set vars" for c' l
    using that by (induction c' vars rule: leases_on.induct) auto
  have "owned ts' (v # vars)"
    unfolding owned_def
  proof (intro conjI allI impI)
    show "c' < length ts'" if "Some (c', l) \<in> set (v # vars)" for c' l
      using that own1 c len v by (cases "hd out'") (auto simp: ts' owned_def)
    fix c' assume "c' < length ts'"
    then show "table_inv (ts' ! c')" "held_ok (ts' ! c') (leases_on c' (v # vars))"
      using own1 s(1) w(1,2) c len leases_on_Cons [where c = c and v = w and vars = vars]
      by (cases "c' = c"; simp add: ts' v owned_def)+
  qed
  moreover have "map config ts' = map config ts"
    using s(2) rel c len by (intro nth_equalityI) (auto simp: ts' nth_list_update releases_def)
  moreover have "case r of Inl _ \<Rightarrow> v = None | Inr _ \<Rightarrow> \<exists>l. v = Some (c, l) \<and> lease_done (ts' ! c) local l"
    using w(1,3) c len by (auto simp: v ts' split: sum.splits)
  moreover have "lease_done (ts' ! c') row l" if "Some (c', l) \<in> set vars" "lease_done (ts ! c') row l" for c' l row
  proof -
    have c': "c' < length ts" using that(1) own by (auto simp: owned_def)
    then have "held_ok (ts1 ! c') (leases_on c' vars)" using own1 len by (simp add: owned_def)
    then have "lease_done (ts1 ! c') row l" using lease_done_releases [OF that(2) rel [OF c']] on that(1) by blast
    then show ?thesis using s(4) on [OF that(1)] c' len by (cases "c' = c") (auto simp: ts')
  qed
  ultimately show ?thesis by blast
qed

lemma resolve_class_balanced:
  assumes run: "resolve_class tp others c local v0 ts = Some (r, v, ts')" and own: "owned ts (v0 # vars)"
    and c: "c < length ts" and batch: "c_max_batch_rows (config (ts ! c)) \<noteq> 0"
    and rely: "\<forall>ts1 l t1. reset_lease v0 ts = Some ts1 \<longrightarrow> admit_row tp local (ts1 ! c) = (Inr l, t1) \<longrightarrow>
       relies (l # leases_on c vars) (l_slot l) others"
    and out: "waits_out tp" and pins: "keeps_pins others"
  shows "balanced ts [v0] ts' [v]"
proof -
  obtain ts1 where ts1: "reset_lease v0 ts = Some ts1" and own1: "owned ts1 vars" and len: "length ts1 = length ts"
    and rel: "\<And>c. c < length ts \<Longrightarrow> releases (pins_of (leases_on c [v0])) (ts ! c) (ts1 ! c)"
    using reset_lease_owned [OF own] by blast
  obtain out' t where res: "resolve_into tp (\<lambda>_. others) [local] [None] (ts1 ! c) = Some (r, out', t)"
    and v: "v = map_option (\<lambda>l. (c, l)) (hd out')" and ts': "ts' = ts1[c := t]"
    using run unfolding resolve_class_eq [OF c batch] ts1 by (auto split: option.splits)
  have inv1: "table_inv (ts1 ! c)" "held_ok (ts1 ! c) (leases_on c vars)" "c_max_batch_rows (config (ts1 ! c)) \<noteq> 0"
    using own1 c len rel [OF c] batch by (auto simp: owned_def releases_def)
  have rely1: "\<forall>l t1. admit_row tp local (ts1 ! c) = (Inr l, t1) \<longrightarrow> relies (l # leases_on c vars) (l_slot l) others"
    using rely ts1 by blast
  obtain w where w: "out' = [w]" using resolve_single_result [OF res inv1 rely1 out] by blast
  have "length (slots t) = length (slots (ts1 ! c)) \<and>
      (\<forall>j < length (slots (ts1 ! c)). s_pins (slots t ! j) = s_pins (slots (ts1 ! c) ! j) + pins_of (leases_in out') j)"
    by (rule resolve_single_pins [OF res inv1 rely1 out pins])
  then have "balanced ts1 [None] ts' [v]"
    using c len leases_on_Cons [where v = w and c = c and vars = "[]"]
    by (auto simp: balanced_def ts' v w nth_list_update)
  then show ?thesis using balanced_trans [OF reset_lease_balanced [OF own ts1]] by blast
qed

text \<open>
  What the loop relies on. When entry \<open>i\<close> is admitted, the caller holds the new lease, the leases written so far and
  those of the entries still to come; the other threads may do anything but touch these pins, and the fill the
  call finishes.
\<close>

fun rows_rely :: "'m transport \<Rightarrow> (nat \<Rightarrow> nat \<Rightarrow> 'm table \<Rightarrow> 'm table) \<Rightarrow> 'm size_classed \<Rightarrow> u64 list \<Rightarrow>
    row_lease list \<Rightarrow> row_lease list \<Rightarrow> 'm table list \<Rightarrow> bool" where
  "rows_rely tp others z [] written out ts = True"
| "rows_rely tp others z (row # rows) written out ts =
     (row < z_row_count (z_config z) \<longrightarrow>
        (\<forall>ts1 l t1. reset_lease (hd out) ts = Some ts1 \<longrightarrow>
           admit_row tp (ucast (z_local_of z ! unat row)) (ts1 ! (z_class_of z ! unat row)) = (Inr l, t1) \<longrightarrow>
           relies (l # leases_on (z_class_of z ! unat row) (written @ tl out)) (l_slot l) (others (length written))) \<and>
        (\<forall>n v ts2. resolve_class tp (others (length written)) (z_class_of z ! unat row)
             (ucast (z_local_of z ! unat row)) (hd out) ts = Some (Inr n, v, ts2) \<longrightarrow>
           rows_rely tp others z rows (written @ [v]) (tl out) ts2))"

text \<open>The entry of a row that was resolved: a good lease on the row's local index in the row's class.\<close>

definition row_done :: "'m size_classed \<Rightarrow> 'm table list \<Rightarrow> u64 \<Rightarrow> row_lease \<Rightarrow> bool" where
  "row_done z ts row v \<longleftrightarrow> row < z_row_count (z_config z) \<and>
     (\<exists>l. v = Some (z_class_of z ! unat row, l) \<and>
        lease_done (ts ! (z_class_of z ! unat row)) (ucast (z_local_of z ! unat row)) l)"

lemma reset_leases_owned:
  assumes "owned ts (vs @ vars)"
  shows "\<exists>ts'. reset_leases vs ts = Some ts' \<and> owned ts' vars \<and> map config ts' = map config ts"
  using assms
proof (induction vs arbitrary: ts)
  case (Cons v vs)
  obtain ts1 where r: "reset_lease v ts = Some ts1" "owned ts1 (vs @ vars)" "length ts1 = length ts"
    "\<And>c. c < length ts \<Longrightarrow> releases (pins_of (leases_on c [v])) (ts ! c) (ts1 ! c)"
    using reset_lease_owned [of ts v "vs @ vars"] Cons.prems by auto
  then have "map config ts1 = map config ts" by (intro nth_equalityI) (auto simp: releases_def)
  then show ?case using Cons.IH [OF r(2)] r(1) by auto
qed simp

lemma reset_leases_balanced:
  assumes "owned ts (vs @ vars)" and "reset_leases vs ts = Some ts'"
  shows "balanced ts vs ts' (replicate (length vs) None)"
  using assms
proof (induction vs arbitrary: ts)
  case (Cons v vs)
  obtain ts1 where r: "reset_lease v ts = Some ts1" "owned ts1 (vs @ vars)"
    using reset_lease_owned [of ts v "vs @ vars"] Cons.prems by auto
  then have "balanced ts1 vs ts' (replicate (length vs) None)" using Cons.IH Cons.prems(2) by simp
  then have "balanced ts1 (None # vs) ts' (None # replicate (length vs) None)"
    using balanced_frame [of ts1 vs ts' "replicate (length vs) None" "[None]" "[]"] by simp
  moreover have "balanced ts (v # vs) ts1 (None # vs)"
    using balanced_frame [OF reset_lease_balanced [of ts v "vs @ vars"], of ts1 "[]" vs] Cons.prems(1) r(1) by simp
  ultimately show ?case using balanced_trans by fastforce
qed simp

lemma owned_rotate: "owned ts (v # written @ out) \<longleftrightarrow> owned ts (written @ v # out)"
  by (rule owned_mset) simp

lemma owned_drop_None: "owned ts (replicate n None @ vars) \<longleftrightarrow> owned ts vars"
  by (induction n) (auto simp: owned_def)

lemma resolve_rows_result:
  assumes "resolve_rows tp others z rows written out ts = Some (r, out', ts')" and "owned ts (written @ out)"
    and "rows_rely tp others z rows written out ts" and "waits_out tp" and "length rows \<le> length out"
    and "\<forall>row. row < z_row_count (z_config z) \<longrightarrow> z_class_of z ! unat row < length ts"
    and "\<forall>c < length ts. c_max_batch_rows (config (ts ! c)) \<noteq> 0"
    and "list_all2 (row_done z ts) before written"
  shows "owned ts' out' \<and> map config ts' = map config ts \<and>
     (case r of
        Inl _ \<Rightarrow> (\<exists>k \<le> length rows. out' = replicate (length written + k) None @ drop k out)
      | Inr _ \<Rightarrow> drop (length written + length rows) out' = drop (length rows) out \<and>
          list_all2 (row_done z ts') (before @ rows) (take (length written + length rows) out'))"
  using assms
proof (induction rows arbitrary: written out ts before)
  case Nil
  then show ?case using list_all2_lengthD [OF Nil.prems(8)] by auto
next
  case (Cons row rows)
  then obtain v0 rest where o: "out = v0 # rest" by (cases out) auto
  let ?c = "z_class_of z ! unat row" and ?l = "ucast (z_local_of z ! unat row) :: u64"
  show ?case
  proof (cases "row < z_row_count (z_config z)")
    case False
    then have ge: "z_row_count (z_config z) \<le> row" by simp
    obtain ts1 where "reset_leases written ts = Some ts1" "owned ts1 out" "map config ts1 = map config ts"
      using reset_leases_owned [OF Cons.prems(2)] by blast
    moreover from this have "r = Inl Out_of_range" "out' = replicate (length written) None @ out" "ts' = ts1"
      using Cons.prems(1) ge by auto
    ultimately show ?thesis by (auto simp: owned_drop_None intro!: exI [of _ 0])
  next
    case True
    then have lt: "\<not> z_row_count (z_config z) \<le> row" by simp
    have c: "?c < length ts" using Cons.prems(6) True by blast
    have batch: "c_max_batch_rows (config (ts ! ?c)) \<noteq> 0" using Cons.prems(7) c by blast
    have own: "owned ts (v0 # written @ rest)" using Cons.prems(2) owned_rotate o by metis
    obtain r1 v ts1 where rc: "resolve_class tp (others (length written)) ?c ?l v0 ts = Some (r1, v, ts1)"
      using Cons.prems(1) lt o by (auto split: option.splits)
    have rely: "\<forall>ts1 l t1. reset_lease v0 ts = Some ts1 \<longrightarrow> admit_row tp ?l (ts1 ! ?c) = (Inr l, t1) \<longrightarrow>
        relies (l # leases_on ?c (written @ rest)) (l_slot l) (others (length written))"
      using Cons.prems(3) True o by auto
    have s: "owned ts1 (v # written @ rest) \<and> map config ts1 = map config ts \<and>
      (case r1 of Inl _ \<Rightarrow> v = None | Inr _ \<Rightarrow> \<exists>l. v = Some (?c, l) \<and> lease_done (ts1 ! ?c) ?l l) \<and>
      (\<forall>c' l row. Some (c', l) \<in> set (written @ rest) \<longrightarrow> lease_done (ts ! c') row l \<longrightarrow> lease_done (ts1 ! c') row l)"
      by (rule resolve_class_result [OF rc own c batch rely Cons.prems(4)])
    have own1: "owned ts1 (v # written @ rest)" and cfg1: "map config ts1 = map config ts" using s by blast+
    have len1: "length ts1 = length ts" using map_eq_imp_length_eq [OF cfg1] .
    show ?thesis
    proof (cases r1)
      case (Inl e)
      then have v: "v = None" using s by simp
      obtain ts2 where "reset_leases written ts1 = Some ts2" "owned ts2 (v # rest)" "map config ts2 = map config ts1"
        using reset_leases_owned [of ts1 written "v # rest"] own1 owned_rotate by metis
      moreover from this have "r = Inl e" "out' = replicate (length written) None @ v # rest" "ts' = ts2"
        using Cons.prems(1) lt o rc Inl by auto
      ultimately show ?thesis using v cfg1 owned_drop_None [of ts2 1 rest]
        by (auto simp: o owned_drop_None replicate_append_same intro!: exI [of _ 1])
    next
      case (Inr n)
      have run: "resolve_rows tp others z rows (written @ [v]) rest ts1 = Some (r, out', ts')"
        using Cons.prems(1) lt o rc Inr by simp
      have own2: "owned ts1 ((written @ [v]) @ rest)" using own1 owned_rotate by (metis append.assoc append_Cons append_Nil)
      have rely2: "rows_rely tp others z rows (written @ [v]) rest ts1" using Cons.prems(3) True o rc Inr by auto
      have cls: "\<forall>row. row < z_row_count (z_config z) \<longrightarrow> z_class_of z ! unat row < length ts1"
        using Cons.prems(6) len1 by simp
      have batch1: "\<forall>c < length ts1. c_max_batch_rows (config (ts1 ! c)) \<noteq> 0"
        using Cons.prems(7) cfg1 len1 by (metis nth_map)
      have "row_done z ts1 row v" using s Inr True by (auto simp: row_done_def)
      moreover have "row_done z ts1 a b" if "row_done z ts a b" "b \<in> set written" for a b
        using that s by (auto simp: row_done_def)
      then have "list_all2 (row_done z ts1) before written"
        using Cons.prems(8) by (auto simp: list_all2_conv_all_nth)
      ultimately have done1: "list_all2 (row_done z ts1) (before @ [row]) (written @ [v])"
        by (simp add: list_all2_appendI)
      note ih = Cons.IH [OF run own2 rely2 Cons.prems(4) _ cls batch1 done1]
      have "length rows \<le> length rest" using Cons.prems(5) o by simp
      note ih = ih [OF this]
      show ?thesis
      proof (cases r)
        case (Inl e)
        then obtain k where k: "k \<le> length rows" "out' = replicate (length (written @ [v]) + k) None @ drop k rest"
          using ih by auto
        then have "Suc k \<le> length (row # rows) \<and> out' = replicate (length written + Suc k) None @ drop (Suc k) out"
          by (simp add: o)
        then show ?thesis using ih cfg1 Inl by (auto simp del: replicate.simps)
      qed (use ih cfg1 o in auto)
    qed
  qed
qed

lemma resolve_rows_balanced:
  assumes "resolve_rows tp others z rows written out ts = Some (r, out', ts')" and "owned ts (written @ out)"
    and "rows_rely tp others z rows written out ts" and "waits_out tp" and "length rows \<le> length out"
    and "\<forall>row. row < z_row_count (z_config z) \<longrightarrow> z_class_of z ! unat row < length ts"
    and "\<forall>c < length ts. c_max_batch_rows (config (ts ! c)) \<noteq> 0" and "\<And>k. keeps_pins (others k)"
  shows "balanced ts (written @ out) ts' out'"
  using assms(1-7)
proof (induction rows arbitrary: written out ts)
  case (Cons row rows)
  then obtain v0 rest where o: "out = v0 # rest" by (cases out) auto
  let ?c = "z_class_of z ! unat row" and ?l = "ucast (z_local_of z ! unat row) :: u64"
  show ?case
  proof (cases "row < z_row_count (z_config z)")
    case False
    then have "z_row_count (z_config z) \<le> row" by simp
    then have "reset_leases written ts = Some ts'" "out' = replicate (length written) None @ out" using Cons.prems(1) by auto
    then show ?thesis using balanced_frame [OF reset_leases_balanced [OF Cons.prems(2)], of ts' "[]" out] by simp
  next
    case True
    then have lt: "\<not> z_row_count (z_config z) \<le> row" by simp
    have c: "?c < length ts" using Cons.prems(6) True by blast
    have batch: "c_max_batch_rows (config (ts ! ?c)) \<noteq> 0" using Cons.prems(7) c by blast
    have own: "owned ts (v0 # written @ rest)" using Cons.prems(2) owned_rotate o by metis
    obtain r1 v ts1 where rc: "resolve_class tp (others (length written)) ?c ?l v0 ts = Some (r1, v, ts1)"
      using Cons.prems(1) lt o by (auto split: option.splits)
    have rely: "\<forall>ts1 l t1. reset_lease v0 ts = Some ts1 \<longrightarrow> admit_row tp ?l (ts1 ! ?c) = (Inr l, t1) \<longrightarrow>
        relies (l # leases_on ?c (written @ rest)) (l_slot l) (others (length written))"
      using Cons.prems(3) True o by auto
    have s: "owned ts1 (v # written @ rest)" "map config ts1 = map config ts"
      using resolve_class_result [OF rc own c batch rely Cons.prems(4)] by blast+
    have "balanced ts [v0] ts1 [v]"
      by (rule resolve_class_balanced [OF rc own c batch rely Cons.prems(4) assms(8)])
    then have one: "balanced ts (written @ out) ts1 (written @ v # rest)"
      using balanced_frame [of ts "[v0]" ts1 "[v]" written rest] o by simp
    have own2: "owned ts1 (written @ v # rest)" using s(1) owned_rotate by metis
    have len1: "length ts1 = length ts" using map_eq_imp_length_eq [OF s(2)] .
    show ?thesis
    proof (cases r1)
      case (Inl e)
      then have "reset_leases written ts1 = Some ts'" "out' = replicate (length written) None @ v # rest"
        using Cons.prems(1) lt o rc by auto
      then have "balanced ts1 (written @ v # rest) ts' out'"
        using balanced_frame [OF reset_leases_balanced [OF own2], of ts' "[]" "v # rest"] by simp
      then show ?thesis by (rule balanced_trans [OF one])
    next
      case (Inr n)
      have "balanced ts1 ((written @ [v]) @ rest) ts' out'"
      proof (rule Cons.IH)
        show "resolve_rows tp others z rows (written @ [v]) rest ts1 = Some (r, out', ts')"
          using Cons.prems(1) lt o rc Inr by simp
        show "rows_rely tp others z rows (written @ [v]) rest ts1" using Cons.prems(3) True o rc Inr by auto
        show "\<forall>c < length ts1. c_max_batch_rows (config (ts1 ! c)) \<noteq> 0" using Cons.prems(7) s(2) len1 by (metis nth_map)
      qed (use own2 Cons.prems(4-6) o len1 in simp_all)
      then show ?thesis using balanced_trans [OF one] by simp
    qed
  qed
qed auto

text \<open>The loop returns when the fills that other threads finish settle.\<close>

lemma resolve_rows_returns:
  assumes "owned ts (written @ out)" and "\<And>k ls i. relies ls i (others k)" and "waits_out tp" and "\<And>k. waits_settle (others k)"
    and "length rows \<le> length out" and "\<forall>row. row < z_row_count (z_config z) \<longrightarrow> z_class_of z ! unat row < length ts"
    and "\<forall>c < length ts. c_max_batch_rows (config (ts ! c)) \<noteq> 0"
  shows "resolve_rows tp others z rows written out ts \<noteq> None"
  using assms(1,5-7)
proof (induction rows arbitrary: written out ts)
  case (Cons row rows)
  then obtain v0 rest where o: "out = v0 # rest" by (cases out) auto
  let ?c = "z_class_of z ! unat row" and ?l = "ucast (z_local_of z ! unat row) :: u64"
  show ?case
  proof (cases "row < z_row_count (z_config z)")
    case False
    then have "z_row_count (z_config z) \<le> row" by simp
    then show ?thesis using reset_leases_owned [OF Cons.prems(1)] by auto
  next
    case True
    then have lt: "\<not> z_row_count (z_config z) \<le> row" by simp
    have c: "?c < length ts" using Cons.prems(3) True by blast
    then have batch: "c_max_batch_rows (config (ts ! ?c)) \<noteq> 0" using Cons.prems(4) by blast
    have own: "owned ts (v0 # written @ rest)" using Cons.prems(1) owned_rotate o by metis
    obtain ts0 where ts0: "reset_lease v0 ts = Some ts0" "owned ts0 (written @ rest)" "length ts0 = length ts"
      using reset_lease_owned [OF own] by blast
    have "held_ok (ts0 ! ?c) (leases_in (take (length [?l]) [None]))" by (simp add: held_ok_def)
    moreover have "table_inv (ts0 ! ?c)" using ts0 c by (simp add: owned_def)
    moreover have "call_relies tp (\<lambda>_. others (length written)) [?l] [None] (ts0 ! ?c)" using assms(2) by (simp add: call_relies_def)
    ultimately have "resolve_into tp (\<lambda>_. others (length written)) [?l] [None] (ts0 ! ?c) \<noteq> None"
      using resolve_into_returns assms(3,4) by blast
    then obtain r1 v ts1 where rc: "resolve_class tp (others (length written)) ?c ?l v0 ts = Some (r1, v, ts1)"
      using resolve_class_eq [OF c batch, of tp "others (length written)" ?l v0] ts0(1) by auto
    have s: "owned ts1 (v # written @ rest)" "map config ts1 = map config ts"
      using resolve_class_result [OF rc own c batch _ assms(3)] assms(2) by blast+
    then have len1: "length ts1 = length ts" by (metis length_map)
    show ?thesis
    proof (cases r1)
      case (Inl e)
      have "owned ts1 (written @ v # rest)" using s(1) owned_rotate by metis
      then show ?thesis using reset_leases_owned [of ts1 written] lt o rc Inl by fastforce
    next
      case (Inr n)
      have own2: "owned ts1 ((written @ [v]) @ rest)" using s(1) owned_rotate by (metis append.assoc append_Cons append_Nil)
      have "\<forall>c < length ts1. c_max_batch_rows (config (ts1 ! c)) \<noteq> 0" using Cons.prems(4) s(2) len1 by (metis nth_map)
      then show ?thesis using Cons.IH [OF own2] Cons.prems(2,3) len1 lt o rc Inr by simp
    qed
  qed
qed simp

lemma created_routes:
  assumes "size_classed_create tp mems cfg = Some (Inr z)"
  shows "length (z_tables z) = length (z_classes z)"
    and "\<And>row. row < z_row_count cfg \<Longrightarrow> z_class_of z ! unat row < length (z_classes z) \<and>
           z_global_of z ! (z_class_of z ! unat row) ! unat (ucast (z_local_of z ! unat row) :: u64) = row"
    and "\<And>c. c < length (z_classes z) \<Longrightarrow> c_max_batch_rows (config (z_tables z ! c)) \<noteq> 0"
    and "\<And>c. c < length (z_classes z) \<Longrightarrow> table_inv (z_tables z ! c)"
proof -
  note ok = create_size_classed_ok [OF assms]
  show "length (z_tables z) = length (z_classes z)" using ok(1) by (simp add: size_classed_ok_def Let_def)
  have routed: "routed (map of_nat [0 ..< unat (z_row_count cfg)]) (z_class_of z) (z_local_of z) (z_global_of z)"
    and len: "length (z_global_of z) = length (z_classes z)" and batch: "z_max_batch_rows cfg \<noteq> 0"
    using ok by (simp_all add: size_classed_ok_def Let_def)
  fix row assume "row < z_row_count cfg"
  then have "unat row < unat (z_row_count cfg)" by (simp add: word_less_nat_alt)
  moreover have "unat (ucast (z_local_of z ! unat row) :: u64) = unat (z_local_of z ! unat row)"
    using unat_u32 [of "z_local_of z ! unat row"] by (simp add: unsigned_ucast_eq take_bit_nat_eq_self)
  ultimately show "z_class_of z ! unat row < length (z_classes z) \<and>
      z_global_of z ! (z_class_of z ! unat row) ! unat (ucast (z_local_of z ! unat row) :: u64) = row"
    using routed len by (auto simp: routed_def)
next
  fix c assume "c < length (z_classes z)"
  then have t: "create tp (class_config cfg (the (z_resolve_extent cfg)) (of_nat (slice_start (z_classes z) c)) (z_classes z ! c)
      (z_global_of z ! c)) (mems c) = Inr (z_tables z ! c)" and batch: "z_max_batch_rows cfg \<noteq> 0"
    using create_size_classed_ok(1,2) [OF assms] by (simp_all add: size_classed_ok_def Let_def)
  show "c_max_batch_rows (config (z_tables z ! c)) \<noteq> 0" "table_inv (z_tables z ! c)"
    using create_result(2,3) [OF t] batch by (simp_all add: class_config_def)
qed

text \<open>
  C40. \<open>resolve_into\<close> is all or nothing across the classes. For a table made by \<open>create\<close>, in any later state of its class
  tables, and a caller that owns the leases it passes in: on an error the caller holds no lease of the batch, the leading
  entries up to the row that failed are empty and the others untouched; on success entry \<open>q\<close> is a pinned lease in the class of
  \<open>rows[q]\<close>, on the local row that \<open>global_of\<close> leads back to \<open>rows[q]\<close>, Ready, with the span its slot publishes (a failure
  that calls itself \<open>ok\<close> is again the only exception). The caller owns the leases left in \<open>out\<close>, and no pin leaks in any class:
  when the other threads leave the pin counts alone, they change by exactly the leases that left and entered \<open>out\<close>.
\<close>

theorem size_classed_all_or_nothing:
  assumes "size_classed_create tp mems cfg = Some (Inr z0)" and "z = z0\<lparr>z_tables := ts\<rparr>"
    and "map config ts = map config (z_tables z0)" and "owned ts out" and "waits_out tp"
    and "rows_rely tp others z rows [] out ts"
    and "size_classed_resolve_into tp others rows out z = Some (r, out', z')"
  shows "owned (z_tables z') out' \<and> length out' = length out \<and>
     (case r of
        Inl _ \<Rightarrow> out' = out \<and> z' = z \<or> (\<exists>k \<le> length rows. out' = replicate k None @ drop k out)
      | Inr n \<Rightarrow> n = length rows \<and> drop n out' = drop n out \<and>
          (\<forall>q < n. \<exists>c l. out' ! q = Some (c, l) \<and> c = z_class_of z ! unat (rows ! q) \<and>
             z_global_of z ! c ! unat (l_row_index l) = rows ! q \<and> lease_ok (z_tables z' ! c) l \<and>
             (s_state (slots (z_tables z' ! c) ! l_slot l) = Ready \<and> l_bytes l = published_span (z_tables z' ! c) (l_slot l) \<or>
              s_state (slots (z_tables z' ! c) ! l_slot l) = Failed \<and> s_failure (slots (z_tables z' ! c) ! l_slot l) = Ok))) \<and>
     ((\<forall>k. keeps_pins (others k)) \<longrightarrow> balanced ts out (z_tables z') out')"
proof -
  note ok = create_size_classed_ok [OF assms(1)]
  have z: "z_config z = cfg" "z_class_of z = z_class_of z0" "z_local_of z = z_local_of z0" "z_global_of z = z_global_of z0"
    "z_tables z = ts" using assms(2) ok(2) by simp_all
  note r = created_routes [OF assms(1)]
  have len: "length ts = length (z_classes z0)" using assms(3) r(1) by (metis length_map)
  have cls: "\<forall>row. row < z_row_count (z_config z) \<longrightarrow> z_class_of z ! unat row < length ts"
    using r(2) len z by simp
  have batch: "\<forall>c < length ts. c_max_batch_rows (config (ts ! c)) \<noteq> 0"
    using r(1,3) len assms(3) by (metis nth_map)
  show ?thesis
  proof (cases "rows = [] \<or> length out < length rows")
    case True
    then have "out' = out" "z' = z" "\<exists>e. r = Inl e"
      using assms(7) by (auto simp: size_classed_resolve_into_def split: if_splits)
    then show ?thesis using assms(4) z(5) by auto
  next
    case False
    have enough: "length rows \<le> length out" using False by simp
    obtain r1 ts' where run: "resolve_rows tp others z rows [] out ts = Some (r1, out', ts')"
      and r': "r = map_sum id (\<lambda>_. length rows) r1" and z': "z' = z\<lparr>z_tables := ts'\<rparr>"
      using False assms(7) z(5) by (auto simp: size_classed_resolve_into_def)
    have bal: "(\<forall>k. keeps_pins (others k)) \<longrightarrow> balanced ts out ts' out'"
      using resolve_rows_balanced [OF run _ assms(6,5) enough cls batch] assms(4) by simp
    have res: "owned ts' out' \<and> (case r1 of
        Inl _ \<Rightarrow> (\<exists>k \<le> length rows. out' = replicate k None @ drop k out)
      | Inr _ \<Rightarrow> drop (length rows) out' = drop (length rows) out \<and> list_all2 (row_done z ts') rows (take (length rows) out'))"
      using resolve_rows_result [OF run _ assms(6,5) _ cls batch, of "[]"] assms(4) False
      by (auto split: sum.splits)
    show ?thesis
    proof (cases r1)
      case (Inl e)
      then obtain k where "k \<le> length rows" "out' = replicate k None @ drop k out" using res by auto
      then show ?thesis using res r' Inl z' False bal by auto
    next
      case (Inr u)
      have good: "list_all2 (row_done z ts') rows (take (length rows) out')" and tail: "drop (length rows) out' = drop (length rows) out"
        using res Inr by auto
      have lens: "length out' = length out"
        using list_all2_lengthD [OF good] arg_cong [OF tail, of length] False by simp linarith
      have "\<exists>c l. out' ! q = Some (c, l) \<and> c = z_class_of z ! unat (rows ! q) \<and>
          z_global_of z ! c ! unat (l_row_index l) = rows ! q \<and> lease_done (ts' ! c) (l_row_index l) l" if q: "q < length rows" for q
      proof -
        have d: "row_done z ts' (rows ! q) (out' ! q)" using list_all2_nthD [OF good q] q by simp
        then show ?thesis using r(2) [of "rows ! q"] z by (auto simp: row_done_def lease_done_def)
      qed
      then show ?thesis using res tail lens r' Inr z' bal by (auto simp: lease_done_def)
    qed
  qed
qed

theorem size_classed_all_or_nothing_witness:
  "\<exists>z r out' z'. size_classed_create ram_transport (\<lambda>_. sample_memory) sample_classed_config = Some (Inr z) \<and>
     size_classed_resolve_into ram_transport (\<lambda>_. finisher ram_transport) [1, 2] [None, None] z = Some (r, out', z') \<and>
     owned (z_tables z') out' \<and> length out' = 2"
proof -
  obtain z where z: "size_classed_create ram_transport (\<lambda>_. sample_memory) sample_classed_config = Some (Inr z)"
    using sample_classed_create by blast
  note ok = create_size_classed_ok [OF z] and r = created_routes [OF z]
  have own: "owned (z_tables z) [None, None]" using r(1,4) by (simp add: owned_def held_ok_def)
  have rely: "rows_rely tp (\<lambda>_. finisher tp) z rows written out ts" for tp :: "ram transport" and rows written out ts
    by (induction tp "\<lambda>_ :: nat. finisher tp" z rows written out ts rule: rows_rely.induct) (simp_all add: finisher_relies)
  have "resolve_rows ram_transport (\<lambda>_. finisher ram_transport) z [1, 2] [] [None, None] (z_tables z) \<noteq> None"
    by (rule resolve_rows_returns) (use own r ok(2) in \<open>simp_all add: finisher_relies finisher_settles sample_waits\<close>)
  then obtain res out' z' where run: "size_classed_resolve_into ram_transport (\<lambda>_. finisher ram_transport) [1, 2] [None, None] z = Some (res, out', z')"
    by (auto simp: size_classed_resolve_into_def)
  have "owned (z_tables z') out' \<and> length out' = length [None :: row_lease, None]"
    using size_classed_all_or_nothing [OF z _ _ own sample_waits rely run] by simp
  then show ?thesis using z run by auto
qed

end
