(* ===== verification/Checksum.thy ===== *)
theory Checksum
  imports Cache_Prelude
begin

text \<open>
  The FNV-1a hashes of checksum.hpp: the 32-bit one guards a cached chunk's payload, the 64-bit
  one keys sources and validators in file names. Each step is a bijection of the running hash,
  so two inputs of equal length that differ in one byte never collide.
\<close>

section \<open>Definitions\<close>

definition fnv1a32_step :: "u32 \<Rightarrow> u8 \<Rightarrow> u32" where
  "fnv1a32_step hash b = (hash XOR ucast b) * 0x01000193"

definition fnv1a32 :: "bytes \<Rightarrow> u32" where
  "fnv1a32 data = foldl fnv1a32_step 0x811c9dc5 data"

definition fnv1a64_step :: "u64 \<Rightarrow> u8 \<Rightarrow> u64" where
  "fnv1a64_step hash c = (hash XOR ucast c) * 0x100000001b3"

definition fnv1a64 :: "bytes \<Rightarrow> u64" where
  "fnv1a64 data = foldl fnv1a64_step 0xcbf29ce484222325 data"

section \<open>Each step is injective in the hash and in the byte\<close>

lemma mult_cancel_unit:
  fixes p q :: "'a::len word"
  assumes "p * q = 1"
  shows "x * p = y * p \<longleftrightarrow> x = y"
proof
  assume "x * p = y * p"
  then have "x * (p * q) = y * (p * q)" by (simp flip: mult.assoc)
  with assms show "x = y" by simp
qed simp

lemma xor_cancel: "(h XOR a = h XOR b) = (a = (b :: 'a::len word))"
  by (metis xor.left_commute xor_self_eq xor.right_neutral)

lemma ucast_eq_iff:
  assumes "LENGTH('a::len) \<le> LENGTH('b::len)"
  shows "(ucast (a :: 'a word) :: 'b word) = ucast b \<longleftrightarrow> a = b"
proof
  have up: "is_up (ucast :: 'a word \<Rightarrow> 'b word)" using assms by (simp add: is_up)
  assume "(ucast a :: 'b word) = ucast b"
  then have "(ucast (ucast a :: 'b word) :: 'a word) = ucast (ucast b :: 'b word)" by simp
  then show "a = b" by (simp add: ucast_up_ucast_id [OF up])
qed simp

lemma fnv1a32_step_inj:
  "fnv1a32_step h b = fnv1a32_step h' b \<longleftrightarrow> h = h'"
  "fnv1a32_step h b = fnv1a32_step h b' \<longleftrightarrow> b = b'"
proof -
  have unit: "(0x01000193 :: u32) * 0x359c449b = 1" by simp
  note cancel = mult_cancel_unit [OF unit]
  show "fnv1a32_step h b = fnv1a32_step h' b \<longleftrightarrow> h = h'"
    unfolding fnv1a32_step_def cancel by (metis xor.commute xor_cancel)
  show "fnv1a32_step h b = fnv1a32_step h b' \<longleftrightarrow> b = b'"
    unfolding fnv1a32_step_def cancel xor_cancel by (rule ucast_eq_iff) simp
qed

lemma fnv1a64_step_inj:
  "fnv1a64_step h b = fnv1a64_step h' b \<longleftrightarrow> h = h'"
  "fnv1a64_step h b = fnv1a64_step h b' \<longleftrightarrow> b = b'"
proof -
  have unit: "(0x100000001b3 :: u64) * 0xce965057aff6957b = 1" by simp
  note cancel = mult_cancel_unit [OF unit]
  show "fnv1a64_step h b = fnv1a64_step h' b \<longleftrightarrow> h = h'"
    unfolding fnv1a64_step_def cancel by (metis xor.commute xor_cancel)
  show "fnv1a64_step h b = fnv1a64_step h b' \<longleftrightarrow> b = b'"
    unfolding fnv1a64_step_def cancel xor_cancel by (rule ucast_eq_iff) simp
qed

text \<open>
  Both hashes are instances of one shape: a left fold of a step that is injective in each
  argument. A change of one byte is then visible in the result, whatever follows it.
\<close>

locale byte_hash =
  fixes step :: "'h \<Rightarrow> u8 \<Rightarrow> 'h" and start :: 'h
  assumes step_hash: "step h b = step h' b \<Longrightarrow> h = h'"
    and step_byte: "step h b = step h b' \<Longrightarrow> b = b'"
begin

lemma fold_inj: "foldl step h xs = foldl step h' xs \<Longrightarrow> h = h'"
  by (induction xs arbitrary: h h') (auto dest: step_hash)

lemma one_byte_change:
  assumes "i < length data" and "b \<noteq> data ! i"
  shows "foldl step start (data[i := b]) \<noteq> foldl step start data"
proof
  let ?h = "foldl step start (take i data)"
  assume "foldl step start (data[i := b]) = foldl step start data"
  moreover have "data[i := b] = take i data @ b # drop (Suc i) data"
    using assms(1) by (rule upd_conv_take_nth_drop)
  moreover have "data = take i data @ data ! i # drop (Suc i) data"
    using assms(1) by (rule id_take_nth_drop)
  ultimately have "foldl step (step ?h b) (drop (Suc i) data)
                 = foldl step (step ?h (data ! i)) (drop (Suc i) data)"
    by (metis foldl_Cons foldl_append)
  then have "step ?h b = step ?h (data ! i)" by (rule fold_inj)
  with assms(2) show False by (auto dest: step_byte)
qed

end

interpretation fnv32: byte_hash fnv1a32_step "0x811c9dc5"
  by unfold_locales (simp_all add: fnv1a32_step_inj)

interpretation fnv64: byte_hash fnv1a64_step "0xcbf29ce484222325"
  by unfold_locales (simp_all add: fnv1a64_step_inj)

end
