(* ===== verification/Transport.thy ===== *)
theory Transport
  imports Cache_Prelude Cache_Status
begin

text \<open>
  remote/transport.hpp: the identity of a remote source, a range request and its result, and the contract that a
  transport keeps. A transport is a function of the request and of the state \<open>'w\<close> of the outside world; it returns the
  result, the contents of the request's destination and the world afterwards.
\<close>

record source_validator =
  v_etag :: string
  v_last_modified :: string
  v_total_size :: u64

definition has_identity :: "source_validator \<Rightarrow> bool" where
  "has_identity v \<longleftrightarrow> v_etag v \<noteq> [] \<or> v_last_modified v \<noteq> []"

definition no_validator :: source_validator where
  "no_validator = \<lparr>v_etag = [], v_last_modified = [], v_total_size = 0\<rparr>"

record range_request =
  rq_offset :: u64
  rq_length :: u64
  rq_destination :: bytes
  rq_expected :: source_validator

record fetch_result =
  fr_status :: remote_status
  fr_bytes :: nat
  fr_observed :: source_validator
  fr_retries :: nat

type_synonym 'w fetch = "range_request \<Rightarrow> 'w \<Rightarrow> fetch_result \<times> bytes \<times> 'w"

text \<open>
  The contract of \<open>RangeTransportRef\<close>: a transport writes only inside the destination, and it never reports \<open>ok\<close> with
  another byte count than the length that was asked for.
\<close>

locale range_transport =
  fixes fetch :: "'w fetch"
  assumes fetch_inside: "fetch request w = (result, buf, w') \<Longrightarrow> length buf = length (rq_destination request)"
    and fetch_whole: "fetch request w = (result, buf, w') \<Longrightarrow> fr_status result = R_Ok \<Longrightarrow>
      fr_bytes result = unat (rq_length request) \<and> length (rq_destination request) = unat (rq_length request)"

text \<open>
  \<open>fetch_serves data v\<close>: for the validator \<open>v\<close>, a fetch that reports every byte delivered the range of the source's
  bytes \<open>data\<close>.
\<close>

definition fetch_serves :: "bytes \<Rightarrow> source_validator \<Rightarrow> 'w fetch \<Rightarrow> bool" where
  "fetch_serves data v fetch \<longleftrightarrow> (\<forall>request w result buf w'. fetch request w = (result, buf, w') \<longrightarrow>
     fr_status result = R_Ok \<longrightarrow> fr_bytes result = unat (rq_length request) \<longrightarrow> rq_expected request = v \<longrightarrow>
     length (rq_destination request) = unat (rq_length request) \<longrightarrow>
     unat (rq_offset request) + unat (rq_length request) \<le> length data \<longrightarrow>
     buf = slice data (unat (rq_offset request)) (unat (rq_length request)))"

lemma fetch_servesD:
  assumes "fetch_serves data v fetch" and "fetch request w = (result, buf, w')" and "fr_status result = R_Ok"
    and "fr_bytes result = unat (rq_length request)" and "rq_expected request = v"
    and "length (rq_destination request) = unat (rq_length request)"
    and "unat (rq_offset request) + unat (rq_length request) \<le> length data"
  shows "buf = slice data (unat (rq_offset request)) (unat (rq_length request))"
  using assms unfolding fetch_serves_def by blast

end
