(* ===== verification/Chunk_Store.thy ===== *)
theory Chunk_Store
  imports Checksum Codec Transport
begin

text \<open>
  remote/chunk_store.hpp: the on-disk mirror of fixed-size chunks.
  A cache directory is a map from file names to contents; what the file system may do to an operation
  (fail to open, to write, to rename) is a parameter. The chunk header is laid out byte for byte as the packed
  struct on a little-endian machine.
\<close>

section \<open>Identity\<close>

record source_identity =
  si_url :: string
  si_validator :: source_validator

definition str_bytes :: "string \<Rightarrow> bytes" where
  "str_bytes s = map of_char s"

definition canonical_validator :: "source_validator \<Rightarrow> string" where
  "canonical_validator v = ''E:'' @ v_etag v @ ''|L:'' @ v_last_modified v"

section \<open>File names\<close>

definition hex_digit :: "nat \<Rightarrow> char" where
  "hex_digit n = ''0123456789abcdef'' ! n"

text \<open>\<open>%016llx\<close>, \<open>std::to_string\<close> and \<open>%010u\<close>.\<close>

definition hex16 :: "u64 \<Rightarrow> string" where
  "hex16 w = map (\<lambda>i. hex_digit (unat (drop_bit (4 * (15 - i)) w AND 15))) [0..<16]"

fun to_string :: "nat \<Rightarrow> string" where
  "to_string n = (if n < 10 then [hex_digit n] else to_string (n div 10) @ [hex_digit (n mod 10)])"

declare to_string.simps [simp del]

definition dec10 :: "u32 \<Rightarrow> string" where
  "dec10 w = replicate (10 - length (to_string (unat w))) (hex_digit 0) @ to_string (unat w)"

definition chunk_file_name :: "source_identity \<Rightarrow> u32 \<Rightarrow> string" where
  "chunk_file_name source chunk_index =
     hex16 (fnv1a64 (str_bytes (si_url source))) @ ''_'' @
     hex16 (fnv1a64 (str_bytes (canonical_validator (si_validator source)))) @ ''_'' @
     dec10 chunk_index @ ''.stc1chunk''"

definition kTempPrefix :: string where "kTempPrefix = ''.stc1tmp-''"

section \<open>The chunk header\<close>

definition kChunkMagic :: u32 where "kChunkMagic = 0x31435453"
definition kChunkFormatVersion :: u32 where "kChunkFormatVersion = 1"

record chunk_header =
  h_magic :: u32
  h_format_version :: u32
  h_source_id_hash :: u64
  h_total_size :: u64
  h_chunk_index :: u32
  h_payload_length :: u32
  h_validator_length :: u32
  h_payload_checksum :: u32

definition bytes_of_u64 :: "u64 \<Rightarrow> bytes" where
  "bytes_of_u64 w = bytes_of_u32 (ucast w) @ bytes_of_u32 (ucast (drop_bit 32 w))"

definition u64_of_bytes :: "bytes \<Rightarrow> u64" where
  "u64_of_bytes bs = ucast (u32_of_bytes (take 4 bs)) OR push_bit 32 (ucast (u32_of_bytes (drop 4 bs)))"

definition header_size :: nat where "header_size = 40"

definition encode_header :: "chunk_header \<Rightarrow> bytes" where
  "encode_header h = bytes_of_u32 (h_magic h) @ bytes_of_u32 (h_format_version h) @
     bytes_of_u64 (h_source_id_hash h) @ bytes_of_u64 (h_total_size h) @ bytes_of_u32 (h_chunk_index h) @
     bytes_of_u32 (h_payload_length h) @ bytes_of_u32 (h_validator_length h) @ bytes_of_u32 (h_payload_checksum h)"

definition decode_header :: "bytes \<Rightarrow> chunk_header" where
  "decode_header bs = \<lparr>h_magic = u32_of_bytes (slice bs 0 4), h_format_version = u32_of_bytes (slice bs 4 4),
     h_source_id_hash = u64_of_bytes (slice bs 8 8), h_total_size = u64_of_bytes (slice bs 16 8),
     h_chunk_index = u32_of_bytes (slice bs 24 4), h_payload_length = u32_of_bytes (slice bs 28 4),
     h_validator_length = u32_of_bytes (slice bs 32 4), h_payload_checksum = u32_of_bytes (slice bs 36 4)\<rparr>"

section \<open>The store\<close>

type_synonym files = "string \<Rightarrow> bytes option"

record chunk_store =
  st_chunk_size :: u32
  st_valid :: bool
  st_files :: files
  st_temp_counter :: u64
  st_temp_nonce :: u64

text \<open>The constructor: \<open>created\<close> is whether the directory exists after \<open>create_directories\<close>.\<close>

definition cleanup_stale_temp_files :: "files \<Rightarrow> files" where
  "cleanup_stale_temp_files fs = (\<lambda>name. if take (length kTempPrefix) name = kTempPrefix then None else fs name)"

definition open_store :: "string \<Rightarrow> u32 \<Rightarrow> bool \<Rightarrow> u64 \<Rightarrow> files \<Rightarrow> chunk_store" where
  "open_store directory chunk_size created nonce fs =
     (let valid = (directory \<noteq> '''' \<and> chunk_size \<noteq> 0 \<and> created) in
      \<lparr>st_chunk_size = chunk_size, st_valid = valid,
       st_files = (if valid then cleanup_stale_temp_files fs else fs), st_temp_counter = 0, st_temp_nonce = nonce\<rparr>)"

text \<open>
  \<open>read_chunk\<close>: the status, the bytes reported and the contents of \<open>dest\<close> afterwards (a payload that
  fails its checksum has been read into \<open>dest\<close> by then).
\<close>

definition read_chunk :: "chunk_store \<Rightarrow> source_identity \<Rightarrow> u32 \<Rightarrow> bytes \<Rightarrow> remote_status \<times> nat \<times> bytes" where
  "read_chunk st source chunk_index dest =
     (case st_files st (chunk_file_name source chunk_index) of
        None \<Rightarrow> (R_Not_found, 0, dest)
      | Some file \<Rightarrow>
          if length file < header_size then (R_Corrupt, 0, dest)
          else
            let header = decode_header (take header_size file); rest = drop header_size file;
                payload_length = unat (h_payload_length header);
                validator_length = unat (h_validator_length header)
            in if h_magic header \<noteq> kChunkMagic \<or> h_format_version header \<noteq> kChunkFormatVersion
               then (R_Corrupt, 0, dest)
               else if h_source_id_hash header \<noteq> fnv1a64 (str_bytes (si_url source)) \<or>
                       h_total_size header \<noteq> v_total_size (si_validator source) \<or>
                       h_chunk_index header \<noteq> chunk_index
               then (R_Not_found, 0, dest)
               else if h_payload_length header > st_chunk_size st \<or> payload_length > length dest
               then (R_Corrupt, 0, dest)
               else if length rest < validator_length then (R_Corrupt, 0, dest)
               else if take validator_length rest \<noteq> str_bytes (canonical_validator (si_validator source))
               then (R_Not_found, 0, dest)
               else
                 let payload = take payload_length (drop validator_length rest);
                     dest = put_at dest 0 payload
                 in if length payload < payload_length then (R_Corrupt, 0, dest)
                    else if fnv1a32 payload \<noteq> h_payload_checksum header then (R_Corrupt, 0, dest)
                    else (R_Ok, payload_length, dest))"

datatype io_fault = No_fault | Open_fails | Write_fails | Rename_fails

definition chunk_header_of :: "source_identity \<Rightarrow> u32 \<Rightarrow> bytes \<Rightarrow> chunk_header" where
  "chunk_header_of source chunk_index payload =
     \<lparr>h_magic = kChunkMagic, h_format_version = kChunkFormatVersion,
      h_source_id_hash = fnv1a64 (str_bytes (si_url source)), h_total_size = v_total_size (si_validator source),
      h_chunk_index = chunk_index, h_payload_length = of_nat (length payload),
      h_validator_length = of_nat (length (canonical_validator (si_validator source))),
      h_payload_checksum = fnv1a32 payload\<rparr>"

definition chunk_file :: "source_identity \<Rightarrow> u32 \<Rightarrow> bytes \<Rightarrow> bytes" where
  "chunk_file source chunk_index payload =
     encode_header (chunk_header_of source chunk_index payload) @
     str_bytes (canonical_validator (si_validator source)) @ payload"

definition temp_name :: "chunk_store \<Rightarrow> string" where
  "temp_name st = kTempPrefix @ to_string (unat (st_temp_nonce st)) @ ''-'' @ to_string (unat (st_temp_counter st))"

definition publish_chunk :: "io_fault \<Rightarrow> chunk_store \<Rightarrow> source_identity \<Rightarrow> u32 \<Rightarrow> bytes \<Rightarrow> remote_status \<times> chunk_store" where
  "publish_chunk fault st source chunk_index payload =
     (if length payload > unat (st_chunk_size st) then (R_Invalid_argument, st)
      else
        let temp = temp_name st; final = chunk_file_name source chunk_index;
            st' = st\<lparr>st_temp_counter := st_temp_counter st + 1\<rparr>
        in case fault of
             Open_fails \<Rightarrow> (R_Publish_failed, st')
           | Write_fails \<Rightarrow> (R_Publish_failed, st'\<lparr>st_files := (st_files st)(temp := None)\<rparr>)
           | Rename_fails \<Rightarrow> (R_Publish_failed, st'\<lparr>st_files := (st_files st)(temp := None)\<rparr>)
           | No_fault \<Rightarrow> (R_Ok, st'\<lparr>st_files := (st_files st)(temp := None,
                                      final \<mapsto> chunk_file source chunk_index payload)\<rparr>))"

text \<open>The states of the directory while a publication runs: the temporary file grows, then it is renamed.\<close>

definition publish_states :: "chunk_store \<Rightarrow> source_identity \<Rightarrow> u32 \<Rightarrow> bytes \<Rightarrow> files list" where
  "publish_states st source chunk_index payload =
     (let temp = temp_name st; file = chunk_file source chunk_index payload in
      map (\<lambda>n. (st_files st)(temp \<mapsto> take n file)) [0 ..< length file + 1] @
      [(st_files st)(temp := None, chunk_file_name source chunk_index \<mapsto> file)])"

section \<open>Encoding\<close>

lemma u32_bytes [simp]: "u32_of_bytes (bytes_of_u32 w) = w"
proof (rule bit_word_eqI)
  fix n assume "n < LENGTH(32)"
  then consider "n < 8" | "8 \<le> n" "n < 16" | "16 \<le> n" "n < 24" | "24 \<le> n" "n < 32" by fastforce
  then show "bit (u32_of_bytes (bytes_of_u32 w)) n = bit w n"
    by cases (auto simp: u32_of_bytes_def bytes_of_u32_def bit_simps)
qed

lemma bytes_u32: "length bs = 4 \<Longrightarrow> bytes_of_u32 (u32_of_bytes bs) = bs"
proof -
  assume "length bs = 4"
  then obtain a b c d where bs: "bs = [a, b, c, d]" by (auto simp: numeral_eq_Suc length_Suc_conv)
  show ?thesis
    unfolding bs bytes_of_u32_def u32_of_bytes_def
    by (simp, intro conjI; rule bit_word_eqI) (auto simp: bit_simps dest: bit_imp_le_length)
qed

lemma length_bytes_of_u64 [simp]: "length (bytes_of_u64 w) = 8"
  by (simp add: bytes_of_u64_def)

lemma u64_bytes [simp]: "u64_of_bytes (bytes_of_u64 w) = w"
proof (rule bit_word_eqI)
  fix n assume "n < LENGTH(64)"
  then consider "n < 32" | "32 \<le> n" "n < 64" by fastforce
  then show "bit (u64_of_bytes (bytes_of_u64 w)) n = bit w n"
    by cases (auto simp: u64_of_bytes_def bytes_of_u64_def bit_simps)
qed

lemma u64_halves:
  "(ucast (u64_of_bytes bs) :: u32) = u32_of_bytes (take 4 bs)"
  "(ucast (drop_bit 32 (u64_of_bytes bs)) :: u32) = u32_of_bytes (drop 4 bs)"
  by (rule bit_word_eqI, auto simp: u64_of_bytes_def bit_simps dest: bit_imp_le_length)+

lemma bytes_u64: "length bs = 8 \<Longrightarrow> bytes_of_u64 (u64_of_bytes bs) = bs"
  unfolding bytes_of_u64_def u64_halves by (simp add: bytes_u32)

lemma length_encode_header [simp]: "length (encode_header h) = header_size"
  by (simp add: encode_header_def header_size_def)

lemma decode_encode: "decode_header (encode_header h) = h"
  by (simp add: decode_header_def encode_header_def slice_def)

lemma encode_decode:
  assumes "length bs = header_size"
  shows "encode_header (decode_header bs) = bs"
proof -
  have "slice bs 0 4 @ slice bs 4 4 @ slice bs 8 8 @ slice bs 16 8 @ slice bs 24 4 @ slice bs 28 4 @
      slice bs 32 4 @ slice bs 36 4 = bs"
    using slice_append [of bs 32 4 4, symmetric] slice_append [of bs 28 4 8, symmetric] slice_append [of bs 24 4 12, symmetric] slice_append [of bs 16 8 16, symmetric]
      slice_append [of bs 8 8 24, symmetric] slice_append [of bs 4 4 32, symmetric] slice_append [of bs 0 4 36, symmetric] assms
    by (simp add: slice_def [of bs 0 40] header_size_def)
  then show ?thesis
    using assms by (simp add: encode_header_def decode_header_def bytes_u32 bytes_u64 slice_def header_size_def)
qed

section \<open>Reading and publishing\<close>

lemma str_bytes_length [simp]: "length (str_bytes s) = length s"
  by (simp add: str_bytes_def)

lemma str_bytes_inj [simp]: "str_bytes s = str_bytes s' \<longleftrightarrow> s = s'"
proof -
  have "inj (of_char :: char \<Rightarrow> u8)"
  proof (rule injI)
    fix c d :: char assume "(of_char c :: u8) = of_char d"
    then have "(of_nat (of_char c) :: u8) = of_nat (of_char d)" by (simp only: of_nat_of_char)
    then have "(of_char c :: nat) mod 256 = of_char d mod 256" by (simp add: word_of_nat_eq_iff take_bit_eq_mod)
    then show "c = d" by simp
  qed
  then show ?thesis by (simp add: str_bytes_def inj_map_eq_map)
qed

text \<open>
  \<open>read_chunk\<close> succeeds exactly on an image that \<open>publish_chunk\<close> could have written for this source, validator,
  size and chunk index, followed by anything.
\<close>

lemma read_chunk_complete:
  assumes "st_files st (chunk_file_name source chunk_index) = Some (chunk_file source chunk_index payload @ rest)"
    and "length payload \<le> unat (st_chunk_size st)" and "length payload \<le> length dest"
    and "length (canonical_validator (si_validator source)) < 2 ^ 32"
  shows "read_chunk st source chunk_index dest = (R_Ok, length payload, put_at dest 0 payload)"
proof -
  let ?h = "chunk_header_of source chunk_index payload" and ?v = "canonical_validator (si_validator source)"
  have pl: "unat (of_nat (length payload) :: u32) = length payload"
    using unat_of_nat32 le_less_trans [OF assms(2) unat_u32] by blast
  have vl: "unat (of_nat (length ?v) :: u32) = length ?v" by (rule unat_of_nat32 [OF assms(4)])
  have "take header_size (chunk_file source chunk_index payload @ rest) = encode_header ?h"
    "drop header_size (chunk_file source chunk_index payload @ rest) = str_bytes ?v @ payload @ rest"
    by (simp_all add: chunk_file_def)
  moreover have "\<not> length (chunk_file source chunk_index payload @ rest) < header_size"
    by (simp add: chunk_file_def)
  moreover have "\<not> of_nat (length payload) > st_chunk_size st"
    using assms(2) pl by (simp add: word_less_nat_alt)
  ultimately show ?thesis
    using assms(1,3) pl vl
    by (simp add: read_chunk_def Let_def decode_encode chunk_header_of_def)
qed

lemma read_chunk_sound:
  assumes "read_chunk st source chunk_index dest = (R_Ok, n, dest')"
    and "length (canonical_validator (si_validator source)) < 2 ^ 32"
  obtains payload rest where
    "st_files st (chunk_file_name source chunk_index) = Some (chunk_file source chunk_index payload @ rest)"
    "n = length payload" "n \<le> unat (st_chunk_size st)" "n \<le> length dest" "dest' = put_at dest 0 payload"
proof -
  obtain img where found: "st_files st (chunk_file_name source chunk_index) = Some img"
    using assms(1) by (cases "st_files st (chunk_file_name source chunk_index)") (auto simp: read_chunk_def)
  define header where "header = decode_header (take header_size img)"
  define rest where "rest = drop header_size img"
  define v where "v = str_bytes (canonical_validator (si_validator source))"
  define payload where "payload = take (unat (h_payload_length header)) (drop (unat (h_validator_length header)) rest)"
  have len: "\<not> length img < header_size" and magic: "h_magic header = kChunkMagic" "h_format_version header = kChunkFormatVersion"
    and ident: "h_source_id_hash header = fnv1a64 (str_bytes (si_url source))"
      "h_total_size header = v_total_size (si_validator source)" "h_chunk_index header = chunk_index"
    and fits: "\<not> h_payload_length header > st_chunk_size st" "unat (h_payload_length header) \<le> length dest"
    and vlen: "\<not> length rest < unat (h_validator_length header)"
    and vld: "take (unat (h_validator_length header)) rest = v"
    and plen: "\<not> length payload < unat (h_payload_length header)" and sum: "fnv1a32 payload = h_payload_checksum header"
    and res: "n = unat (h_payload_length header)" "dest' = put_at dest 0 payload"
    using assms(1) found
    by (auto simp: read_chunk_def Let_def simp flip: header_def rest_def v_def payload_def split: if_splits)
  have enc: "take header_size img = encode_header header"
    using encode_decode [of "take header_size img"] len by (simp add: header_def)
  have pl: "length payload = unat (h_payload_length header)" using plen by (auto simp: payload_def)
  have "unat (h_validator_length header) = length (canonical_validator (si_validator source))"
    using arg_cong [OF vld, of length] vlen by (simp add: v_def)
  then have "h_validator_length header = of_nat (length (canonical_validator (si_validator source)))"
    by (simp flip: \<open>unat (h_validator_length header) = _\<close>)
  moreover have "h_payload_length header = of_nat (length payload)" by (simp add: pl)
  ultimately have "header = chunk_header_of source chunk_index payload"
    using magic ident sum by (cases header) (simp add: chunk_header_of_def)
  moreover have "img = encode_header header @ v @ payload @ drop (unat (h_payload_length header)) (drop (unat (h_validator_length header)) rest)"
    unfolding payload_def append_take_drop_id using enc vld by (metis append_take_drop_id rest_def)
  ultimately have "img = chunk_file source chunk_index payload @
      drop (unat (h_payload_length header)) (drop (unat (h_validator_length header)) rest)"
    by (simp add: chunk_file_def v_def)
  then show ?thesis
    using that found pl fits res by (simp add: word_less_nat_alt not_less)
qed

lemma hex_digit_not_dot: "n < 16 \<Longrightarrow> hex_digit n \<noteq> CHR ''.''"
proof -
  assume "n < 16"
  then have "hex_digit n \<in> set ''0123456789abcdef''" unfolding hex_digit_def by (intro nth_mem) simp
  then show ?thesis by auto
qed

lemma hd_hex16: "hd (hex16 w) \<noteq> CHR ''.''"
proof -
  have "hd (hex16 w) = hex_digit (unat (drop_bit 60 w AND 15))" by (simp add: hex16_def hd_map)
  moreover have "unat (drop_bit 60 w AND 15) < 16"
    using word_and_le1 [of "drop_bit 60 w" 15] by (simp add: word_le_nat_alt)
  ultimately show ?thesis using hex_digit_not_dot by simp
qed

lemma temp_not_chunk: "temp_name st \<noteq> chunk_file_name source chunk_index"
proof
  assume "temp_name st = chunk_file_name source chunk_index"
  moreover have "hd (chunk_file_name source chunk_index) = hd (hex16 (fnv1a64 (str_bytes (si_url source))))"
    by (simp add: chunk_file_name_def hd_append hex16_def)
  moreover have "hd (temp_name st) = CHR ''.''" by (simp add: temp_name_def kTempPrefix_def)
  ultimately show False using hd_hex16 by metis
qed

lemma publish_chunk_files:
  assumes "publish_chunk fault st source chunk_index payload = (R_Ok, st')"
  shows "st_files st' (chunk_file_name source chunk_index) = Some (chunk_file source chunk_index payload)"
    and "\<And>source2 index2. chunk_file_name source2 index2 \<noteq> chunk_file_name source chunk_index \<Longrightarrow>
       st_files st' (chunk_file_name source2 index2) = st_files st (chunk_file_name source2 index2)"
    and "st_chunk_size st' = st_chunk_size st" and "length payload \<le> unat (st_chunk_size st)"
  using assms temp_not_chunk [of st, symmetric]
  by (auto simp: publish_chunk_def Let_def split: if_splits io_fault.splits)

lemma read_chunk_cong:
  assumes "st_files st' (chunk_file_name source chunk_index) = st_files st (chunk_file_name source chunk_index)"
    and "st_chunk_size st' = st_chunk_size st"
  shows "read_chunk st' source chunk_index dest = read_chunk st source chunk_index dest"
  unfolding read_chunk_def assms ..

lemma chunk_file_eqD:
  assumes "chunk_file source chunk_index payload = chunk_file source2 index2 payload2 @ rest"
    and "length (canonical_validator (si_validator source)) < 2 ^ 32"
    and "length (canonical_validator (si_validator source2)) < 2 ^ 32"
  shows "fnv1a64 (str_bytes (si_url source)) = fnv1a64 (str_bytes (si_url source2))"
    and "v_total_size (si_validator source) = v_total_size (si_validator source2)" and "chunk_index = index2"
    and "canonical_validator (si_validator source) = canonical_validator (si_validator source2)"
proof -
  let ?v = "canonical_validator (si_validator source)" and ?v2 = "canonical_validator (si_validator source2)"
  have "encode_header (chunk_header_of source chunk_index payload) = encode_header (chunk_header_of source2 index2 payload2)"
    and tail: "str_bytes ?v @ payload = str_bytes ?v2 @ payload2 @ rest"
    using assms(1) by (simp_all add: chunk_file_def append_eq_append_conv)
  then have h: "chunk_header_of source chunk_index payload = chunk_header_of source2 index2 payload2"
    by (metis decode_encode)
  show "fnv1a64 (str_bytes (si_url source)) = fnv1a64 (str_bytes (si_url source2))"
    "v_total_size (si_validator source) = v_total_size (si_validator source2)" "chunk_index = index2"
    using h by (simp_all add: chunk_header_of_def)
  have "unat (of_nat (length ?v) :: u32) = unat (of_nat (length ?v2) :: u32)"
    using h by (simp add: chunk_header_of_def)
  then have "length ?v = length ?v2" using assms(2,3) by (simp add: unat_of_nat32)
  then show "?v = ?v2" using tail by (simp add: append_eq_append_conv)
qed

lemma publish_read_other:
  assumes "publish_chunk fault st source chunk_index payload = (R_Ok, st')"
    and "length (canonical_validator (si_validator source)) < 2 ^ 32"
    and "length (canonical_validator (si_validator source2)) < 2 ^ 32"
    and "fnv1a64 (str_bytes (si_url source2)) \<noteq> fnv1a64 (str_bytes (si_url source)) \<or>
         v_total_size (si_validator source2) \<noteq> v_total_size (si_validator source) \<or> index2 \<noteq> chunk_index \<or>
         canonical_validator (si_validator source2) \<noteq> canonical_validator (si_validator source)"
  shows "chunk_file_name source2 index2 \<noteq> chunk_file_name source chunk_index \<Longrightarrow>
       read_chunk st' source2 index2 dest = read_chunk st source2 index2 dest"
    and "chunk_file_name source2 index2 = chunk_file_name source chunk_index \<Longrightarrow>
       fst (read_chunk st' source2 index2 dest) \<noteq> R_Ok"
proof -
  note f = publish_chunk_files [OF assms(1)]
  show "read_chunk st' source2 index2 dest = read_chunk st source2 index2 dest"
    if "chunk_file_name source2 index2 \<noteq> chunk_file_name source chunk_index"
    by (rule read_chunk_cong) (use f that in simp_all)
  assume same: "chunk_file_name source2 index2 = chunk_file_name source chunk_index"
  show "fst (read_chunk st' source2 index2 dest) \<noteq> R_Ok"
  proof
    assume "fst (read_chunk st' source2 index2 dest) = R_Ok"
    then obtain n dest' where "read_chunk st' source2 index2 dest = (R_Ok, n, dest')" by (metis prod.collapse)
    then obtain payload2 rest where "st_files st' (chunk_file_name source2 index2) = Some (chunk_file source2 index2 payload2 @ rest)"
      by (rule read_chunk_sound [OF _ assms(3)])
    then have "chunk_file source chunk_index payload = chunk_file source2 index2 payload2 @ rest" using f(1) same by simp
    from chunk_file_eqD [OF this assms(2,3)] assms(4) show False by auto
  qed
qed

lemma publish_read_same:
  assumes "publish_chunk fault st source chunk_index payload = (R_Ok, st')" and "length payload \<le> length dest"
    and "length (canonical_validator (si_validator source)) < 2 ^ 32"
  shows "read_chunk st' source chunk_index dest = (R_Ok, length payload, put_at dest 0 payload)"
  using read_chunk_complete [of st' source chunk_index payload "[]" dest] publish_chunk_files [OF assms(1)] assms(2,3) by simp

section \<open>What the store guarantees\<close>

definition sample_identity :: "string \<Rightarrow> source_identity" where
  "sample_identity etag = \<lparr>si_url = ''http://h/w'', si_validator = \<lparr>v_etag = etag, v_last_modified = [], v_total_size = 6\<rparr>\<rparr>"

definition sample_store :: chunk_store where
  "sample_store = open_store ''d'' 4 True 0 (\<lambda>_. None)"

lemma sample_store_simps: "st_chunk_size sample_store = 4" "st_files sample_store = (\<lambda>_. None)"
  by (simp_all add: sample_store_def open_store_def cleanup_stale_temp_files_def fun_eq_iff)

lemma sample_published: "\<exists>st'. publish_chunk No_fault sample_store source 0 [1, 2, 3] = (R_Ok, st')"
  by (simp add: publish_chunk_def sample_store_simps Let_def)

text \<open>
  C24. A published chunk is read back byte for byte: after \<open>publish_chunk\<close> reports \<open>ok\<close>, \<open>read_chunk\<close> for the same
  source and index returns the payload, its length and \<open>ok\<close> into any buffer that is large enough.
\<close>

theorem publish_read_roundtrip:
  assumes "publish_chunk fault st source chunk_index payload = (R_Ok, st')" and "length payload \<le> length dest"
    and "length (canonical_validator (si_validator source)) < 2 ^ 32"
  shows "read_chunk st' source chunk_index dest = (R_Ok, length payload, put_at dest 0 payload)"
  by (rule publish_read_same [OF assms])

theorem publish_read_roundtrip_witness:
  "read_chunk (snd (publish_chunk No_fault sample_store (sample_identity ''x'') 0 [1, 2, 3]))
     (sample_identity ''x'') 0 [0, 0, 0, 0] = (R_Ok, 3, [1, 2, 3, 0])"
proof -
  obtain st' where run: "publish_chunk No_fault sample_store (sample_identity ''x'') 0 [1, 2, 3] = (R_Ok, st')"
    using sample_published by blast
  have "length (canonical_validator (si_validator (sample_identity ''x''))) < 2 ^ 32"
    by (simp add: sample_identity_def canonical_validator_def)
  with publish_read_roundtrip [OF run, of "[0, 0, 0, 0]"] run show ?thesis by (simp add: put_at_def)
qed



text \<open>
  C26. Corruption of a payload is detected: if any one byte of the payload of a published file is changed, \<open>read_chunk\<close>
  reports \<open>corrupt\<close> and no bytes.
\<close>

theorem payload_corruption_detected:
  assumes "st_files st (chunk_file_name source chunk_index) =
       Some (encode_header (chunk_header_of source chunk_index payload) @
             str_bytes (canonical_validator (si_validator source)) @ payload[i := b])"
    and "i < length payload" and "b \<noteq> payload ! i"
    and "length payload \<le> unat (st_chunk_size st)" and "length payload \<le> length dest"
    and "length (canonical_validator (si_validator source)) < 2 ^ 32"
  shows "fst (read_chunk st source chunk_index dest) = R_Corrupt \<and> fst (snd (read_chunk st source chunk_index dest)) = 0"
proof -
  let ?h = "chunk_header_of source chunk_index payload" and ?v = "canonical_validator (si_validator source)"
  have pl: "unat (of_nat (length payload) :: u32) = length payload"
    using unat_of_nat32 le_less_trans [OF assms(4) unat_u32] by blast
  have vl: "unat (of_nat (length ?v) :: u32) = length ?v" by (rule unat_of_nat32 [OF assms(6)])
  have "\<not> of_nat (length payload) > st_chunk_size st" using assms(4) pl by (simp add: word_less_nat_alt)
  moreover have "fnv1a32 (payload[i := b]) \<noteq> fnv1a32 payload"
    unfolding fnv1a32_def by (rule fnv32.one_byte_change [OF assms(2,3)])
  ultimately show ?thesis
    using assms(1,5) pl vl by (simp add: read_chunk_def Let_def decode_encode chunk_header_of_def)
qed

definition damaged_store :: chunk_store where
  "damaged_store = sample_store\<lparr>st_files := (\<lambda>_. Some (encode_header (chunk_header_of (sample_identity ''x'') 0 [1, 2, 3]) @
     str_bytes (canonical_validator (si_validator (sample_identity ''x''))) @ [1, 7, 3]))\<rparr>"

theorem payload_corruption_detected_witness:
  "fst (read_chunk damaged_store (sample_identity ''x'') 0 [0, 0, 0, 0]) = R_Corrupt"
  using payload_corruption_detected [of damaged_store "sample_identity ''x''" 0 "[1, 2, 3]" 1 7 "[0, 0, 0, 0]"]
  by (simp add: damaged_store_def sample_store_simps sample_identity_def canonical_validator_def)

text \<open>
  C27. Publication is atomic. In every state the directory passes through while a chunk is written, and so after a crash at any
  point, the final name holds what it held before or the complete new image, and every other chunk file is untouched. A
  publication that fails leaves every chunk file as it was.
\<close>

theorem publish_atomic:
  "(\<forall>fs \<in> set (publish_states st source chunk_index payload).
      fs (chunk_file_name source chunk_index) \<in>
        {st_files st (chunk_file_name source chunk_index), Some (chunk_file source chunk_index payload)} \<and>
      (\<forall>source2 index2. chunk_file_name source2 index2 \<noteq> chunk_file_name source chunk_index \<longrightarrow>
         fs (chunk_file_name source2 index2) = st_files st (chunk_file_name source2 index2))) \<and>
   (fst (publish_chunk fault st source chunk_index payload) \<noteq> R_Ok \<longrightarrow>
      (\<forall>source2 index2. st_files (snd (publish_chunk fault st source chunk_index payload)) (chunk_file_name source2 index2) =
         st_files st (chunk_file_name source2 index2)))"
proof (intro conjI)
  show "\<forall>fs \<in> set (publish_states st source chunk_index payload).
      fs (chunk_file_name source chunk_index) \<in>
        {st_files st (chunk_file_name source chunk_index), Some (chunk_file source chunk_index payload)} \<and>
      (\<forall>source2 index2. chunk_file_name source2 index2 \<noteq> chunk_file_name source chunk_index \<longrightarrow>
         fs (chunk_file_name source2 index2) = st_files st (chunk_file_name source2 index2))"
    using temp_not_chunk [of st, symmetric] by (auto simp: publish_states_def Let_def)
  show "fst (publish_chunk fault st source chunk_index payload) \<noteq> R_Ok \<longrightarrow>
      (\<forall>source2 index2. st_files (snd (publish_chunk fault st source chunk_index payload)) (chunk_file_name source2 index2) =
         st_files st (chunk_file_name source2 index2))"
    using temp_not_chunk [of st, symmetric] by (auto simp: publish_chunk_def Let_def split: io_fault.splits)
qed

theorem publish_atomic_witness:
  "st_files (snd (publish_chunk Rename_fails sample_store (sample_identity ''x'') 0 [1]))
     (chunk_file_name (sample_identity ''x'') 0) = None"
proof -
  have "fst (publish_chunk Rename_fails sample_store (sample_identity ''x'') 0 [1]) \<noteq> R_Ok"
    by (simp add: publish_chunk_def sample_store_simps Let_def)
  with publish_atomic [of sample_store "sample_identity ''x''" 0 "[1]" Rename_fails]
  show ?thesis by (simp add: sample_store_simps)
qed

text \<open>
  The canonical form of a validator is not injective: two different validators, one with a strong ETag that contains the
  separator, have the same canonical string and therefore the same file name and the same chunk files.
\<close>

theorem canonical_validator_collides:
  "\<exists>v1 v2 :: source_validator. v1 \<noteq> v2 \<and> canonical_validator v1 = canonical_validator v2 \<and>
     (\<forall>url chunk_index. chunk_file_name \<lparr>si_url = url, si_validator = v1\<rparr> chunk_index =
        chunk_file_name \<lparr>si_url = url, si_validator = v2\<rparr> chunk_index)"
proof (intro exI conjI)
  let ?v1 = "\<lparr>v_etag = ''a|L:b'', v_last_modified = ''c'', v_total_size = 0\<rparr>"
  let ?v2 = "\<lparr>v_etag = ''a'', v_last_modified = ''b|L:c'', v_total_size = 0\<rparr>"
  show "?v1 \<noteq> ?v2" by simp
  show eq: "canonical_validator ?v1 = canonical_validator ?v2" by (simp add: canonical_validator_def)
  show "\<forall>url chunk_index. chunk_file_name \<lparr>si_url = url, si_validator = ?v1\<rparr> chunk_index =
      chunk_file_name \<lparr>si_url = url, si_validator = ?v2\<rparr> chunk_index"
    using eq by (simp add: chunk_file_name_def)
qed

end
