(* ===== verification/Http_Parse.thy ===== *)
theory Http_Parse
  imports Chunk_Store
begin

text \<open>
  The parsers of remote/http_client.hpp: the URL, the response head and the \<open>Content-Range\<close> value. A
  \<open>std::string_view\<close> is a string; \<open>npos\<close> is \<open>None\<close>.
\<close>

section \<open>Searching\<close>

text \<open>\<open>find(char)\<close>, \<open>rfind(char)\<close> and \<open>find(string)\<close> of \<open>std::string_view\<close>.\<close>

fun find_char :: "char \<Rightarrow> string \<Rightarrow> nat option" where
  "find_char c [] = None"
| "find_char c (x # xs) = (if x = c then Some 0 else map_option Suc (find_char c xs))"

definition rfind_char :: "char \<Rightarrow> string \<Rightarrow> nat option" where
  "rfind_char c s = map_option (\<lambda>i. length s - 1 - i) (find_char c (rev s))"

fun find_sub :: "string \<Rightarrow> string \<Rightarrow> nat option" where
  "find_sub pat [] = (if pat = [] then Some 0 else None)"
| "find_sub pat (x # xs) =
     (if take (length pat) (x # xs) = pat then Some 0 else map_option Suc (find_sub pat xs))"

section \<open>URLs\<close>

record parsed_url =
  u_host :: string
  u_port :: string
  u_path :: string
  u_valid :: bool

definition http_prefix :: string where "http_prefix = ''http://''"

definition parse_http_url :: "string \<Rightarrow> parsed_url" where
  "parse_http_url url =
     (let result = \<lparr>u_host = [], u_port = ''80'', u_path = ''/'', u_valid = False\<rparr> in
      if take (length http_prefix) url \<noteq> http_prefix then result
      else
        let rest = drop (length http_prefix) url;
            authority = (case find_char (CHR ''/'') rest of None \<Rightarrow> rest | Some path_pos \<Rightarrow> take path_pos rest)
        in if authority = [] then result
           else
             let result = result\<lparr>u_path :=
                   (case find_char (CHR ''/'') rest of None \<Rightarrow> ''/'' | Some path_pos \<Rightarrow> drop path_pos rest)\<rparr>;
                 result = (if u_path result = [] then result\<lparr>u_path := ''/''\<rparr> else result)
             in case rfind_char (CHR '':'') authority of
                  Some colon_pos \<Rightarrow>
                    (let result = result\<lparr>u_host := take colon_pos authority,
                                         u_port := drop (colon_pos + 1) authority\<rparr>
                     in if u_port result = [] then result
                        else if u_host result = [] then result
                        else result\<lparr>u_valid := True\<rparr>)
                | None \<Rightarrow>
                    (let result = result\<lparr>u_host := authority\<rparr>
                     in if u_host result = [] then result else result\<lparr>u_valid := True\<rparr>))"

section \<open>Numbers\<close>

text \<open>
  \<open>std::from_chars\<close> in base ten: the longest run of digits (after a minus sign when the type is signed); \<open>None\<close> when
  there is no digit or the value does not fit. What follows the digits is ignored.
\<close>

definition is_digit :: "char \<Rightarrow> bool" where
  "is_digit c \<longleftrightarrow> (48 :: nat) \<le> of_char c \<and> of_char c \<le> (57 :: nat)"

definition digit_value :: "char \<Rightarrow> nat" where
  "digit_value c = of_char c - 48"

definition digits_value :: "string \<Rightarrow> nat" where
  "digits_value ds = foldl (\<lambda>n c. 10 * n + digit_value c) 0 ds"

definition from_chars_u64 :: "string \<Rightarrow> u64 option" where
  "from_chars_u64 s =
     (let ds = takeWhile is_digit s in
      if ds = [] \<or> digits_value ds \<ge> 2 ^ 64 then None else Some (of_nat (digits_value ds)))"

definition from_chars_signed :: "nat \<Rightarrow> string \<Rightarrow> int option" where
  "from_chars_signed bits s =
     (let minus = (take 1 s = ''-'');
          ds = takeWhile is_digit (if minus then drop 1 s else s);
          v = (if minus then - int (digits_value ds) else int (digits_value ds))
      in if ds = [] \<or> v < - (2 ^ (bits - 1)) \<or> v \<ge> 2 ^ (bits - 1) then None else Some v)"

section \<open>The response head\<close>

text \<open>\<open>std::tolower\<close> in the C locale.\<close>

definition tolower :: "char \<Rightarrow> char" where
  "tolower c = (if (65 :: nat) \<le> of_char c \<and> of_char c \<le> (90 :: nat) then char_of (of_char c + 32 :: nat) else c)"

definition header_name_is :: "string \<Rightarrow> string \<Rightarrow> bool" where
  "header_name_is line_name name \<longleftrightarrow>
     length line_name = length name \<and> list_all2 (\<lambda>a b. tolower a = tolower b) line_name name"

definition CR :: char where "CR = CHR 0x0D"
definition LF :: char where "LF = CHR 0x0A"
definition TAB :: char where "TAB = CHR 0x09"

definition trim :: "string \<Rightarrow> string" where
  "trim s =
     (let s = dropWhile (\<lambda>c. c = CHR '' '' \<or> c = TAB) s
      in rev (dropWhile (\<lambda>c. c = CHR '' '' \<or> c = TAB \<or> c = CR) (rev s)))"

record parsed_headers =
  ph_status_code :: int
  ph_content_range :: string
  ph_etag :: string
  ph_last_modified :: string
  ph_transfer_encoding :: string
  ph_content_length :: int
  ph_has_content_length :: bool

definition no_headers :: parsed_headers where
  "no_headers = \<lparr>ph_status_code = 0, ph_content_range = [], ph_etag = [], ph_last_modified = [],
     ph_transfer_encoding = [], ph_content_length = -1, ph_has_content_length = False\<rparr>"

lemma find_sub_bound: "find_sub pat s = Some i \<Longrightarrow> i + length pat \<le> length s"
proof (induction pat s arbitrary: i rule: find_sub.induct)
  case (2 pat x xs)
  then show ?case
    by (auto split: if_splits) (metis length_Cons length_take min.cobounded1)
qed (auto split: if_splits)

text \<open>The lines of the head: the loop splits at every \<open>CR LF\<close>, the text after the last one is a line too.\<close>

function split_lines :: "string \<Rightarrow> string list" where
  "split_lines head =
     (case find_sub [CR, LF] head of
        None \<Rightarrow> [head]
      | Some line_end \<Rightarrow> take line_end head # split_lines (drop (line_end + 2) head))"
  by pat_completeness auto

termination
proof (relation "measure length")
  fix head line_end assume "find_sub [CR, LF] head = Some line_end"
  then show "(drop (line_end + 2) head, head) \<in> measure length" using find_sub_bound by fastforce
qed simp

declare split_lines.simps [simp del]

definition parse_status_line :: "string \<Rightarrow> parsed_headers \<Rightarrow> parsed_headers" where
  "parse_status_line line out =
     (case find_char (CHR '' '') line of
        None \<Rightarrow> out
      | Some sp1 \<Rightarrow>
          let rest = drop (sp1 + 1) line;
              code = (case find_char (CHR '' '') rest of None \<Rightarrow> rest | Some sp2 \<Rightarrow> take sp2 rest)
          in out\<lparr>ph_status_code := (case from_chars_signed 32 code of None \<Rightarrow> 0 | Some v \<Rightarrow> v)\<rparr>)"

definition parse_header_line :: "string \<Rightarrow> parsed_headers \<Rightarrow> parsed_headers" where
  "parse_header_line line out =
     (if line = [] then out
      else case find_char (CHR '':'') line of
        None \<Rightarrow> out
      | Some colon \<Rightarrow>
          let name = take colon line; val = trim (drop (colon + 1) line) in
          if header_name_is name ''Content-Range'' then out\<lparr>ph_content_range := val\<rparr>
          else if header_name_is name ''ETag'' then out\<lparr>ph_etag := val\<rparr>
          else if header_name_is name ''Last-Modified'' then out\<lparr>ph_last_modified := val\<rparr>
          else if header_name_is name ''Transfer-Encoding'' then out\<lparr>ph_transfer_encoding := val\<rparr>
          else if header_name_is name ''Content-Length''
          then (case from_chars_signed 64 val of
                  None \<Rightarrow> out
                | Some len \<Rightarrow> out\<lparr>ph_content_length := len, ph_has_content_length := True\<rparr>)
          else out)"

definition head_end :: string where "head_end = [CR, LF, CR, LF]"

text \<open>\<open>text\<close> holds a complete head; the result is the offset of the body.\<close>

definition parse_response_head :: "string \<Rightarrow> nat \<times> parsed_headers" where
  "parse_response_head text =
     (let header_end = (case find_sub head_end text of None \<Rightarrow> length text | Some p \<Rightarrow> p);
          ls = split_lines (take header_end text)
      in (header_end + 4,
          fold parse_header_line (tl ls) (parse_status_line (hd ls) no_headers)))"

section \<open>Content-Range\<close>

definition parse_content_range :: "string \<Rightarrow> (u64 \<times> u64 \<times> u64) option" where
  "parse_content_range val =
     (if take 6 val \<noteq> ''bytes '' then None
      else
        let rest = drop 6 val in
        case (find_char (CHR ''-'') rest, find_char (CHR ''/'') rest) of
          (Some dash, Some slash) \<Rightarrow>
            (if slash < dash then None
             else
               let start_sv = take dash rest;
                   end_sv = take (slash - dash - 1) (drop (dash + 1) rest);
                   total_sv = drop (slash + 1) rest
               in case (from_chars_u64 start_sv, from_chars_u64 end_sv, from_chars_u64 total_sv) of
                    (Some a, Some b, Some t) \<Rightarrow> Some (a, b, t)
                  | _ \<Rightarrow> None)
        | _ \<Rightarrow> None)"

section \<open>Round trips\<close>

lemma find_char_append: "c \<notin> set s \<Longrightarrow> find_char c (s @ c # rest) = Some (length s)"
  by (induction s) auto

lemma find_char_None: "find_char c s = None \<longleftrightarrow> c \<notin> set s"
  by (induction s) auto

lemma rfind_char_append: "c \<notin> set rest \<Longrightarrow> rfind_char c (s @ c # rest) = Some (length s)"
  using find_char_append [of c "rev rest" "rev s"] by (simp add: rfind_char_def)

lemma hex_digit_digit:
  assumes "n < 10"
  shows "is_digit (hex_digit n)" and "digit_value (hex_digit n) = n"
proof -
  have "n \<in> {0, 1, 2, 3, 4, 5, 6, 7, 8, 9}" using assms by auto
  then show "is_digit (hex_digit n)" "digit_value (hex_digit n) = n"
    by (auto simp: is_digit_def digit_value_def hex_digit_def)
qed

lemma to_string_digits: "\<forall>c \<in> set (to_string n). is_digit c"
proof (induction n rule: to_string.induct)
  case (1 n)
  then show ?case by (subst to_string.simps) (auto simp: hex_digit_digit)
qed

lemma to_string_nonempty [simp]: "to_string n \<noteq> []"
  by (subst to_string.simps) simp

lemma digits_value_snoc: "digits_value (ds @ [c]) = 10 * digits_value ds + digit_value c"
  by (simp add: digits_value_def)

lemma digits_value_to_string: "digits_value (to_string n) = n"
proof (induction n rule: to_string.induct)
  case (1 n)
  show ?case
  proof (cases "n < 10")
    case True
    then show ?thesis by (subst to_string.simps) (simp add: digits_value_def hex_digit_digit)
  next
    case False
    then show ?thesis using 1 by (subst to_string.simps) (simp add: digits_value_snoc hex_digit_digit)
  qed
qed

lemma takeWhile_digits: "\<not> is_digit c \<Longrightarrow> takeWhile is_digit (to_string n @ c # rest) = to_string n"
  using to_string_digits [of n] by (simp add: takeWhile_append2)

lemma takeWhile_all_digits: "takeWhile is_digit (to_string n) = to_string n"
  using to_string_digits [of n] by simp

lemma from_chars_to_string: "from_chars_u64 (to_string (unat w)) = Some w"
  using unat_u64 [of w] by (simp add: from_chars_u64_def takeWhile_all_digits digits_value_to_string)

lemma to_string_no_sep: "\<not> is_digit c \<Longrightarrow> c \<notin> set (to_string n)"
  using to_string_digits by blast

definition print_content_range :: "u64 \<Rightarrow> u64 \<Rightarrow> u64 \<Rightarrow> string" where
  "print_content_range a b t =
     ''bytes '' @ to_string (unat a) @ ''-'' @ to_string (unat b) @ ''/'' @ to_string (unat t)"

text \<open>
  The \<open>Content-Range\<close> a server prints in the standard form, for any 64-bit bounds, is parsed back to the same numbers.
\<close>

theorem content_range_roundtrip: "parse_content_range (print_content_range a b t) = Some (a, b, t)"
proof -
  let ?rest = "to_string (unat a) @ CHR ''-'' # to_string (unat b) @ CHR ''/'' # to_string (unat t)"
  have sep: "\<not> is_digit CHR ''-''" "\<not> is_digit CHR ''/''" by (simp_all add: is_digit_def)
  have dash: "find_char CHR ''-'' ?rest = Some (length (to_string (unat a)))"
    by (rule find_char_append) (rule to_string_no_sep [OF sep(1)])
  have slash: "find_char CHR ''/'' ?rest = Some (length (to_string (unat a)) + 1 + length (to_string (unat b)))"
    using find_char_append [of "CHR ''/''" "to_string (unat a) @ CHR ''-'' # to_string (unat b)" "to_string (unat t)"]
      to_string_no_sep [OF sep(2)] by simp
  show ?thesis
    using dash slash by (simp add: parse_content_range_def print_content_range_def from_chars_to_string)
qed

text \<open>
  A URL with a host, a port and a path is taken apart into them; without a port, port 80 is used, and without a path,
  \<open>/\<close>. Host and port hold no slash, the host is not empty, the port holds no colon and is not empty.
\<close>

lemma parse_http_url_roundtrip:
  assumes "host \<noteq> []" and "CHR ''/'' \<notin> set host" and "port \<noteq> []" and "CHR ''/'' \<notin> set port" and "CHR '':'' \<notin> set port"
  shows "parse_http_url (''http://'' @ host @ '':'' @ port @ ''/'' @ path) =
       \<lparr>u_host = host, u_port = port, u_path = ''/'' @ path, u_valid = True\<rparr> \<and>
     parse_http_url (''http://'' @ host @ '':'' @ port) =
       \<lparr>u_host = host, u_port = port, u_path = ''/'', u_valid = True\<rparr> \<and>
     (CHR '':'' \<notin> set host \<longrightarrow>
        parse_http_url (''http://'' @ host @ ''/'' @ path) =
          \<lparr>u_host = host, u_port = ''80'', u_path = ''/'' @ path, u_valid = True\<rparr>)"
proof (intro conjI impI)
  let ?auth = "host @ CHR '':'' # port"
  have colon: "rfind_char CHR '':'' ?auth = Some (length host)" by (rule rfind_char_append [OF assms(5)])
  have "find_char CHR ''/'' (?auth @ CHR ''/'' # path) = Some (length ?auth)"
    by (rule find_char_append) (use assms in auto)
  then show "parse_http_url (''http://'' @ host @ '':'' @ port @ ''/'' @ path) =
       \<lparr>u_host = host, u_port = port, u_path = ''/'' @ path, u_valid = True\<rparr>"
    using colon assms by (simp add: parse_http_url_def http_prefix_def Let_def)
  have "find_char CHR ''/'' ?auth = None" using assms by (simp add: find_char_None)
  then show "parse_http_url (''http://'' @ host @ '':'' @ port) =
       \<lparr>u_host = host, u_port = port, u_path = ''/'', u_valid = True\<rparr>"
    using colon assms by (simp add: parse_http_url_def http_prefix_def Let_def)
  assume "CHR '':'' \<notin> set host"
  then have "rfind_char CHR '':'' host = None" by (simp add: rfind_char_def find_char_None)
  then show "parse_http_url (''http://'' @ host @ ''/'' @ path) =
          \<lparr>u_host = host, u_port = ''80'', u_path = ''/'' @ path, u_valid = True\<rparr>"
    using find_char_append [OF assms(2), of path] assms by (simp add: parse_http_url_def http_prefix_def Let_def)
qed

end
