(* ===== verification/Mirror.thy ===== *)
theory Mirror
  imports Chunk_Store
begin

text \<open>
  remote/mirror.hpp: a byte-range read over the chunk store, with a remote transport behind it. The transport
  (\<open>RangeTransportRef\<close>) and the file system's faults are parameters. Other threads act on the mirror between a local
  miss and the registration as fetcher, while a fetch runs and before the chunk is read back (\<open>pause\<close>), and while this
  thread waits for another one's fetch (\<open>join\<close>, which also gives the status that fetch ended with). Byte counts are naturals; they stay below the source's
  64-bit total size, which \<open>read\<close> checks first, and the two casts to 32 bits are written out.
\<close>

section \<open>State\<close>

record mirror_stats =
  ms_hits :: nat
  ms_misses :: nat
  ms_fetches :: nat
  ms_bytes_fetched :: nat
  ms_retries :: nat
  ms_validator_mismatches :: nat
  ms_corrupt_entries_skipped :: nat
  ms_publish_failures :: nat
  ms_coalesced :: nat

record 'w mirror =
  mi_source :: source_identity
  mi_store :: chunk_store
  mi_inflight :: "u32 set"
  mi_stats :: mirror_stats
  mi_world :: 'w

record 'w mirror_env =
  me_fetch :: "'w fetch"
  me_fault :: "'w \<Rightarrow> io_fault"
  me_pause :: "'w mirror \<Rightarrow> 'w mirror"
  me_join :: "u32 \<Rightarrow> 'w mirror \<Rightarrow> remote_status \<times> 'w mirror"

definition record_hit :: "'w mirror \<Rightarrow> 'w mirror" where
  "record_hit m = m\<lparr>mi_stats := (mi_stats m)\<lparr>ms_hits := ms_hits (mi_stats m) + 1\<rparr>\<rparr>"

definition record_miss :: "'w mirror \<Rightarrow> 'w mirror" where
  "record_miss m = m\<lparr>mi_stats := (mi_stats m)\<lparr>ms_misses := ms_misses (mi_stats m) + 1\<rparr>\<rparr>"

definition record_corrupt :: "'w mirror \<Rightarrow> 'w mirror" where
  "record_corrupt m = m\<lparr>mi_stats := (mi_stats m)\<lparr>ms_misses := ms_misses (mi_stats m) + 1,
     ms_corrupt_entries_skipped := ms_corrupt_entries_skipped (mi_stats m) + 1\<rparr>\<rparr>"

definition record_coalesced :: "'w mirror \<Rightarrow> 'w mirror" where
  "record_coalesced m = m\<lparr>mi_stats := (mi_stats m)\<lparr>ms_coalesced := ms_coalesced (mi_stats m) + 1\<rparr>\<rparr>"

section \<open>Operations\<close>

definition mirror_valid :: "'w mirror \<Rightarrow> bool" where
  "mirror_valid m \<longleftrightarrow> st_valid (mi_store m) \<and> st_chunk_size (mi_store m) > 0 \<and>
     v_total_size (si_validator (mi_source m)) div ucast (st_chunk_size (mi_store m)) < 0xFFFFFFFF"

abbreviation chunk_size_of :: "'w mirror \<Rightarrow> nat" where
  "chunk_size_of m \<equiv> unat (st_chunk_size (mi_store m))"

abbreviation total_of :: "'w mirror \<Rightarrow> nat" where
  "total_of m \<equiv> unat (v_total_size (si_validator (mi_source m)))"

definition count_fetch :: "fetch_result \<Rightarrow> mirror_stats \<Rightarrow> mirror_stats" where
  "count_fetch result s =
     (let s = s\<lparr>ms_fetches := ms_fetches s + 1, ms_retries := ms_retries s + fr_retries result\<rparr> in
      if fr_status result = R_Ok then s\<lparr>ms_bytes_fetched := ms_bytes_fetched s + fr_bytes result\<rparr>
      else if fr_status result = R_Source_changed
      then s\<lparr>ms_validator_mismatches := ms_validator_mismatches s + 1\<rparr>
      else s)"

definition fetch_and_publish :: "'w mirror_env \<Rightarrow> u32 \<Rightarrow> nat \<Rightarrow> 'w mirror \<Rightarrow> remote_status \<times> 'w mirror" where
  "fetch_and_publish env chunk_index chunk_len m =
     (let request = \<lparr>rq_offset = of_nat (unat chunk_index * chunk_size_of m), rq_length = of_nat chunk_len,
                     rq_destination = replicate chunk_len 0, rq_expected = si_validator (mi_source m)\<rparr>
      in case me_fetch env request (mi_world m) of
           (result, fetch_buffer, w) \<Rightarrow>
             let m = me_pause env (m\<lparr>mi_world := w, mi_stats := count_fetch result (mi_stats m)\<rparr>) in
             if fr_status result \<noteq> R_Ok then (fr_status result, m)
             else if fr_bytes result \<noteq> chunk_len then (R_Truncated, m)
             else case publish_chunk (me_fault env (mi_world m)) (mi_store m) (mi_source m) chunk_index fetch_buffer of
                    (publish_status, st) \<Rightarrow>
                      let m = m\<lparr>mi_store := st\<rparr> in
                      (publish_status,
                       if publish_status \<noteq> R_Ok
                       then m\<lparr>mi_stats := (mi_stats m)\<lparr>ms_publish_failures := ms_publish_failures (mi_stats m) + 1\<rparr>\<rparr>
                       else m))"

text \<open>The tail of \<open>ensure_chunk_local\<close>: read back what was published.\<close>

definition read_back :: "u32 \<Rightarrow> bytes \<Rightarrow> 'w mirror \<Rightarrow> remote_status \<times> bytes \<times> 'w mirror" where
  "read_back chunk_index buffer m =
     (case read_chunk (mi_store m) (mi_source m) chunk_index buffer of
        (status, _, buffer) \<Rightarrow>
          (if status \<noteq> R_Ok then (if status = R_Corrupt then R_Corrupt else R_Not_found) else R_Ok, buffer, m))"

definition ensure_chunk_local :: "'w mirror_env \<Rightarrow> u32 \<Rightarrow> nat \<Rightarrow> bytes \<Rightarrow> 'w mirror \<Rightarrow>
    remote_status \<times> bytes \<times> 'w mirror" where
  "ensure_chunk_local env chunk_index chunk_len buffer m =
     (case read_chunk (mi_store m) (mi_source m) chunk_index buffer of
        (status, _, buffer) \<Rightarrow>
          if status = R_Ok then (R_Ok, buffer, record_hit m)
          else
            let m = me_pause env (if status = R_Corrupt then record_corrupt m else record_miss m) in
            if chunk_index \<in> mi_inflight m then
              (case me_join env chunk_index (record_coalesced m) of
                 (status, m) \<Rightarrow> if status \<noteq> R_Ok then (status, buffer, m) else read_back chunk_index buffer m)
            else
              let m = m\<lparr>mi_inflight := insert chunk_index (mi_inflight m)\<rparr> in
              case read_chunk (mi_store m) (mi_source m) chunk_index buffer of
                (again, _, buffer) \<Rightarrow>
                  case (if again = R_Ok then (R_Ok, m) else fetch_and_publish env chunk_index chunk_len m) of
                    (status, m) \<Rightarrow>
                      let m = me_pause env (m\<lparr>mi_inflight := mi_inflight m - {chunk_index}\<rparr>) in
                      if status \<noteq> R_Ok then (status, buffer, m) else read_back chunk_index buffer m)"

text \<open>The loop of \<open>read\<close> over the chunks that the range touches: one iteration, then the loop.\<close>

definition read_step :: "'w mirror_env \<Rightarrow> nat \<Rightarrow> nat \<Rightarrow> nat \<Rightarrow> bytes \<times> nat \<times> bytes \<times> 'w mirror \<Rightarrow>
    remote_status \<times> bytes \<times> nat \<times> bytes \<times> 'w mirror" where
  "read_step env offset len chunk_index = (\<lambda>(chunk_buffer, written, dest, m).
     (let chunk_start = chunk_index * chunk_size_of m;
          chunk_len = min (chunk_size_of m) (total_of m - chunk_start)
      in case ensure_chunk_local env (of_nat chunk_index) chunk_len chunk_buffer m of
           (status, chunk_buffer, m) \<Rightarrow>
             if status \<noteq> R_Ok then (status, chunk_buffer, written, dest, m)
             else
               let range_start = max offset chunk_start;
                   range_end = min (offset + len) (chunk_start + chunk_len)
               in if range_end > range_start
                  then let copy_len = range_end - range_start; src_off = range_start - chunk_start;
                           dst_off = range_start - offset
                       in (R_Ok, chunk_buffer, written + copy_len,
                           put_at dest dst_off (slice chunk_buffer src_off copy_len), m)
                  else (R_Ok, chunk_buffer, written, dest, m)))"

primrec read_loop :: "'w mirror_env \<Rightarrow> nat \<Rightarrow> nat \<Rightarrow> nat list \<Rightarrow> bytes \<times> nat \<times> bytes \<times> 'w mirror \<Rightarrow>
    remote_status \<times> bytes \<times> nat \<times> bytes \<times> 'w mirror" where
  "read_loop env offset len [] s = (R_Ok, s)"
| "read_loop env offset len (chunk_index # rest) s =
     (case read_step env offset len chunk_index s of
        (status, s) \<Rightarrow> if status \<noteq> R_Ok then (status, s) else read_loop env offset len rest s)"

definition mirror_read :: "'w mirror_env \<Rightarrow> u64 \<Rightarrow> u64 \<Rightarrow> bytes \<Rightarrow> 'w mirror \<Rightarrow>
    remote_status \<times> nat \<times> bytes \<times> 'w mirror" where
  "mirror_read env offset len dest m =
     (if \<not> mirror_valid m \<or> length dest < unat len then (R_Invalid_argument, 0, dest, m)
      else if len = 0 then (R_Invalid_argument, 0, dest, m)
      else if unat offset > total_of m \<or> unat len > total_of m - unat offset then (R_Out_of_range, 0, dest, m)
      else
        let first_chunk = unat (of_nat (unat offset div chunk_size_of m) :: u32);
            last_chunk = unat (of_nat ((unat offset + unat len - 1) div chunk_size_of m) :: u32)
        in case read_loop env (unat offset) (unat len) [first_chunk ..< Suc last_chunk]
                  (replicate (chunk_size_of m) 0, 0, dest, m) of
             (status, chunk_buffer, written, dest, m) \<Rightarrow> (status, written, dest, m))"

section \<open>The store serves the source\<close>

text \<open>
  \<open>serves data src cs m\<close>: the mirror is for \<open>src\<close> with chunk size \<open>cs\<close>, and whatever its store hands out as a valid chunk
  of \<open>src\<close> is the source's own range. \<open>keeps\<close>: the transport and the other threads of the mirror leave it so.
\<close>

definition chunk_len_of :: "bytes \<Rightarrow> nat \<Rightarrow> nat \<Rightarrow> nat" where
  "chunk_len_of data cs i = min cs (length data - i * cs)"

definition chunk_data :: "bytes \<Rightarrow> nat \<Rightarrow> nat \<Rightarrow> bytes" where
  "chunk_data data cs i = slice data (i * cs) (chunk_len_of data cs i)"

definition serves :: "bytes \<Rightarrow> source_identity \<Rightarrow> u32 \<Rightarrow> 'w mirror \<Rightarrow> bool" where
  "serves data src cs m \<longleftrightarrow> mi_source m = src \<and> st_chunk_size (mi_store m) = cs \<and>
     (\<forall>i dest n dest'. unat i * unat cs < length data \<longrightarrow> read_chunk (mi_store m) src i dest = (R_Ok, n, dest') \<longrightarrow>
        dest' = put_at dest 0 (chunk_data data (unat cs) (unat i)))"

definition keeps :: "bytes \<Rightarrow> source_identity \<Rightarrow> u32 \<Rightarrow> 'w mirror_env \<Rightarrow> bool" where
  "keeps data src cs env \<longleftrightarrow> fetch_serves data (si_validator src) (me_fetch env) \<and>
     (\<forall>m. serves data src cs m \<longrightarrow> serves data src cs (me_pause env m)) \<and>
     (\<forall>m i. serves data src cs m \<longrightarrow> serves data src cs (snd (me_join env i m)))"

lemma length_chunk_data [simp]: "length (chunk_data data cs i) = chunk_len_of data cs i"
  by (simp add: chunk_data_def chunk_len_of_def)

lemma chunk_len_le: "chunk_len_of data cs i \<le> cs"
  by (simp add: chunk_len_of_def)

lemma read_chunk_length: "length (snd (snd (read_chunk st source chunk_index dest))) = length dest"
  by (auto simp: read_chunk_def Let_def split: option.splits)

lemma read_chunk_status:
  "length dest = length dest' \<Longrightarrow> fst (read_chunk st source i dest) = fst (read_chunk st source i dest')"
  by (auto simp: read_chunk_def Let_def split: option.splits)

lemma servesD:
  assumes "serves data src cs m"
  shows "mi_source m = src" and "st_chunk_size (mi_store m) = cs"
    and "read_chunk (mi_store m) src i dest = (R_Ok, n, dest') \<Longrightarrow> unat i * unat cs < length data \<Longrightarrow>
       dest' = put_at dest 0 (chunk_data data (unat cs) (unat i))"
  using assms by (auto simp: serves_def)

lemma serves_cong:
  assumes "serves data src cs m" and "mi_source m' = mi_source m" and "mi_store m' = mi_store m"
  shows "serves data src cs m'"
  using assms by (simp add: serves_def)

lemma serves_records [simp]:
  "serves data src cs (record_hit m) = serves data src cs m"
  "serves data src cs (record_miss m) = serves data src cs m"
  "serves data src cs (record_corrupt m) = serves data src cs m"
  "serves data src cs (record_coalesced m) = serves data src cs m"
  "serves data src cs (m\<lparr>mi_inflight := fl\<rparr>) = serves data src cs m"
  "serves data src cs (m\<lparr>mi_stats := st\<rparr>) = serves data src cs m"
  "serves data src cs (m\<lparr>mi_world := w\<rparr>) = serves data src cs m"
  by (simp_all add: serves_def record_hit_def record_miss_def record_corrupt_def record_coalesced_def)

lemma chunk_file_lengthD:
  assumes "chunk_file source i p = chunk_file source i q @ rest" and "length p < 2 ^ 32" and "length q < 2 ^ 32"
  shows "length p = length q"
proof -
  have "encode_header (chunk_header_of source i p) = encode_header (chunk_header_of source i q)"
    using arg_cong [OF assms(1), of "take header_size"] by (simp add: chunk_file_def)
  then have "(of_nat (length p) :: u32) = of_nat (length q)" by (metis decode_encode chunk_header_of_def chunk_header.ext_inject)
  then show ?thesis using assms(2,3) unat_of_nat32 by metis
qed

lemma serves_publish:
  assumes sv: "serves data src cs m" and run: "publish_chunk fault (mi_store m) src i payload = (status, st)"
    and payload: "payload = chunk_data data (unat cs) (unat i)"
    and vlen: "length (canonical_validator (si_validator src)) < 2 ^ 32"
  shows "serves data src cs (m\<lparr>mi_store := st\<rparr>)"
proof -
  have size: "st_chunk_size st = cs"
    using run sv by (auto simp: publish_chunk_def Let_def serves_def split: if_splits io_fault.splits)
  have "dest' = put_at dest 0 (chunk_data data (unat cs) (unat j))"
    if j: "unat j * unat cs < length data" and rd: "read_chunk st src j dest = (R_Ok, n, dest')" for j dest n dest'
  proof (cases "status = R_Ok \<and> j = i")
    case True
    then have ok: "publish_chunk fault (mi_store m) src i payload = (R_Ok, st)" using run by simp
    obtain p rest where found: "st_files st (chunk_file_name src j) = Some (chunk_file src j p @ rest)"
        "n = length p" "n \<le> unat (st_chunk_size st)" "n \<le> length dest"
      using read_chunk_sound [OF rd vlen] by blast
    have "length payload \<le> length dest"
      using found True publish_chunk_files(1,4) [OF ok] chunk_file_lengthD [of src j payload p rest]
        unat_u32 [of cs] size servesD(2) [OF sv] by auto
    then show ?thesis using publish_read_same [OF ok _ vlen] rd True payload by simp
  next
    case False
    have "st_files st (chunk_file_name src j) = st_files (mi_store m) (chunk_file_name src j) \<or>
        status = R_Ok \<and> j \<noteq> i"
      using False run temp_not_chunk [of "mi_store m", symmetric]
      by (auto simp: publish_chunk_def Let_def split: if_splits io_fault.splits)
    then have "read_chunk (mi_store m) src j dest = (R_Ok, n, dest')"
    proof
      assume "st_files st (chunk_file_name src j) = st_files (mi_store m) (chunk_file_name src j)"
      then show ?thesis using read_chunk_cong rd size servesD(2) [OF sv] by metis
    next
      assume other: "status = R_Ok \<and> j \<noteq> i"
      then have ok: "publish_chunk fault (mi_store m) src i payload = (R_Ok, st)" using run by simp
      show ?thesis using publish_read_other [OF ok vlen vlen, of j dest] rd other by (metis fst_conv)
    qed
    then show ?thesis using servesD(3) [OF sv] j by blast
  qed
  with size servesD(1) [OF sv] show ?thesis by (simp add: serves_def)
qed

section \<open>Reading\<close>

lemma fetch_and_publish_result:
  assumes run: "fetch_and_publish env i chunk_len m = (status, m')"
    and sv: "serves data src cs m" and env: "keeps data src cs env"
    and len: "chunk_len = chunk_len_of data (unat cs) (unat i)"
    and i: "unat i * unat cs < length data" and total: "length data < 2 ^ 64"
    and vlen: "length (canonical_validator (si_validator src)) < 2 ^ 32"
  shows "serves data src cs m'"
proof -
  let ?request = "\<lparr>rq_offset = of_nat (unat i * unat cs), rq_length = of_nat chunk_len,
    rq_destination = replicate chunk_len 0, rq_expected = si_validator src\<rparr>"
  have small: "unat i * unat cs + chunk_len \<le> length data" using len i by (auto simp: chunk_len_of_def)
  then have w: "unat (of_nat (unat i * unat cs) :: u64) = unat i * unat cs" "unat (of_nat chunk_len :: u64) = chunk_len"
    using total unat_of_nat64 by (meson add_leD1 add_leD2 le_less_trans)+
  obtain result buf w where fetch: "me_fetch env ?request (mi_world m) = (result, buf, w)" by (metis prod_cases3)
  let ?m = "me_pause env (m\<lparr>mi_world := w, mi_stats := count_fetch result (mi_stats m)\<rparr>)"
  have sv': "serves data src cs ?m" using env sv by (simp add: keeps_def)
  obtain ps st where pub: "publish_chunk (me_fault env (mi_world ?m)) (mi_store ?m) src i buf = (ps, st)" by fastforce
  show ?thesis
  proof (cases "fr_status result = R_Ok \<and> fr_bytes result = chunk_len")
    case True
    then have "buf = chunk_data data (unat cs) (unat i)"
      using env fetch_servesD [where fetch = "me_fetch env" and request = ?request and data = data
          and v = "si_validator src", OF _ fetch] len small w
      by (simp add: keeps_def chunk_data_def)
    from serves_publish [OF sv' pub this vlen] show ?thesis
      using run fetch pub True servesD(1,2) [OF sv] servesD(1) [OF sv']
      by (auto simp: fetch_and_publish_def Let_def split: if_splits)
  next
    case False
    then show ?thesis
      using run fetch sv' servesD(1,2) [OF sv] by (auto simp: fetch_and_publish_def Let_def split: if_splits)
  qed
qed

lemma read_back_result:
  assumes run: "read_back i buffer m = (status, buffer', m')" and sv: "serves data src cs m"
    and i: "unat i * unat cs < length data"
  shows "m' = m" and "length buffer' = length buffer"
    and "status = R_Ok \<Longrightarrow> buffer' = put_at buffer 0 (chunk_data data (unat cs) (unat i))"
  using run servesD(1) [OF sv] read_chunk_length [of "mi_store m" "mi_source m" i buffer] servesD(3) [OF sv _ i]
  by (auto simp: read_back_def split: prod.splits if_splits)

lemma ensure_chunk_local_result:
  assumes run: "ensure_chunk_local env i chunk_len buffer m = (status, buffer', m')"
    and sv: "serves data src cs m" and env: "keeps data src cs env"
    and len: "chunk_len = chunk_len_of data (unat cs) (unat i)" and i: "unat i * unat cs < length data"
    and buf: "length buffer = unat cs" and total: "length data < 2 ^ 64"
    and vlen: "length (canonical_validator (si_validator src)) < 2 ^ 32"
  shows "serves data src cs m'" and "length buffer' = unat cs"
    and "status = R_Ok \<Longrightarrow> take chunk_len buffer' = chunk_data data (unat cs) (unat i)"
proof -
  have got: "take chunk_len (put_at b 0 (chunk_data data (unat cs) (unat i))) = chunk_data data (unat cs) (unat i)" for b
    by (simp add: put_at_def len)
  have "serves data src cs m' \<and> length buffer' = unat cs \<and>
    (status = R_Ok \<longrightarrow> take chunk_len buffer' = chunk_data data (unat cs) (unat i))"
  proof -
    obtain s1 n1 b1 where r1: "read_chunk (mi_store m) src i buffer = (s1, n1, b1)" by (metis prod_cases3)
    have b1: "length b1 = unat cs" using read_chunk_length [of "mi_store m" src i buffer] r1 buf by simp
    define m1 where "m1 = me_pause env (if s1 = R_Corrupt then record_corrupt m else record_miss m)"
    have sv1: "serves data src cs m1" using env sv by (simp add: m1_def keeps_def)
    have rest: ?thesis if "serves data src cs m2" "length b = unat cs"
      "(status, buffer', m') = (if s \<noteq> R_Ok then (s, b, m2) else read_back i b m2)" for s b m2
      using that read_back_result [OF _ that(1) i, of b status buffer' m'] got by (auto split: if_splits)
    show ?thesis
    proof (cases "s1 = R_Ok")
      case True
      then show ?thesis using run r1 servesD(1) [OF sv] servesD(3) [OF sv _ i] sv got b1
        by (auto simp: ensure_chunk_local_def)
    next
      case miss: False
      show ?thesis
      proof (cases "i \<in> mi_inflight m1")
        case True
        obtain s2 m2 where join: "me_join env i (record_coalesced m1) = (s2, m2)" by fastforce
        then have "serves data src cs m2" using env sv1 unfolding keeps_def by (metis serves_records(4) snd_conv)
        then show ?thesis
          by (rule rest [OF _ b1, of _ s2])
            (use run r1 miss True join servesD(1) [OF sv] in \<open>simp add: ensure_chunk_local_def m1_def Let_def\<close>)
      next
        case False
        define m2 where "m2 = m1\<lparr>mi_inflight := insert i (mi_inflight m1)\<rparr>"
        have sv2: "serves data src cs m2" using sv1 by (simp add: m2_def)
        obtain s2 n2 b2 where r2: "read_chunk (mi_store m2) src i b1 = (s2, n2, b2)" by (metis prod_cases3)
        have b2: "length b2 = unat cs" using read_chunk_length [of "mi_store m2" src i b1] r2 b1 by simp
        obtain s3 m3 where f: "(if s2 = R_Ok then (R_Ok, m2) else fetch_and_publish env i chunk_len m2) = (s3, m3)"
          by fastforce
        have "serves data src cs m3"
          using f fetch_and_publish_result [OF _ sv2 env len i total vlen] sv2 by (auto split: if_splits)
        then have "serves data src cs (me_pause env (m3\<lparr>mi_inflight := mi_inflight m3 - {i}\<rparr>))"
          using env by (simp add: keeps_def)
        then show ?thesis
          by (rule rest [OF _ b2, of _ s3])
            (use run r1 miss False r2 f servesD(1) [OF sv] servesD(1) [OF sv2] in
              \<open>simp add: ensure_chunk_local_def Let_def flip: m1_def m2_def\<close>)
      qed
    qed
  qed
  then show "serves data src cs m'" and "length buffer' = unat cs"
    and "status = R_Ok \<Longrightarrow> take chunk_len buffer' = chunk_data data (unat cs) (unat i)" by blast+
qed

lemma slice_take: "off + len \<le> n \<Longrightarrow> slice (take n xs) off len = slice xs off len"
  by (simp add: slice_def drop_take min_absorb1)

lemma slice_slice: "o2 + len \<le> n \<Longrightarrow> slice (slice xs off n) o2 len = slice xs (off + o2) len"
  by (simp add: slice_def drop_take min_absorb1 add.commute)

lemma take_put_at: "off + length ys \<le> length xs \<Longrightarrow> take (off + length ys) (put_at xs off ys) = take off xs @ ys"
  by (simp add: put_at_def)

definition progress :: "nat \<Rightarrow> nat \<Rightarrow> nat \<Rightarrow> nat \<Rightarrow> nat" where
  "progress offset len cs c = max offset (min (offset + len) (c * cs)) - offset"

lemma progress_le: "progress offset len cs c \<le> len"
  by (auto simp: progress_def)

lemma read_step_result:
  assumes run: "read_step env offset len c (buffer, written, dest, m) = (status, buffer', written', dest', m')"
    and sv: "serves data src cs m" and env: "keeps data src cs env" and buf: "length buffer = unat cs"
    and vlen: "length (canonical_validator (si_validator src)) < 2 ^ 32"
    and total: "length data = unat (v_total_size (si_validator src))" and fits: "offset + len \<le> length data"
    and c: "c * unat cs < offset + len" "c < 2 ^ 32" and room: "len \<le> length dest"
    and written: "written = progress offset len (unat cs) c" "take written dest = slice data offset written"
  shows "serves data src cs m'" and "length buffer' = unat cs" and "length dest' = length dest"
    and "take written' dest' = slice data offset written'" and "status \<noteq> R_Ok \<Longrightarrow> written' = written"
    and "status = R_Ok \<Longrightarrow> written' = progress offset len (unat cs) (Suc c)"
proof -
  have ci: "unat (of_nat c :: u32) = c" by (rule unat_of_nat32 [OF c(2)])
  let ?len = "chunk_len_of data (unat cs) c"
  obtain s b m1 where e: "ensure_chunk_local env (of_nat c) ?len buffer m = (s, b, m1)" by (metis prod_cases3)
  have start: "unat (of_nat c :: u32) * unat cs < length data" using c fits ci by simp
  have "length data < 2 ^ 64" unfolding total by (rule unat_u64)
  note ens = ensure_chunk_local_result [OF e sv env _ start buf this vlen, unfolded ci, OF refl]
  define rs re where "rs = max offset (c * unat cs)" and "re = min (offset + len) (c * unat cs + ?len)"
  have ends: "c * unat cs + ?len = min (Suc c * unat cs) (length data)"
    using c fits by (auto simp: chunk_len_of_def)
  have len_eq: "min (unat cs) (unat (v_total_size (si_validator src)) - c * unat cs) = ?len"
    by (simp add: chunk_len_of_def total)
  have "serves data src cs m' \<and> length buffer' = unat cs \<and> length dest' = length dest \<and>
      take written' dest' = slice data offset written' \<and> (status \<noteq> R_Ok \<longrightarrow> written' = written) \<and>
      (status = R_Ok \<longrightarrow> written' = progress offset len (unat cs) (Suc c))"
  proof (cases "s = R_Ok \<and> rs < re")
    case True
    have b: "take ?len b = chunk_data data (unat cs) c" using ens(3) True by blast
    have w: "rs - offset = written" using written(1) c by (auto simp: rs_def progress_def)
    have out: "status = R_Ok" "buffer' = b" "m' = m1" "written' = written + (re - rs)"
      "dest' = put_at dest written (slice b (rs - c * unat cs) (re - rs))"
      using run e True servesD(1,2) [OF sv] w len_eq
      by (auto simp: read_step_def Let_def simp flip: rs_def re_def)
    have in_chunk: "rs - c * unat cs + (re - rs) \<le> ?len" using True by (auto simp: rs_def re_def)
    have "slice b (rs - c * unat cs) (re - rs) = slice data (c * unat cs + (rs - c * unat cs)) (re - rs)"
      using slice_take [OF in_chunk, of b] slice_slice [OF in_chunk, of data "c * unat cs"] b by (simp add: chunk_data_def)
    also have "c * unat cs + (rs - c * unat cs) = rs" by (simp add: rs_def)
    finally have piece: "slice b (rs - c * unat cs) (re - rs) = slice data rs (re - rs)" .
    have rs: "rs = offset + written" using w by (simp add: rs_def)
    have size: "length (slice data rs (re - rs)) = re - rs" using fits by (auto simp: re_def)
    have inside: "written + (re - rs) \<le> length dest" using room True rs by (auto simp: re_def)
    have "take written' dest' = slice data offset written'"
      using take_put_at [of written "slice data rs (re - rs)" dest] size inside written(2)
        slice_append [of data offset written "re - rs"] rs unfolding out piece by simp
    moreover have "written' = progress offset len (unat cs) (Suc c)"
      unfolding out(4) using rs True ends fits by (auto simp: progress_def re_def)
    moreover have "length dest' = length dest" unfolding out piece using size inside by simp
    ultimately show ?thesis using out ens(1,2) by simp
  next
    case False
    have "written = progress offset len (unat cs) (Suc c)" if "\<not> rs < re"
      using that written(1) c ends fits by (auto simp: rs_def re_def progress_def)
    then show ?thesis
      using run e False ens(1,2) written(2) servesD(1,2) [OF sv] len_eq
      by (auto simp: read_step_def Let_def rs_def re_def split: if_splits)
  qed
  then show "serves data src cs m'" and "length buffer' = unat cs" and "length dest' = length dest"
    and "take written' dest' = slice data offset written'" and "status \<noteq> R_Ok \<Longrightarrow> written' = written"
    and "status = R_Ok \<Longrightarrow> written' = progress offset len (unat cs) (Suc c)"
    by blast+
qed

lemma read_loop_result:
  assumes "read_loop env offset len [c ..< d] (buffer, written, dest, m) = (status, buffer', written', dest', m')"
    and "serves data src cs m" and env: "keeps data src cs env" and "length buffer = unat cs"
    and vlen: "length (canonical_validator (si_validator src)) < 2 ^ 32"
    and total: "length data = unat (v_total_size (si_validator src))" and fits: "offset + len \<le> length data"
    and bound: "\<And>i. i < d \<Longrightarrow> i * unat cs < offset + len" "d \<le> 2 ^ 32" and "len \<le> length dest" and "c \<le> d"
    and "written = progress offset len (unat cs) c" "take written dest = slice data offset written"
  shows "serves data src cs m' \<and> length dest' = length dest \<and> take written' dest' = slice data offset written' \<and>
     written' \<le> len \<and> (status = R_Ok \<longrightarrow> written' = progress offset len (unat cs) d)"
  using assms
proof (induction "d - c" arbitrary: c buffer written dest m)
  case 0
  then show ?case by (auto simp: progress_def)
next
  case (Suc k)
  then have "[c ..< d] = c # [Suc c ..< d]" by (simp add: upt_conv_Cons)
  obtain s b w ds m1 where st: "read_step env offset len c (buffer, written, dest, m) = (s, b, w, ds, m1)"
    by (metis prod_cases5)
  have c: "c * unat cs < offset + len" "c < 2 ^ 32" using Suc by auto
  note step = read_step_result [OF st Suc.prems(2,3,4,5,6,7) c Suc.prems(10,12,13)]
  show ?case
  proof (cases "s = R_Ok")
    case True
    have "serves data src cs m' \<and> length dest' = length ds \<and> take written' dest' = slice data offset written' \<and>
       written' \<le> len \<and> (status = R_Ok \<longrightarrow> written' = progress offset len (unat cs) d)"
      by (rule Suc.hyps(1) [of "Suc c" b w ds m1])
        (use Suc.prems Suc.hyps(2) step True st \<open>[c ..< d] = _\<close> in simp_all)
    then show ?thesis using step(3) by simp
  next
    case False
    then show ?thesis
      using Suc.prems(1) step st \<open>[c ..< d] = _\<close> \<open>written = _\<close>
        progress_le [of offset len "unat cs" c] by auto
  qed
qed

lemma unat_ucast_u32: "unat (ucast (x :: u32) :: u64) = unat x"
  using unat_u32 [of x] by (simp add: unsigned_ucast_eq take_bit_nat_eq_self)

text \<open>The chunk numbers that \<open>read\<close> computes fit the 32 bits they are cast to.\<close>

lemma chunk_number_fits:
  assumes "mirror_valid m" and "p < total_of m"
  shows "unat (of_nat (p div chunk_size_of m) :: u32) = p div chunk_size_of m"
    and "p div chunk_size_of m < 0xFFFFFFFF"
proof -
  have "unat (v_total_size (si_validator (mi_source m)) div ucast (st_chunk_size (mi_store m)) :: u64) < 0xFFFFFFFF"
    using assms(1) unfolding mirror_valid_def by (simp add: word_less_nat_alt)
  then have "total_of m div chunk_size_of m < 0xFFFFFFFF"
    by (simp add: unat_div unat_ucast_u32)
  then show lt: "p div chunk_size_of m < 0xFFFFFFFF"
    using div_le_mono [of p "total_of m" "chunk_size_of m"] assms(2) by simp
  show "unat (of_nat (p div chunk_size_of m) :: u32) = p div chunk_size_of m"
    using unat_of_nat32 lt by simp
qed

lemma mirror_read_result:
  assumes run: "mirror_read env offset len dest m = (status, n, dest', m')"
    and sv: "serves data src cs m" and env: "keeps data src cs env"
    and vlen: "length (canonical_validator (si_validator src)) < 2 ^ 32"
    and total: "length data = unat (v_total_size (si_validator src))"
  shows "serves data src cs m' \<and> length dest' = length dest \<and> n \<le> unat len \<and>
     take n dest' = slice data (unat offset) n \<and> (status = R_Ok \<longrightarrow> n = unat len)"
proof (cases "\<not> mirror_valid m \<or> length dest < unat len \<or> len = 0 \<or> unat offset > total_of m \<or>
    unat len > total_of m - unat offset")
  case True
  then show ?thesis
    using run sv by (auto simp: mirror_read_def Let_def slice_def split: if_splits)
next
  case False
  let ?o = "unat offset" and ?l = "unat len" and ?cs = "unat cs"
  note eqs = servesD(1,2) [OF sv]
  have l: "0 < ?l" using False by (auto simp: unat_gt_0)
  have fits: "?o + ?l \<le> length data" and valid: "mirror_valid m" and room: "?l \<le> length dest"
    using False total eqs by auto
  have cs: "0 < ?cs" using valid eqs by (auto simp: mirror_valid_def unat_gt_0)
  define d where "d = Suc ((?o + ?l - 1) div ?cs)"
  have last: "?o + ?l - 1 < total_of m" "?o < total_of m" using fits l total eqs by auto
  note num = chunk_number_fits [OF valid last(1)] chunk_number_fits [OF valid last(2)]
  obtain b where loop: "read_loop env ?o ?l [?o div ?cs ..< d] (replicate ?cs 0, 0, dest, m) = (status, b, n, dest', m')"
    using run False num eqs by (auto simp: mirror_read_def Let_def d_def split: prod.splits)
  have lo: "?o div ?cs * ?cs \<le> ?o" by simp
  have hi: "?o + ?l \<le> d * ?cs"
    using div_mult_mod_eq [of "?o + ?l - 1" ?cs] mod_less_divisor [OF cs, of "?o + ?l - 1"] l
    unfolding d_def mult_Suc by linarith
  have bound: "i * ?cs < ?o + ?l" if "i < d" for i
  proof -
    have "i * ?cs \<le> (?o + ?l - 1) div ?cs * ?cs" using that by (intro mult_le_mono1) (simp add: d_def)
    also have "\<dots> \<le> ?o + ?l - 1" by simp
    finally show ?thesis using l by linarith
  qed
  have "?o div ?cs \<le> (?o + ?l - 1) div ?cs" by (rule div_le_mono) (use l in simp)
  then have d: "?o div ?cs \<le> d" "d \<le> 2 ^ 32" using num eqs by (simp_all add: d_def)
  have "0 = progress ?o ?l ?cs (?o div ?cs)" using lo by (simp add: progress_def min.coboundedI2)
  moreover have "take 0 dest = slice data ?o 0" by (simp add: slice_def)
  moreover have "progress ?o ?l ?cs d = ?l" using hi by (simp add: progress_def)
  ultimately show ?thesis
    using read_loop_result [OF loop sv env _ vlen total fits bound d(2) room d(1)] by simp
qed

section \<open>A quiet mirror succeeds\<close>

text \<open>No other thread, a transport that delivers every chunk and a file system without faults.\<close>

definition undisturbed :: "source_identity \<Rightarrow> u32 \<Rightarrow> 'w mirror_env \<Rightarrow> bool" where
  "undisturbed src cs env \<longleftrightarrow> (\<forall>m. me_pause env m = m) \<and> (\<forall>w. me_fault env w = No_fault) \<and>
     (\<forall>request w. rq_expected request = si_validator src \<longrightarrow>
        unat (rq_offset request) < unat (v_total_size (si_validator src)) \<longrightarrow>
        unat cs dvd unat (rq_offset request) \<longrightarrow>
        unat (rq_length request) = min (unat cs) (unat (v_total_size (si_validator src)) - unat (rq_offset request)) \<longrightarrow>
        rq_destination request = replicate (unat (rq_length request)) 0 \<longrightarrow>
        fr_status (fst (me_fetch env request w)) = R_Ok \<and>
        fr_bytes (fst (me_fetch env request w)) = unat (rq_length request) \<and>
        length (fst (snd (me_fetch env request w))) = unat (rq_length request))"

definition same_mirror :: "'w mirror \<Rightarrow> 'w mirror \<Rightarrow> bool" where
  "same_mirror m m' \<longleftrightarrow> mi_source m' = mi_source m \<and> st_chunk_size (mi_store m') = st_chunk_size (mi_store m) \<and>
     mi_inflight m' = mi_inflight m"

lemma same_mirror_trans: "same_mirror m m' \<Longrightarrow> same_mirror m' m'' \<Longrightarrow> same_mirror m m''"
  by (simp add: same_mirror_def)

lemma fetch_and_publish_ok:
  assumes env: "undisturbed (mi_source m) (st_chunk_size (mi_store m)) env" and inside: "unat i * chunk_size_of m < total_of m"
    and len: "chunk_len = min (chunk_size_of m) (total_of m - unat i * chunk_size_of m)"
    and vlen: "length (canonical_validator (si_validator (mi_source m))) < 2 ^ 32"
  obtains m' where "fetch_and_publish env i chunk_len m = (R_Ok, m')" and "same_mirror m m'"
    and "\<And>dest. chunk_len \<le> length dest \<Longrightarrow> fst (read_chunk (mi_store m') (mi_source m) i dest) = R_Ok"
proof -
  let ?request = "\<lparr>rq_offset = of_nat (unat i * chunk_size_of m), rq_length = of_nat chunk_len,
    rq_destination = replicate chunk_len 0, rq_expected = si_validator (mi_source m)\<rparr>"
  have w: "unat (of_nat (unat i * chunk_size_of m) :: u64) = unat i * chunk_size_of m"
    "unat (of_nat chunk_len :: u64) = chunk_len"
    using inside len unat_u64 [of "v_total_size (si_validator (mi_source m))"] by (intro unat_of_nat64; linarith)+
  obtain result buf w where fetch: "me_fetch env ?request (mi_world m) = (result, buf, w)" by (metis prod_cases3)
  have ok: "fr_status result = R_Ok" "fr_bytes result = chunk_len" "length buf = chunk_len"
    using env fetch inside len w unfolding undisturbed_def by (auto dest!: spec [of _ ?request] spec [of _ "mi_world m"])
  obtain st where pub: "publish_chunk No_fault (mi_store m) (mi_source m) i buf = (R_Ok, st)"
    using len ok(3) by (simp add: publish_chunk_def Let_def)
  show thesis
  proof (rule that)
    show "fetch_and_publish env i chunk_len m =
        (R_Ok, m\<lparr>mi_world := w, mi_stats := count_fetch result (mi_stats m), mi_store := st\<rparr>)"
      using env fetch ok pub by (simp add: fetch_and_publish_def undisturbed_def)
    show "same_mirror m (m\<lparr>mi_world := w, mi_stats := count_fetch result (mi_stats m), mi_store := st\<rparr>)"
      using publish_chunk_files(3) [OF pub] by (simp add: same_mirror_def)
    show "fst (read_chunk (mi_store (m\<lparr>mi_world := w, mi_stats := count_fetch result (mi_stats m), mi_store := st\<rparr>))
        (mi_source m) i dest) = R_Ok" if "chunk_len \<le> length dest" for dest
      using publish_read_same [OF pub _ vlen, of dest] that ok(3) by simp
  qed
qed

lemma same_mirror_records [simp]:
  "same_mirror m (record_hit m')  = same_mirror m m'" "same_mirror m (record_miss m') = same_mirror m m'"
  "same_mirror m (record_corrupt m') = same_mirror m m'"
  by (simp_all add: same_mirror_def record_hit_def record_miss_def record_corrupt_def)

lemma same_mirror_refl [simp]: "same_mirror m m"
  by (simp add: same_mirror_def)

lemma ensure_chunk_local_ok:
  assumes env: "undisturbed (mi_source m) (st_chunk_size (mi_store m)) env" and quiet: "mi_inflight m = {}" and inside: "unat i * chunk_size_of m < total_of m"
    and len: "chunk_len = min (chunk_size_of m) (total_of m - unat i * chunk_size_of m)" and buf: "chunk_len \<le> length buffer"
    and vlen: "length (canonical_validator (si_validator (mi_source m))) < 2 ^ 32"
  obtains buffer' m' where "ensure_chunk_local env i chunk_len buffer m = (R_Ok, buffer', m')" and "same_mirror m m'"
    and "length buffer' = length buffer"
proof -
  obtain s1 n1 b1 where r1: "read_chunk (mi_store m) (mi_source m) i buffer = (s1, n1, b1)" by (metis prod_cases3)
  have b1: "length b1 = length buffer" using read_chunk_length [of "mi_store m" "mi_source m" i buffer] r1 by simp
  show thesis
  proof (cases "s1 = R_Ok")
    case True
    then show thesis using that [of b1 "record_hit m"] r1 b1 by (simp add: ensure_chunk_local_def)
  next
    case False
    define m1 where "m1 = (if s1 = R_Corrupt then record_corrupt m else record_miss m)"
    have m1: "mi_source m1 = mi_source m" "mi_store m1 = mi_store m" "mi_inflight m1 = {}"
      by (simp_all add: m1_def record_corrupt_def record_miss_def quiet)
    define m2 where "m2 = m1\<lparr>mi_inflight := {i}\<rparr>"
    have m2: "mi_source m2 = mi_source m" "mi_store m2 = mi_store m" "mi_inflight m2 = {i}"
      using m1 by (simp_all add: m2_def)
    obtain s2 n2 b2 where r2: "read_chunk (mi_store m) (mi_source m) i b1 = (s2, n2, b2)" by (metis prod_cases3)
    have b2: "length b2 = length buffer"
      using read_chunk_length [of "mi_store m" "mi_source m" i b1] r2 b1 by simp
    have s2: "s2 \<noteq> R_Ok" using read_chunk_status [OF b1, of "mi_store m" "mi_source m" i] r1 r2 False by simp
    have u: "undisturbed (mi_source m2) (st_chunk_size (mi_store m2)) env" and a: "unat i * chunk_size_of m2 < total_of m2"
      "chunk_len = min (chunk_size_of m2) (total_of m2 - unat i * chunk_size_of m2)"
      "length (canonical_validator (si_validator (mi_source m2))) < 2 ^ 32"
      using m2 env len inside vlen by simp_all
    from fetch_and_publish_ok [OF u a]
    obtain m3 where f: "fetch_and_publish env i chunk_len m2 = (R_Ok, m3)" and m3: "same_mirror m2 m3"
      and back_ok: "\<And>dest. chunk_len \<le> length dest \<Longrightarrow> fst (read_chunk (mi_store m3) (mi_source m2) i dest) = R_Ok"
      by blast
    have "fst (read_chunk (mi_store m3) (mi_source m3) i b2) = R_Ok"
      using back_ok [of b2] b2 buf m3 by (simp add: same_mirror_def)
    then obtain n4 b4 where r4: "read_chunk (mi_store m3) (mi_source m3) i b2 = (R_Ok, n4, b4)"
      by (cases "read_chunk (mi_store m3) (mi_source m3) i b2") simp
    have b4: "length b4 = length buffer"
      using read_chunk_length [of "mi_store m3" "mi_source m3" i b2] r4 b2 by simp
    have "ensure_chunk_local env i chunk_len buffer m = (R_Ok, b4, m3\<lparr>mi_inflight := {}\<rparr>)"
      using env r1 False r2 s2 f r4 m1 m2 m3
      by (simp add: ensure_chunk_local_def Let_def undisturbed_def read_back_def same_mirror_def flip: m1_def m2_def)
    then show thesis
      using that [of b4 "m3\<lparr>mi_inflight := {}\<rparr>"] b4 m3 m2 quiet by (simp add: same_mirror_def)
  qed
qed

lemma read_loop_ok:
  assumes "undisturbed (mi_source m) (st_chunk_size (mi_store m)) env" and "mi_inflight m = {}" and "length buffer = chunk_size_of m"
    and "length (canonical_validator (si_validator (mi_source m))) < 2 ^ 32"
    and "\<forall>c \<in> set cs. c < 2 ^ 32 \<and> c * chunk_size_of m < total_of m"
  shows "fst (read_loop env offset len cs (buffer, written, dest, m)) = R_Ok"
  using assms
proof (induction cs arbitrary: buffer written dest m)
  case (Cons c cs)
  let ?len = "min (chunk_size_of m) (total_of m - c * chunk_size_of m)"
  have "unat (of_nat c :: u32) = c" using Cons.prems(5) unat_of_nat32 by simp
  then have inside: "unat (of_nat c :: u32) * chunk_size_of m < total_of m"
    and len: "?len = min (chunk_size_of m) (total_of m - unat (of_nat c :: u32) * chunk_size_of m)"
    using Cons.prems(5) by simp_all
  obtain b m' where e: "ensure_chunk_local env (of_nat c) ?len buffer m = (R_Ok, b, m')" "same_mirror m m'"
    "length b = length buffer"
    using ensure_chunk_local_ok [OF Cons.prems(1,2) inside len _ Cons.prems(4), of buffer] Cons.prems(3) by auto
  then have nxt: "mi_inflight m' = {}" "length b = chunk_size_of m'"
    "length (canonical_validator (si_validator (mi_source m'))) < 2 ^ 32"
    "\<forall>c \<in> set cs. c < 2 ^ 32 \<and> c * chunk_size_of m' < total_of m'" "undisturbed (mi_source m') (st_chunk_size (mi_store m')) env"
    using Cons.prems by (simp_all add: same_mirror_def)
  have "\<exists>w d. read_step env offset len c (buffer, written, dest, m) = (R_Ok, b, w, d, m')"
    using e(1) by (simp add: read_step_def Let_def)
  then show ?case using Cons.IH [OF nxt(5,1,2,3,4)] by auto
qed simp

lemma mirror_read_ok:
  assumes "undisturbed (mi_source m) (st_chunk_size (mi_store m)) env" and "mi_inflight m = {}" and valid: "mirror_valid m" and "unat len \<le> length dest"
    and len: "0 < len" and fits: "unat offset + unat len \<le> total_of m"
    and "length (canonical_validator (si_validator (mi_source m))) < 2 ^ 32"
  shows "fst (mirror_read env offset len dest m) = R_Ok"
proof -
  let ?last = "(unat offset + unat len - 1) div chunk_size_of m"
  have pre: "\<not> (\<not> mirror_valid m \<or> length dest < unat len)" "len \<noteq> 0"
    "\<not> (unat offset > total_of m \<or> unat len > total_of m - unat offset)" using assms by auto
  have l: "0 < unat len" using len by (simp add: word_less_nat_alt)
  then have last: "unat offset + unat len - 1 < total_of m" using fits by linarith
  note num = chunk_number_fits [OF valid last]
  have "c < 2 ^ 32 \<and> c * chunk_size_of m < total_of m" if "c \<le> ?last" for c
  proof -
    have "c * chunk_size_of m \<le> ?last * chunk_size_of m" using that by (rule mult_le_mono1)
    also have "\<dots> \<le> unat offset + unat len - 1" by simp
    finally show ?thesis using last num(2) that by simp
  qed
  then have "\<forall>c \<in> set [unat (of_nat (unat offset div chunk_size_of m) :: u32) ..< Suc (unat (of_nat ?last :: u32))].
      c < 2 ^ 32 \<and> c * chunk_size_of m < total_of m"
    unfolding num(1) atLeastLessThan_upt [symmetric] by (meson atLeastLessThan_iff less_Suc_eq_le)
  then show ?thesis
    using pre read_loop_ok [OF assms(1,2) _ assms(7), of "replicate (chunk_size_of m) 0"]
    by (simp add: mirror_read_def Let_def case_prod_unfold del: upt_Suc)
qed

section \<open>What the mirror guarantees\<close>

text \<open>A transport that serves six bytes, and a mirror of them with chunks of four bytes.\<close>

definition remote_bytes :: bytes where
  "remote_bytes = [10, 11, 12, 13, 14, 15]"

definition sample_fetch :: "unit fetch" where
  "sample_fetch request w =
     (let piece = slice remote_bytes (unat (rq_offset request)) (unat (rq_length request)) in
      (\<lparr>fr_status = (if unat (rq_offset request) + unat (rq_length request) \<le> 6 then R_Ok else R_Out_of_range),
        fr_bytes = length piece, fr_observed = no_validator, fr_retries = 0\<rparr>, piece, w))"

definition sample_env :: "unit mirror_env" where
  "sample_env = \<lparr>me_fetch = sample_fetch, me_fault = (\<lambda>_. No_fault), me_pause = (\<lambda>m. m),
     me_join = (\<lambda>_ m. (R_Ok, m))\<rparr>"

definition sample_mirror :: "unit mirror" where
  "sample_mirror = \<lparr>mi_source = sample_identity ''x'', mi_store = sample_store, mi_inflight = {},
     mi_stats = \<lparr>ms_hits = 0, ms_misses = 0, ms_fetches = 0, ms_bytes_fetched = 0, ms_retries = 0,
       ms_validator_mismatches = 0, ms_corrupt_entries_skipped = 0, ms_publish_failures = 0, ms_coalesced = 0\<rparr>,
     mi_world = ()\<rparr>"

lemma sample_mirror_valid: "mirror_valid sample_mirror"
  by (simp add: mirror_valid_def sample_mirror_def sample_store_def open_store_def sample_identity_def)

lemma sample_mirror_serves: "serves remote_bytes (sample_identity ''x'') 4 sample_mirror"
  by (simp add: serves_def sample_mirror_def sample_store_simps read_chunk_def)

lemma sample_env_keeps: "keeps remote_bytes (sample_identity ''x'') 4 sample_env"
  by (auto simp: keeps_def sample_env_def fetch_serves_def sample_fetch_def Let_def)

lemma sample_env_undisturbed: "undisturbed (mi_source sample_mirror) (st_chunk_size (mi_store sample_mirror)) sample_env"
  by (auto simp: undisturbed_def sample_env_def sample_fetch_def Let_def sample_mirror_def sample_identity_def
        remote_bytes_def)



text \<open>
  C30. An undisturbed read succeeds. With no other thread, a transport that delivers and a file system without faults, every
  read of a non-empty range inside the source returns \<open>ok\<close>, whatever the cache directory holds: missing, stale and corrupt
  chunk files are fetched again.
\<close>

theorem mirror_read_succeeds:
  assumes "undisturbed (mi_source m) (st_chunk_size (mi_store m)) env" and "mi_inflight m = {}" and "mirror_valid m" and "unat len \<le> length dest" and "0 < len"
    and "unat offset + unat len \<le> total_of m"
    and "length (canonical_validator (si_validator (mi_source m))) < 2 ^ 32"
  shows "fst (mirror_read env offset len dest m) = R_Ok"
  by (rule mirror_read_ok [OF assms])

theorem mirror_read_succeeds_witness: "fst (mirror_read sample_env 1 5 [0, 0, 0, 0, 0] sample_mirror) = R_Ok"
  using mirror_read_succeeds [OF sample_env_undisturbed, of 5 "[0, 0, 0, 0, 0]" 1] sample_mirror_valid
  by (simp add: sample_mirror_def sample_identity_def canonical_validator_def)

end
