(* ===== verification/Http_Client.thy ===== *)
theory Http_Client
  imports Http_Parse Mirror
begin

text \<open>
  remote/http_client.hpp: \<open>Http1RangeTransport\<close>. The sockets and the clock are a parameter, a record of the calls the
  client makes; each takes the state of the network and returns its answer and the state afterwards. What \<open>recv\<close>
  delivers is cut to the size of the buffer it was given.
\<close>

section \<open>The network\<close>

datatype connect_answer = Connected | In_progress | Connect_error

text \<open>\<open>Received []\<close> is an orderly close (a return value of zero).\<close>

datatype recv_answer = Received string | Recv_timeout | Recv_error

record 'w net =
  net_getaddrinfo :: "string \<Rightarrow> string \<Rightarrow> 'w \<Rightarrow> nat list option \<times> 'w"
  net_socket :: "nat \<Rightarrow> 'w \<Rightarrow> bool \<times> 'w"
  net_connect :: "nat \<Rightarrow> 'w \<Rightarrow> connect_answer \<times> 'w"
  net_wait_writable :: "nat \<Rightarrow> nat \<Rightarrow> 'w \<Rightarrow> bool \<times> 'w"
  net_connect_succeeded :: "nat \<Rightarrow> 'w \<Rightarrow> bool \<times> 'w"
  net_set_recv_timeout :: "nat \<Rightarrow> 'w \<Rightarrow> 'w"
  net_send :: "string \<Rightarrow> 'w \<Rightarrow> int \<times> 'w"
  net_recv :: "nat \<Rightarrow> 'w \<Rightarrow> recv_answer \<times> 'w"
  net_close :: "'w \<Rightarrow> 'w"
  net_sleep :: "nat \<Rightarrow> 'w \<Rightarrow> 'w"

definition recv :: "'w net \<Rightarrow> nat \<Rightarrow> 'w \<Rightarrow> recv_answer \<times> 'w" where
  "recv net want w =
     (case net_recv net want w of
        (Received data, w) \<Rightarrow> (Received (take want data), w)
      | (answer, w) \<Rightarrow> (answer, w))"

section \<open>The transport\<close>

record http_options =
  o_url :: string
  o_connect_timeout :: nat
  o_recv_timeout :: nat
  o_max_retries :: nat
  o_retry_backoff_base :: nat

record http_transport =
  h_options :: http_options
  h_url :: parsed_url

definition http_transport_of :: "http_options \<Rightarrow> http_transport" where
  "http_transport_of options = \<lparr>h_options = options, h_url = parse_http_url (o_url options)\<rparr>"

text \<open>
  The loop over the addresses: the first one that connects is kept. A candidate that does not is closed when its
  \<open>SocketHandle\<close> goes out of scope (\<open>net_close\<close> closes the socket opened last).
\<close>

fun connect_loop :: "'w net \<Rightarrow> nat \<Rightarrow> nat list \<Rightarrow> 'w \<Rightarrow> bool \<times> 'w" where
  "connect_loop net timeout [] w = (False, w)"
| "connect_loop net timeout (ai # rest) w =
     (case net_socket net ai w of
        (False, w) \<Rightarrow> connect_loop net timeout rest w
      | (True, w) \<Rightarrow>
          (case net_connect net ai w of
             (Connected, w) \<Rightarrow> (True, w)
           | (Connect_error, w) \<Rightarrow> connect_loop net timeout rest (net_close net w)
           | (In_progress, w) \<Rightarrow>
               (case net_wait_writable net ai timeout w of
                  (False, w) \<Rightarrow> connect_loop net timeout rest (net_close net w)
                | (True, w) \<Rightarrow>
                    (case net_connect_succeeded net ai w of
                       (True, w) \<Rightarrow> (True, w)
                     | (False, w) \<Rightarrow> connect_loop net timeout rest (net_close net w)))))"

definition open_connection :: "'w net \<Rightarrow> http_transport \<Rightarrow> 'w \<Rightarrow> bool \<times> 'w" where
  "open_connection net t w =
     (case net_getaddrinfo net (u_host (h_url t)) (u_port (h_url t)) w of
        (None, w) \<Rightarrow> (False, w)
      | (Some resolved, w) \<Rightarrow>
          if resolved = [] then (False, w)
          else case connect_loop net (o_connect_timeout (h_options t)) resolved w of
                 (False, w) \<Rightarrow> (False, w)
               | (True, w) \<Rightarrow> (True, net_set_recv_timeout net (o_recv_timeout (h_options t)) w))"

definition range_end :: "range_request \<Rightarrow> u64" where
  "range_end request = rq_offset request + rq_length request - 1"

definition request_text :: "http_transport \<Rightarrow> range_request \<Rightarrow> string" where
  "request_text t request =
     ''GET '' @ u_path (h_url t) @ '' HTTP/1.1'' @ [CR, LF] @
     ''Host: '' @ u_host (h_url t) @ [CR, LF] @
     ''Range: bytes='' @ to_string (unat (rq_offset request)) @ ''-'' @ to_string (unat (range_end request)) @ [CR, LF] @
     ''Connection: close'' @ [CR, LF] @
     ''User-Agent: sub0tieredcache/1'' @ [CR, LF] @ [CR, LF]"

text \<open>The send loop; \<open>unsent\<close> is the part of the request that is still to go.\<close>

function send_all :: "'w net \<Rightarrow> string \<Rightarrow> 'w \<Rightarrow> bool \<times> 'w" where
  "send_all net unsent w =
     (if unsent = [] then (True, w)
      else case net_send net unsent w of
        (sent, w) \<Rightarrow> if sent \<le> 0 then (False, w) else send_all net (drop (nat sent) unsent) w)"
  by pat_completeness auto
termination
  by (relation "measure (\<lambda>(net, unsent, w). length unsent)") auto

declare send_all.simps [simp del]

text \<open>Reading until the end of the head is in the buffer.\<close>

definition max_head :: nat where "max_head = 2 ^ 20"

function recv_head :: "'w net \<Rightarrow> string \<Rightarrow> 'w \<Rightarrow> (remote_status + string) \<times> 'w" where
  "recv_head net buffer w =
     (case recv net 4096 w of
        (Recv_timeout, w) \<Rightarrow> (Inl R_Timeout, w)
      | (Recv_error, w) \<Rightarrow> (Inl R_Truncated, w)
      | (Received data, w) \<Rightarrow>
          if data = [] then (Inl R_Truncated, w)
          else if find_sub head_end (buffer @ data) \<noteq> None then (Inr (buffer @ data), w)
          else if length (buffer @ data) > max_head then (Inl R_Unexpected_status, w)
          else recv_head net (buffer @ data) w)"
  by pat_completeness auto
termination
  by (relation "measure (\<lambda>(net, buffer, w). max_head + 1 - length buffer)")
    (auto simp: less_Suc_eq_le simp flip: length_greater_0_conv)

declare recv_head.simps [simp del]

text \<open>What the client makes of the head: the status (\<open>ok\<close> to go on) and the validator it observed.\<close>

definition judge_head :: "range_request \<Rightarrow> parsed_headers \<Rightarrow> remote_status \<times> source_validator" where
  "judge_head request headers =
     (if ph_status_code headers \<ge> 500 \<and> ph_status_code headers < 600 then (R_Server_error, no_validator)
      else if ph_status_code headers \<noteq> 206 then (R_Unexpected_status, no_validator)
      else if ph_transfer_encoding headers \<noteq> [] then (R_Unsupported_response, no_validator)
      else if \<not> ph_has_content_length headers then (R_Bad_content_range, no_validator)
      else if ph_content_range headers = [] then (R_Bad_content_range, no_validator)
      else case parse_content_range (ph_content_range headers) of
        None \<Rightarrow> (R_Bad_content_range, no_validator)
      | Some (cr_start, cr_end, cr_total) \<Rightarrow>
          if cr_start \<noteq> rq_offset request \<or> cr_end \<noteq> range_end request then (R_Bad_content_range, no_validator)
          else if of_int (ph_content_length headers) \<noteq> rq_length request then (R_Bad_content_range, no_validator)
          else
            let observed = \<lparr>v_etag = ph_etag headers, v_last_modified = ph_last_modified headers,
                            v_total_size = cr_total\<rparr>;
                expected = rq_expected request
            in if v_total_size expected \<noteq> 0 \<and> cr_total \<noteq> v_total_size expected then (R_Size_mismatch, observed)
               else if has_identity expected then
                 let etag_ok = (v_etag expected \<noteq> [] \<and> v_etag expected = v_etag observed);
                     lm_ok = (v_etag expected = [] \<and> v_last_modified expected \<noteq> [] \<and>
                              v_last_modified expected = v_last_modified observed)
                 in if \<not> etag_ok \<and> \<not> lm_ok then (R_Source_changed, observed) else (R_Ok, observed)
               else (R_Ok, observed))"

text \<open>Reading the rest of the body: the status, the bytes received and the destination.\<close>

function recv_body :: "'w net \<Rightarrow> nat \<Rightarrow> nat \<Rightarrow> bytes \<Rightarrow> 'w \<Rightarrow> remote_status \<times> nat \<times> bytes \<times> 'w" where
  "recv_body net len received_total dest w =
     (if received_total < len then
        (case recv net (min 4096 (len - received_total)) w of
           (Recv_timeout, w) \<Rightarrow> (R_Timeout, received_total, dest, w)
         | (Recv_error, w) \<Rightarrow> (R_Truncated, received_total, dest, w)
         | (Received data, w) \<Rightarrow>
             if data = [] then (R_Truncated, received_total, dest, w)
             else recv_body net len (received_total + length data) (put_at dest received_total (str_bytes data)) w)
      else (R_Ok, received_total, dest, w))"
  by pat_completeness auto
termination
  by (relation "measure (\<lambda>(net, len, received_total, dest, w). len - received_total)")
    (auto simp flip: length_greater_0_conv)

declare recv_body.simps [simp del]

definition failed_fetch :: "remote_status \<Rightarrow> fetch_result" where
  "failed_fetch status = \<lparr>fr_status = status, fr_bytes = 0, fr_observed = no_validator, fr_retries = 0\<rparr>"

text \<open>What happens on an open connection.\<close>

definition exchange :: "'w net \<Rightarrow> http_transport \<Rightarrow> 'w fetch" where
  "exchange net t request w =
     (let dest = rq_destination request; len = unat (rq_length request) in
      case send_all net (request_text t request) w of
        (False, w) \<Rightarrow> (failed_fetch R_Send_failed, dest, w)
      | (True, w) \<Rightarrow>
          (case recv_head net [] w of
             (Inl status, w) \<Rightarrow> (failed_fetch status, dest, w)
           | (Inr buffer, w) \<Rightarrow>
               let (header_end, headers) = parse_response_head buffer in
               case judge_head request headers of
                 (status, observed) \<Rightarrow>
                   if status \<noteq> R_Ok
                   then (\<lparr>fr_status = status, fr_bytes = 0, fr_observed = observed, fr_retries = 0\<rparr>, dest, w)
                   else
                     let to_copy = min (length buffer - header_end) len;
                         dest = put_at dest 0 (str_bytes (slice buffer header_end to_copy))
                     in case recv_body net len to_copy dest w of
                          (status, received_total, dest, w) \<Rightarrow>
                            (\<lparr>fr_status = status, fr_bytes = received_total, fr_observed = observed,
                              fr_retries = 0\<rparr>, dest, w)))"

text \<open>One attempt; whichever way it ends, the \<open>SocketHandle\<close> closes the connection.\<close>

definition fetch_once :: "'w net \<Rightarrow> http_transport \<Rightarrow> 'w fetch" where
  "fetch_once net t request w =
     (case open_connection net t w of
        (False, w) \<Rightarrow> (failed_fetch R_Connect_failed, rq_destination request, w)
      | (True, w) \<Rightarrow>
          (case exchange net t request w of (result, dest, w) \<Rightarrow> (result, dest, net_close net w)))"

text \<open>The retry loop; \<open>left\<close> is \<open>max_retries - retries\<close>.\<close>

primrec fetch_loop :: "'w net \<Rightarrow> http_transport \<Rightarrow> nat \<Rightarrow> nat \<Rightarrow> 'w fetch" where
  "fetch_loop net t 0 retries request w =
     (case fetch_once net t request w of
        (result, dest, w) \<Rightarrow>
          let result = result\<lparr>fr_retries := retries\<rparr> in
          if fr_status result = R_Ok \<or> \<not> is_transient (fr_status result) then (result, dest, w)
          else (if retries > 0 then result\<lparr>fr_status := R_Retries_exhausted\<rparr> else result, dest, w))"
| "fetch_loop net t (Suc left) retries request w =
     (case fetch_once net t request w of
        (result, dest, w) \<Rightarrow>
          let result = result\<lparr>fr_retries := retries\<rparr> in
          if fr_status result = R_Ok \<or> \<not> is_transient (fr_status result) then (result, dest, w)
          else
            let retries = retries + 1;
                w = net_sleep net (o_retry_backoff_base (h_options t) * 2 ^ min retries 4) w
            in fetch_loop net t left retries (request\<lparr>rq_destination := dest\<rparr>) w)"

definition fetch_range :: "'w net \<Rightarrow> http_transport \<Rightarrow> 'w fetch" where
  "fetch_range net t request w =
     (if \<not> u_valid (h_url t) then (failed_fetch R_Invalid_argument, rq_destination request, w)
      else if rq_length request = 0 \<or> length (rq_destination request) \<noteq> unat (rq_length request)
      then (failed_fetch R_Invalid_argument, rq_destination request, w)
      else fetch_loop net t (o_max_retries (h_options t)) 0 request w)"

section \<open>What one attempt does\<close>

text \<open>
  \<open>streams net stream\<close>: \<open>stream w\<close> is what the peer of the open connection has yet to deliver, and \<open>recv\<close> takes it from
  the front.
\<close>

definition streams :: "'w net \<Rightarrow> ('w \<Rightarrow> string) \<Rightarrow> bool" where
  "streams net stream \<longleftrightarrow> (\<forall>n w data w'. recv net n w = (Received data, w') \<longrightarrow> stream w = data @ stream w')"

lemma recv_fits: "recv net n w = (Received data, w') \<Longrightarrow> length data \<le> n"
  by (auto simp: recv_def split: prod.splits recv_answer.splits)

lemma recv_body_result:
  assumes "recv_body net len have_n dest w = (status, n, dest', w')" and "have_n \<le> len" and "length dest = len"
  shows "length dest' = len \<and> n \<le> len \<and> (status = R_Ok \<longrightarrow> n = len) \<and>
     (streams net stream \<longrightarrow> status = R_Ok \<longrightarrow> dest' = take have_n dest @ str_bytes (take (len - have_n) (stream w)))"
  using assms
proof (induction net len have_n dest w rule: recv_body.induct)
  case (1 net len have_n dest w)
  show ?case
  proof (cases "have_n < len")
    case False
    then have "recv_body net len have_n dest w = (R_Ok, have_n, dest, w)" by (simp add: recv_body.simps)
    then show ?thesis using 1 False by (auto simp: str_bytes_def)
  next
    case True
    obtain answer w1 where r: "recv net (min 4096 (len - have_n)) w = (answer, w1)" by fastforce
    show ?thesis
    proof (cases "\<exists>data. answer = Received data \<and> data \<noteq> []")
      case False
      then show ?thesis
        using 1 True r by (auto simp: recv_body.simps [of net len have_n dest w] split: recv_answer.splits)
    next
      case rcvd: True
      then obtain data where data: "answer = Received data" "data \<noteq> []" by blast
      have fits: "length data \<le> len - have_n" using recv_fits r data by fastforce
      let ?dest = "put_at dest have_n (str_bytes data)"
      have len: "length ?dest = len" using fits True 1(3,4) by simp
      have step: "recv_body net len have_n dest w = recv_body net len (have_n + length data) ?dest w1"
        using True r data by (simp add: recv_body.simps [of net len have_n dest w])
      note ih = 1(1) [OF True r [symmetric] data(1,2)]
      have "take (have_n + length data) ?dest = take have_n dest @ str_bytes data"
        using take_put_at [of have_n "str_bytes data" dest] fits True 1(4) by simp
      moreover have "str_bytes data @ str_bytes (take (len - (have_n + length data)) (stream w1)) =
          str_bytes (take (len - have_n) (stream w))" if "streams net stream"
        using that r data fits by (auto simp: streams_def str_bytes_def simp flip: map_append)
      moreover have "recv_body net len (have_n + length data) ?dest w1 = (status, n, dest', w')" using 1(2) step by simp
      moreover have "have_n + length data \<le> len" using fits True by simp
      ultimately show ?thesis using ih len by simp
    qed
  qed
qed

lemma recv_head_result:
  assumes "recv_head net buffer w = (Inr buffer', w')"
  shows "find_sub head_end buffer' \<noteq> None \<and> (streams net stream \<longrightarrow> buffer @ stream w = buffer' @ stream w')"
  using assms
proof (induction net buffer w rule: recv_head.induct)
  case (1 net buffer w)
  obtain answer w1 where r: "recv net 4096 w = (answer, w1)" by fastforce
  then obtain data where data: "answer = Received data" "data \<noteq> []"
    using 1(2) by (auto simp: recv_head.simps [of net buffer w] split: recv_answer.splits if_splits)
  have st: "streams net stream \<longrightarrow> stream w = data @ stream w1" using r data by (auto simp: streams_def)
  show ?case
  proof (cases "find_sub head_end (buffer @ data) = None")
    case False
    then show ?thesis using 1(2) r data st by (auto simp: recv_head.simps [of net buffer w])
  next
    case True
    then have small: "\<not> length (buffer @ data) > max_head" and
      step: "recv_head net (buffer @ data) w1 = (Inr buffer', w')"
      using 1(2) r data by (auto simp: recv_head.simps [of net buffer w] split: if_splits)
    then show ?thesis using 1(1) [OF r [symmetric] data _ small step] True st by simp
  qed
qed

lemma find_sub_append: "find_sub pat s = Some i \<Longrightarrow> find_sub pat (s @ rest) = Some i"
proof (induction pat s arbitrary: i rule: find_sub.induct)
  case (1 pat)
  then show ?case by (cases rest) (auto split: if_splits)
next
  case (2 pat x xs)
  show ?case
  proof (cases "take (length pat) (x # xs) = pat")
    case True
    then have "length pat \<le> length (x # xs)" by (metis length_take min.cobounded1)
    then have "take (length pat) (x # xs @ rest) = pat" using True by (simp flip: append_Cons)
    then show ?thesis using True 2(2) by simp
  next
    case False
    then obtain j where "find_sub pat xs = Some j" "i = Suc j" using 2(2) by auto
    then have bound: "j + length pat \<le> length xs" using find_sub_bound by blast
    then have "take (length pat) (x # xs @ rest) = take (length pat) (x # xs)"
      by (simp flip: append_Cons)
    then show ?thesis using False 2 \<open>find_sub pat xs = Some j\<close> \<open>i = Suc j\<close> by simp
  qed
qed

text \<open>The head ends in the buffer, so what follows it does not change how it is parsed.\<close>

lemma parse_response_head_append:
  assumes "find_sub head_end buffer \<noteq> None"
  shows "parse_response_head (buffer @ rest) = parse_response_head buffer"
    and "fst (parse_response_head buffer) \<le> length buffer"
proof -
  obtain p where p: "find_sub head_end buffer = Some p" using assms by blast
  then show "parse_response_head (buffer @ rest) = parse_response_head buffer"
    using find_sub_append [OF p, of rest] find_sub_bound [OF p] by (simp add: parse_response_head_def Let_def)
  show "fst (parse_response_head buffer) \<le> length buffer"
    using p find_sub_bound [OF p] by (simp add: parse_response_head_def head_end_def Let_def)
qed

text \<open>\<open>answered net t request w = Some w'\<close>: connected and sent the request; the response begins in \<open>w'\<close>.\<close>

definition answered :: "'w net \<Rightarrow> http_transport \<Rightarrow> range_request \<Rightarrow> 'w \<Rightarrow> 'w option" where
  "answered net t request w =
     (case open_connection net t w of
        (False, w) \<Rightarrow> None
      | (True, w) \<Rightarrow> (case send_all net (request_text t request) w of (False, w) \<Rightarrow> None | (True, w) \<Rightarrow> Some w))"

lemma recv_head_error: "recv_head net buffer w = (Inl status, w') \<Longrightarrow> status \<noteq> R_Ok"
proof (induction net buffer w rule: recv_head.induct)
  case (1 net buffer w)
  obtain answer w1 where r: "recv net 4096 w = (answer, w1)" by fastforce
  show ?case
  proof (cases "\<exists>data. answer = Received data \<and> data \<noteq> [] \<and> find_sub head_end (buffer @ data) = None \<and>
      length (buffer @ data) \<le> max_head")
    case True
    then obtain data where data: "answer = Received data" "data \<noteq> []" "\<not> find_sub head_end (buffer @ data) \<noteq> None"
      "\<not> max_head < length (buffer @ data)" by auto
    then show ?thesis
      using 1(1) [OF r [symmetric] data] 1(2) r by (simp add: recv_head.simps [of net buffer w])
  next
    case False
    then show ?thesis
      using 1(2) r by (auto simp: recv_head.simps [of net buffer w] split: recv_answer.splits if_splits)
  qed
qed

lemma exchange_cases:
  assumes "exchange net t request w = (result, dest, w')"
  obtains "fr_status result \<noteq> R_Ok" and "dest = rq_destination request"
  | w0 buffer w1 where "send_all net (request_text t request) w = (True, w0)" and "recv_head net [] w0 = (Inr buffer, w1)"
    and "judge_head request (snd (parse_response_head buffer)) = (R_Ok, fr_observed result)"
    and "recv_body net (unat (rq_length request))
       (min (length buffer - fst (parse_response_head buffer)) (unat (rq_length request)))
       (put_at (rq_destination request) 0 (str_bytes (slice buffer (fst (parse_response_head buffer))
          (min (length buffer - fst (parse_response_head buffer)) (unat (rq_length request)))))) w1 =
       (fr_status result, fr_bytes result, dest, w')"
proof -
  obtain sent w0 where send: "send_all net (request_text t request) w = (sent, w0)" by fastforce
  obtain answer w1 where head: "recv_head net [] w0 = (answer, w1)" by fastforce
  show thesis
  proof (cases sent)
    case False
    then show thesis using that(1) assms send by (auto simp: exchange_def failed_fetch_def Let_def)
  next
    case sent: True
    show thesis
    proof (cases answer)
      case (Inl status)
      then show thesis
        using that(1) assms send sent head recv_head_error [of net "[]" w0 status w1]
        by (auto simp: exchange_def failed_fetch_def Let_def)
    next
      case (Inr buffer)
      obtain status observed where j: "judge_head request (snd (parse_response_head buffer)) = (status, observed)" by fastforce
      show thesis
      proof (cases "status = R_Ok")
        case True
        show thesis
          by (rule that(2) [of w0 buffer w1])
            (use assms send sent head Inr j True in \<open>auto simp: exchange_def Let_def split: prod.splits\<close>)
      next
        case False
        then show thesis using that(1) assms send sent head Inr j by (auto simp: exchange_def Let_def split: prod.splits)
      qed
    qed
  qed
qed

lemma fetch_once_cases:
  assumes "fetch_once net t request w = (result, dest, w')"
  obtains "fr_status result \<noteq> R_Ok" and "dest = rq_destination request"
  | w0 buffer w1 w2 where "answered net t request w = Some w0" and "recv_head net [] w0 = (Inr buffer, w1)"
    and "judge_head request (snd (parse_response_head buffer)) = (R_Ok, fr_observed result)"
    and "recv_body net (unat (rq_length request))
       (min (length buffer - fst (parse_response_head buffer)) (unat (rq_length request)))
       (put_at (rq_destination request) 0 (str_bytes (slice buffer (fst (parse_response_head buffer))
          (min (length buffer - fst (parse_response_head buffer)) (unat (rq_length request)))))) w1 =
       (fr_status result, fr_bytes result, dest, w2)"
proof -
  obtain connected w1 where conn: "open_connection net t w = (connected, w1)" by fastforce
  show thesis
  proof (cases connected)
    case False
    then show thesis using that(1) assms conn by (auto simp: fetch_once_def failed_fetch_def)
  next
    case True
    then obtain w2 where ex: "exchange net t request w1 = (result, dest, w2)"
      using assms conn by (auto simp: fetch_once_def split: prod.splits)
    show thesis
      by (rule exchange_cases [OF ex]) (use that conn True in \<open>auto simp: answered_def\<close>)
  qed
qed

lemma fetch_once_result:
  assumes run: "fetch_once net t request w = (result, dest, w')"
    and size: "length (rq_destination request) = unat (rq_length request)"
  shows "length dest = unat (rq_length request)"
    and "fr_status result = R_Ok \<Longrightarrow> fr_bytes result = unat (rq_length request)"
    and "fr_status result = R_Ok \<Longrightarrow> streams net stream \<Longrightarrow> \<exists>w0. answered net t request w = Some w0 \<and>
       judge_head request (snd (parse_response_head (stream w0))) = (R_Ok, fr_observed result) \<and>
       dest = str_bytes (slice (stream w0) (fst (parse_response_head (stream w0))) (unat (rq_length request)))"
proof -
  let ?len = "unat (rq_length request)"
  have "length dest = ?len \<and> (fr_status result = R_Ok \<longrightarrow> fr_bytes result = ?len) \<and>
    (fr_status result = R_Ok \<longrightarrow> streams net stream \<longrightarrow> (\<exists>w0. answered net t request w = Some w0 \<and>
       judge_head request (snd (parse_response_head (stream w0))) = (R_Ok, fr_observed result) \<and>
       dest = str_bytes (slice (stream w0) (fst (parse_response_head (stream w0))) ?len)))"
    using run
  proof (cases rule: fetch_once_cases)
    case 1
    then show ?thesis using size by simp
  next
    case (2 w0 buffer w1 w2)
    let ?at = "fst (parse_response_head buffer)"
    let ?n = "min (length buffer - ?at) ?len"
    note head = recv_head_result [OF 2(2), of stream]
    have n: "length (str_bytes (slice buffer ?at ?n)) = ?n" by simp
    note body = recv_body_result [OF 2(4), of stream]
    have "take ?n (put_at (rq_destination request) 0 (str_bytes (slice buffer ?at ?n))) = str_bytes (slice buffer ?at ?n)"
      using take_put_at [of 0 "str_bytes (slice buffer ?at ?n)" "rq_destination request"] size by simp
    moreover have "str_bytes (slice buffer ?at ?n) @ str_bytes (take (?len - ?n) (stream w1)) =
        str_bytes (slice (buffer @ stream w1) ?at ?len)"
      using parse_response_head_append(2) [of buffer] head
      by (simp add: str_bytes_def slice_def min_def flip: map_append)
    ultimately show ?thesis
      using body size 2(1,3) head parse_response_head_append(1) [of buffer "stream w1"] by auto
  qed
  then show "length dest = ?len" and "fr_status result = R_Ok \<Longrightarrow> fr_bytes result = ?len"
    and "fr_status result = R_Ok \<Longrightarrow> streams net stream \<Longrightarrow> \<exists>w0. answered net t request w = Some w0 \<and>
       judge_head request (snd (parse_response_head (stream w0))) = (R_Ok, fr_observed result) \<and>
       dest = str_bytes (slice (stream w0) (fst (parse_response_head (stream w0))) ?len)"
    by blast+
qed

section \<open>The retry loop\<close>

text \<open>\<open>validates expected observed\<close>: the observed validator is the one that was registered.\<close>

definition validates :: "source_validator \<Rightarrow> source_validator \<Rightarrow> bool" where
  "validates expected observed \<longleftrightarrow>
     (v_total_size expected \<noteq> 0 \<longrightarrow> v_total_size observed = v_total_size expected) \<and>
     (v_etag expected \<noteq> [] \<longrightarrow> v_etag observed = v_etag expected) \<and>
     (v_etag expected = [] \<longrightarrow> v_last_modified expected \<noteq> [] \<longrightarrow> v_last_modified observed = v_last_modified expected)"

lemma judge_head_ok:
  assumes "judge_head request headers = (R_Ok, observed)"
  shows "ph_status_code headers = 206" and "ph_transfer_encoding headers = []"
    and "parse_content_range (ph_content_range headers) =
       Some (rq_offset request, range_end request, v_total_size observed)"
    and "of_int (ph_content_length headers) = rq_length request"
    and "v_etag observed = ph_etag headers" and "v_last_modified observed = ph_last_modified headers"
    and "validates (rq_expected request) observed"
  using assms
  by (auto simp: judge_head_def Let_def validates_def has_identity_def split: if_splits option.splits prod.splits)

lemma answered_destination [simp]: "answered net t (request\<lparr>rq_destination := d\<rparr>) w = answered net t request w"
  by (auto simp: answered_def request_text_def range_end_def split: prod.splits bool.splits)

lemma judge_destination [simp]: "judge_head (request\<lparr>rq_destination := d\<rparr>) headers = judge_head request headers"
  by (auto simp: judge_head_def range_end_def Let_def split: option.splits)

definition delivered :: "'w net \<Rightarrow> http_transport \<Rightarrow> ('w \<Rightarrow> string) \<Rightarrow> range_request \<Rightarrow> source_validator \<Rightarrow> bytes \<Rightarrow> bool" where
  "delivered net t stream request observed buf \<longleftrightarrow> (\<exists>w w0. answered net t request w = Some w0 \<and>
     judge_head request (snd (parse_response_head (stream w0))) = (R_Ok, observed) \<and>
     buf = str_bytes (slice (stream w0) (fst (parse_response_head (stream w0))) (unat (rq_length request))))"

lemma delivered_destination [simp]:
  "delivered net t stream (request\<lparr>rq_destination := d\<rparr>) observed buf = delivered net t stream request observed buf"
  by (simp add: delivered_def)

lemma fetch_once_delivered:
  assumes "fetch_once net t request w = (result, dest, w')" and "fr_status result = R_Ok" and "streams net stream"
    and "length (rq_destination request) = unat (rq_length request)"
  shows "delivered net t stream request (fr_observed result) dest"
  using fetch_once_result(3) [OF assms(1,4,2,3)] unfolding delivered_def by blast

lemma fetch_loop_result:
  assumes "fetch_loop net t left retries request w = (result, buf, w')"
    and "length (rq_destination request) = unat (rq_length request)"
  shows "length buf = unat (rq_length request) \<and> fr_retries result \<le> retries + left \<and>
     (fr_status result = R_Ok \<longrightarrow> fr_bytes result = unat (rq_length request)) \<and>
     (is_transient (fr_status result) \<longrightarrow> retries = 0 \<and> left = 0) \<and>
     (fr_status result = R_Ok \<longrightarrow> streams net stream \<longrightarrow> delivered net t stream request (fr_observed result) buf)"
  using assms
proof (induction left arbitrary: retries request w)
  case 0
  obtain r d w1 where once: "fetch_once net t request w = (r, d, w1)" by (metis prod_cases3)
  note one = fetch_once_result(1,2) [OF once 0(2)] fetch_once_delivered [OF once _ _ 0(2)]
  show ?case using 0(1) once one by (auto simp: Let_def split: if_splits)
next
  case (Suc left)
  obtain r d w1 where once: "fetch_once net t request w = (r, d, w1)" by (metis prod_cases3)
  note one = fetch_once_result(1,2) [OF once Suc.prems(2)] fetch_once_delivered [OF once _ _ Suc.prems(2)]
  show ?case
  proof (cases "fr_status r = R_Ok \<or> \<not> is_transient (fr_status r)")
    case True
    then show ?thesis using Suc.prems(1) once one by (auto simp: Let_def)
  next
    case False
    then have again: "fetch_loop net t left (retries + 1) (request\<lparr>rq_destination := d\<rparr>)
        (net_sleep net (o_retry_backoff_base (h_options t) * 2 ^ min (retries + 1) 4) w1) = (result, buf, w')"
      using Suc.prems(1) once by (simp add: Let_def)
    show ?thesis using Suc.IH [OF again] one(1) by simp
  qed
qed

lemma fetch_range_result:
  assumes "fetch_range net t request w = (result, buf, w')"
  shows "length buf = length (rq_destination request)"
    and "fr_status result = R_Ok \<Longrightarrow> fr_bytes result = unat (rq_length request) \<and>
       length (rq_destination request) = unat (rq_length request)"
    and "fr_retries result \<le> o_max_retries (h_options t)"
    and "is_transient (fr_status result) \<Longrightarrow> o_max_retries (h_options t) = 0"
    and "fr_status result = R_Ok \<Longrightarrow> streams net stream \<Longrightarrow> delivered net t stream request (fr_observed result) buf"
  using assms fetch_loop_result [of net t "o_max_retries (h_options t)" 0 request w result buf w' stream]
  by (auto simp: fetch_range_def failed_fetch_def split: if_splits)

text \<open>The client keeps the transport contract.\<close>

interpretation http: range_transport "fetch_range net t" for net :: "'w net" and t
  by unfold_locales (erule fetch_range_result(1), erule (1) fetch_range_result(2))

section \<open>What the client guarantees\<close>



section \<open>A server that is honest\<close>

text \<open>
  \<open>honest data v\<close>: a complete response that the client accepts for the validator \<open>v\<close> carries the bytes of \<open>data\<close> its
  \<open>Content-Range\<close> names.
\<close>

definition honest :: "bytes \<Rightarrow> source_validator \<Rightarrow> 'w net \<Rightarrow> http_transport \<Rightarrow> ('w \<Rightarrow> string) \<Rightarrow> bool" where
  "honest data v net t stream \<longleftrightarrow> streams net stream \<and>
     (\<forall>request w w0 observed. rq_expected request = v \<longrightarrow> answered net t request w = Some w0 \<longrightarrow>
        judge_head request (snd (parse_response_head (stream w0))) = (R_Ok, observed) \<longrightarrow>
        unat (rq_offset request) + unat (rq_length request) \<le> length data \<longrightarrow>
        str_bytes (slice (stream w0) (fst (parse_response_head (stream w0))) (unat (rq_length request))) =
          slice data (unat (rq_offset request)) (unat (rq_length request)))"

lemma honest_serves:
  assumes "honest data v net t stream"
  shows "fetch_serves data v (fetch_range net t)"
  unfolding fetch_serves_def
proof (intro allI impI)
  fix request w result buf w'
  assume run: "fetch_range net t request w = (result, buf, w')" and ok: "fr_status result = R_Ok"
    and ex: "rq_expected request = v" and ins: "unat (rq_offset request) + unat (rq_length request) \<le> length data"
  have "delivered net t stream request (fr_observed result) buf"
    using fetch_range_result(5) [OF run ok] assms by (simp add: honest_def)
  then show "buf = slice data (unat (rq_offset request)) (unat (rq_length request))"
    using assms ex ins unfolding honest_def delivered_def by blast
qed

text \<open>A network with one server, which answers every request with the same response.\<close>

definition sample_response :: string where
  "sample_response = ''HTTP/1.1 206 P'' @ [CR, LF] @ ''Content-Range: bytes 0-3/4'' @ [CR, LF] @
     ''content-length: 4'' @ [CR, LF] @ ''ETag: x'' @ [CR, LF, CR, LF] @ ''abcd''"

definition sample_net :: "string net" where
  "sample_net = \<lparr>net_getaddrinfo = (\<lambda>_ _ w. (Some [0], w)), net_socket = (\<lambda>_ w. (True, w)),
     net_connect = (\<lambda>_ w. (Connected, w)), net_wait_writable = (\<lambda>_ _ w. (True, w)),
     net_connect_succeeded = (\<lambda>_ w. (True, w)), net_set_recv_timeout = (\<lambda>_ w. w),
     net_send = (\<lambda>s _. (int (length s), sample_response)), net_recv = (\<lambda>n w. (Received (take n w), drop n w)),
     net_close = (\<lambda>w. w), net_sleep = (\<lambda>_ w. w)\<rparr>"

definition sample_transport :: http_transport where
  "sample_transport = http_transport_of \<lparr>o_url = ''http://h/w'', o_connect_timeout = 2000, o_recv_timeout = 5000,
     o_max_retries = 3, o_retry_backoff_base = 2\<rparr>"

definition sample_headers :: parsed_headers where
  "sample_headers = \<lparr>ph_status_code = 206, ph_content_range = ''bytes 0-3/4'', ph_etag = ''x'', ph_last_modified = [],
     ph_transfer_encoding = [], ph_content_length = 4, ph_has_content_length = True\<rparr>"

lemma sample_head: "parse_response_head sample_response = (74, sample_headers)"
  by code_simp

lemma sample_url: "h_url sample_transport = \<lparr>u_host = ''h'', u_port = ''80'', u_path = ''/w'', u_valid = True\<rparr>"
  by (simp add: sample_transport_def http_transport_of_def) code_simp

lemma sample_net_simps:
  "net_getaddrinfo sample_net host port w = (Some [0], w)" "net_socket sample_net a w = (True, w)"
  "net_connect sample_net a w = (Connected, w)" "net_close sample_net w = w" "net_set_recv_timeout sample_net n w = w"
  "net_send sample_net text w = (int (length text), sample_response)"
  "recv sample_net n w = (Received (take n w), drop n w)"
  by (simp_all add: sample_net_def recv_def)

lemma sample_streams: "streams sample_net (\<lambda>w. w)"
  by (auto simp: streams_def sample_net_simps)

lemma sample_sent:
  "open_connection sample_net sample_transport w = (True, w)"
  "send_all sample_net (request_text sample_transport request) w = (True, sample_response)"
proof -
  show "open_connection sample_net sample_transport w = (True, w)" by (simp add: open_connection_def sample_net_simps)
  have "request_text sample_transport request \<noteq> []" by (simp add: request_text_def)
  moreover have "send_all sample_net [] w = (True, w)" for w by (subst send_all.simps) simp
  ultimately show "send_all sample_net (request_text sample_transport request) w = (True, sample_response)"
    by (simp add: send_all.simps [of sample_net "request_text sample_transport request"] sample_net_simps)
qed

lemma sample_answered: "answered sample_net sample_transport request w = Some sample_response"
  by (simp add: answered_def sample_sent)

lemma sample_content_range: "parse_content_range ''bytes 0-3/4'' = Some (0, 3, 4)"
  using content_range_roundtrip [of 0 3 4] by (simp add: print_content_range_def to_string.simps hex_digit_def)

lemma sample_judged:
  assumes "judge_head request sample_headers = (R_Ok, observed)"
  shows "rq_offset request = 0" and "rq_length request = 4"
  using judge_head_ok(3,4) [OF assms] sample_content_range by (simp_all add: sample_headers_def)

lemma sample_body: "str_bytes (slice sample_response 74 4) = [97, 98, 99, 100]"
  by code_simp

lemma sample_honest: "honest [97, 98, 99, 100] v sample_net sample_transport (\<lambda>w. w)"
  using sample_streams sample_body by (auto simp: honest_def sample_answered sample_head sample_judged slice_def)

definition sample_request :: range_request where
  "sample_request = \<lparr>rq_offset = 0, rq_length = 4, rq_destination = [0, 0, 0, 0],
     rq_expected = \<lparr>v_etag = ''x'', v_last_modified = [], v_total_size = 4\<rparr>\<rparr>"

lemma sample_head_found: "find_sub head_end sample_response = Some 70"
  by code_simp

lemma sample_length: "length sample_response = 78"
  by code_simp

lemma sample_recv_head: "recv_head sample_net [] sample_response = (Inr sample_response, [])"
proof -
  have "sample_response \<noteq> []" using sample_length by auto
  then show ?thesis by (subst recv_head.simps) (simp add: sample_net_simps sample_head_found sample_length)
qed

lemma sample_fetch_once:
  "fetch_once sample_net sample_transport sample_request w =
     (\<lparr>fr_status = R_Ok, fr_bytes = 4, fr_observed = rq_expected sample_request, fr_retries = 0\<rparr>, [97, 98, 99, 100], [])"
proof -
  have "judge_head sample_request sample_headers = (R_Ok, rq_expected sample_request)"
    by (simp add: judge_head_def sample_headers_def sample_content_range sample_request_def range_end_def has_identity_def)
  moreover have "recv_body sample_net 4 4 dest w = (R_Ok, 4, dest, w)" for dest w by (subst recv_body.simps) simp
  moreover have "put_at [0, 0, 0, 0] 0 (str_bytes (slice sample_response 74 4)) = [97, 98, 99, 100]"
    unfolding sample_body by (simp add: put_at_def)
  ultimately show ?thesis
    by (simp add: fetch_once_def exchange_def sample_net_simps(4) sample_sent sample_recv_head sample_head sample_length) (simp add: sample_request_def)
qed

lemma sample_fetch_range:
  "fetch_range sample_net sample_transport sample_request w =
     (\<lparr>fr_status = R_Ok, fr_bytes = 4, fr_observed = rq_expected sample_request, fr_retries = 0\<rparr>, [97, 98, 99, 100], [])"
proof -
  have "o_max_retries (h_options sample_transport) = Suc 2" by (simp add: sample_transport_def http_transport_of_def)
  moreover have "rq_length sample_request = 4" "length (rq_destination sample_request) = 4"
    by (simp_all add: sample_request_def)
  ultimately show ?thesis by (simp add: fetch_range_def sample_url sample_fetch_once numeral_3_eq_3)
qed



end
