(* ===== verification/Posix_Sockets.thy ===== *)
theory Posix_Sockets
  imports Http_Client
begin

text \<open>
  The socket layer of remote/http_client.hpp, in its POSIX branch: \<open>SocketHandle\<close>, the non-blocking connect and its wait,
  the receive timeout, and the classification of \<open>errno\<close>. The calls of the operating system are a parameter; together
  they make an instance of \<open>net\<close>, for which the client leaks no socket. The model covers descriptors below
  \<open>FD_SETSIZE\<close>: the code puts the descriptor into an \<open>fd_set\<close> without a check.
\<close>

section \<open>The operating system\<close>

datatype errno = EINPROGRESS | EAGAIN | EWOULDBLOCK | Other_errno nat

record timeval =
  tv_sec :: nat
  tv_usec :: nat

text \<open>
  \<open>px_select\<close> answers with its return value and \<open>FD_ISSET\<close>; \<open>px_so_error\<close> with the \<open>SO_ERROR\<close> that was stored (0 if none
  was); \<open>px_recv\<close> with its return value, what it put into the buffer, and \<open>errno\<close>.
\<close>

record 'w posix =
  px_getaddrinfo :: "string \<Rightarrow> string \<Rightarrow> 'w \<Rightarrow> nat list option \<times> 'w"
  px_socket :: "nat \<Rightarrow> 'w \<Rightarrow> int \<times> 'w"
  px_close :: "int \<Rightarrow> 'w \<Rightarrow> 'w"
  px_getfl :: "int \<Rightarrow> 'w \<Rightarrow> u32 \<times> 'w"
  px_setfl :: "int \<Rightarrow> u32 \<Rightarrow> 'w \<Rightarrow> 'w"
  px_connect :: "int \<Rightarrow> nat \<Rightarrow> 'w \<Rightarrow> (int \<times> errno) \<times> 'w"
  px_select :: "int \<Rightarrow> int \<Rightarrow> timeval \<Rightarrow> 'w \<Rightarrow> (int \<times> bool) \<times> 'w"
  px_so_error :: "int \<Rightarrow> 'w \<Rightarrow> int \<times> 'w"
  px_set_rcvtimeo :: "int \<Rightarrow> timeval \<Rightarrow> 'w \<Rightarrow> 'w"
  px_send :: "int \<Rightarrow> string \<Rightarrow> 'w \<Rightarrow> int \<times> 'w"
  px_recv :: "int \<Rightarrow> nat \<Rightarrow> 'w \<Rightarrow> (int \<times> string \<times> errno) \<times> 'w"
  px_sleep :: "nat \<Rightarrow> 'w \<Rightarrow> 'w"

definition INVALID_SOCKET :: int where "INVALID_SOCKET = -1"
definition O_NONBLOCK :: u32 where "O_NONBLOCK = 0x800"

section \<open>SocketHandle\<close>

text \<open>A handle is the descriptor it owns. Each operation returns the handle and the system.\<close>

definition handle_valid :: "int \<Rightarrow> bool" where
  "handle_valid h \<longleftrightarrow> h \<noteq> INVALID_SOCKET"

definition handle_reset :: "'w posix \<Rightarrow> int \<Rightarrow> int \<Rightarrow> 'w \<Rightarrow> int \<times> 'w" where
  "handle_reset px s h w = (s, if h \<noteq> INVALID_SOCKET then px_close px h w else w)"

text \<open>\<open>handles[i] = std::move(handles[j])\<close>.\<close>

definition handle_assign :: "'w posix \<Rightarrow> nat \<Rightarrow> nat \<Rightarrow> int list \<Rightarrow> 'w \<Rightarrow> int list \<times> 'w" where
  "handle_assign px i j hs w =
     (if i = j then (hs, w)
      else case handle_reset px INVALID_SOCKET (hs ! i) w of
        (_, w) \<Rightarrow> (hs[i := hs ! j, j := INVALID_SOCKET], w))"

section \<open>The calls of the client\<close>

definition set_nonblocking :: "'w posix \<Rightarrow> int \<Rightarrow> bool \<Rightarrow> 'w \<Rightarrow> 'w" where
  "set_nonblocking px s nonblocking w =
     (case px_getfl px s w of
        (flags, w) \<Rightarrow>
          if sint flags < 0 then w
          else px_setfl px s (if nonblocking then or flags O_NONBLOCK else and flags (not O_NONBLOCK)) w)"

definition timeval_of :: "nat \<Rightarrow> timeval" where
  "timeval_of timeout = \<lparr>tv_sec = timeout div 1000, tv_usec = (timeout mod 1000) * 1000\<rparr>"

definition wait_writable :: "'w posix \<Rightarrow> int \<Rightarrow> nat \<Rightarrow> 'w \<Rightarrow> bool \<times> 'w" where
  "wait_writable px s timeout w =
     (case px_select px (s + 1) s (timeval_of timeout) w of ((rc, is_set), w) \<Rightarrow> (rc > 0 \<and> is_set, w))"

definition connect_succeeded :: "'w posix \<Rightarrow> int \<Rightarrow> 'w \<Rightarrow> bool \<times> 'w" where
  "connect_succeeded px s w = (case px_so_error px s w of (err, w) \<Rightarrow> (err = 0, w))"

definition set_recv_timeout :: "'w posix \<Rightarrow> int \<Rightarrow> nat \<Rightarrow> 'w \<Rightarrow> 'w" where
  "set_recv_timeout px s timeout w = px_set_rcvtimeo px s (timeval_of timeout) w"

definition is_recv_timeout :: "errno \<Rightarrow> bool" where
  "is_recv_timeout err \<longleftrightarrow> err = EAGAIN \<or> err = EWOULDBLOCK"

text \<open>The connect of one candidate; a socket that is kept is made blocking again.\<close>

definition posix_connect :: "'w posix \<Rightarrow> nat \<Rightarrow> 'w \<times> int \<Rightarrow> connect_answer \<times> 'w \<times> int" where
  "posix_connect px ai = (\<lambda>(w, s).
     (case px_connect px s ai (set_nonblocking px s True w) of
        ((rc, err), w) \<Rightarrow>
          if rc = 0 then (Connected, set_nonblocking px s False w, s)
          else if err = EINPROGRESS then (In_progress, w, s)
          else (Connect_error, w, s)))"

definition posix_finish_connect :: "'w posix \<Rightarrow> 'w \<times> int \<Rightarrow> bool \<times> 'w \<times> int" where
  "posix_finish_connect px = (\<lambda>(w, s).
     (case connect_succeeded px s w of
        (ok, w) \<Rightarrow> (ok, if ok then set_nonblocking px s False w else w, s)))"

definition posix_recv :: "'w posix \<Rightarrow> nat \<Rightarrow> 'w \<times> int \<Rightarrow> recv_answer \<times> 'w \<times> int" where
  "posix_recv px want = (\<lambda>(w, s).
     (case px_recv px s want w of
        ((received, data, err), w) \<Rightarrow>
          (if received = 0 then Received []
           else if received < 0 then (if is_recv_timeout err then Recv_timeout else Recv_error)
           else Received (take (nat received) data), w, s)))"

text \<open>The calls as the client makes them; the state carries the descriptor of the one live handle.\<close>

definition posix_net :: "'w posix \<Rightarrow> ('w \<times> int) net" where
  "posix_net px =
     \<lparr>net_getaddrinfo = (\<lambda>host port (w, s). case px_getaddrinfo px host port w of (ais, w) \<Rightarrow> (ais, w, s)),
      net_socket = (\<lambda>ai (w, s). case px_socket px ai w of (fd, w) \<Rightarrow> (handle_valid fd, w, fd)),
      net_connect = posix_connect px,
      net_wait_writable = (\<lambda>ai timeout (w, s). case wait_writable px s timeout w of (ok, w) \<Rightarrow> (ok, w, s)),
      net_connect_succeeded = (\<lambda>ai. posix_finish_connect px),
      net_set_recv_timeout = (\<lambda>timeout (w, s). (set_recv_timeout px s timeout w, s)),
      net_send = (\<lambda>data (w, s). case px_send px s data w of (sent, w) \<Rightarrow> (sent, w, s)),
      net_recv = posix_recv px,
      net_close = (\<lambda>(w, s). case handle_reset px INVALID_SOCKET s w of (s, w) \<Rightarrow> (w, s)),
      net_sleep = (\<lambda>n (w, s). (px_sleep px n w, s))\<rparr>"

section \<open>Every socket is closed\<close>

text \<open>
  What the client needs to account for its sockets: a successful \<open>socket\<close> leads from \<open>idle\<close> to \<open>busy\<close>, \<open>close\<close> back, and
  no other call leaves either.
\<close>

locale socket_account =
  fixes net :: "'w net" and idle :: "'w \<Rightarrow> bool" and busy :: "'w \<Rightarrow> bool"
  assumes resolves: "idle w \<Longrightarrow> net_getaddrinfo net host port w = (ais, w') \<Longrightarrow> idle w'"
    and refused: "idle w \<Longrightarrow> net_socket net ai w = (False, w') \<Longrightarrow> idle w'"
    and opened: "idle w \<Longrightarrow> net_socket net ai w = (True, w') \<Longrightarrow> busy w'"
    and connects: "busy w \<Longrightarrow> net_connect net ai w = (answer, w') \<Longrightarrow> busy w'"
    and waits: "busy w \<Longrightarrow> net_wait_writable net ai timeout w = (ok, w') \<Longrightarrow> busy w'"
    and finishes: "busy w \<Longrightarrow> net_connect_succeeded net ai w = (ok, w') \<Longrightarrow> busy w'"
    and timeouts: "busy w \<Longrightarrow> busy (net_set_recv_timeout net timeout w)"
    and sends: "busy w \<Longrightarrow> net_send net data w = (sent, w') \<Longrightarrow> busy w'"
    and receives: "busy w \<Longrightarrow> net_recv net want w = (got, w') \<Longrightarrow> busy w'"
    and closes: "busy w \<Longrightarrow> idle (net_close net w)"
    and sleeps: "idle w \<Longrightarrow> idle (net_sleep net n w)"
begin

lemma connect_loop_account:
  assumes "connect_loop net timeout ais w = (ok, w')" and "idle w"
  shows "if ok then busy w' else idle w'"
  using assms
proof (induction ais arbitrary: w)
  case (Cons ai ais)
  obtain fresh w1 where s: "net_socket net ai w = (fresh, w1)" by fastforce
  obtain answer w2 where c: "net_connect net ai w1 = (answer, w2)" by fastforce
  obtain writable w3 where ww: "net_wait_writable net ai timeout w2 = (writable, w3)" by fastforce
  obtain up w4 where f: "net_connect_succeeded net ai w3 = (up, w4)" by fastforce
  note next_one = Cons.IH [OF _ closes] and run = Cons.prems(1)
  show ?case
  proof (cases fresh)
    case False
    then have "idle w1" "connect_loop net timeout ais w1 = (ok, w')" using run s refused [OF Cons.prems(2)] by simp_all
    then show ?thesis using Cons.IH by blast
  next
    case True
    then have 1: "busy w1" using opened [OF Cons.prems(2)] s by simp
    note 2 = connects [OF 1 c] and 3 = waits [OF connects [OF 1 c] ww] and 4 = finishes [OF waits [OF connects [OF 1 c] ww] f]
    show ?thesis
    proof (cases answer)
      case Connected
      then show ?thesis using run True s c 2 by simp
    next
      case In_progress
      then show ?thesis using run True s c ww f next_one [OF _ 3] next_one [OF _ 4] 4 by (cases writable; cases up) auto
    next
      case Connect_error
      then show ?thesis using run True s c next_one [OF _ 2] by simp
    qed
  qed
qed simp

lemma open_connection_account:
  assumes "open_connection net t w = (ok, w')" and "idle w"
  shows "if ok then busy w' else idle w'"
proof -
  obtain ais w1 where r: "net_getaddrinfo net (u_host (h_url t)) (u_port (h_url t)) w = (ais, w1)" by fastforce
  note 1 = resolves [OF assms(2) r]
  show ?thesis
  proof (cases "ais = None \<or> ais = Some []")
    case True
    then show ?thesis using assms(1) r 1 by (auto simp: open_connection_def)
  next
    case False
    then obtain list where a: "ais = Some list" "list \<noteq> []" by auto
    obtain up w2 where c: "connect_loop net (o_connect_timeout (h_options t)) list w1 = (up, w2)" by fastforce
    show ?thesis
      using assms(1) r a c connect_loop_account [OF c 1] timeouts [of w2] by (cases up) (auto simp: open_connection_def)
  qed
qed

lemma send_all_account:
  assumes "send_all net unsent w = (ok, w')" and "busy w"
  shows "busy w'"
  using assms
proof (induction "length unsent" arbitrary: unsent w rule: less_induct)
  case less
  obtain sent w1 where s: "net_send net unsent w = (sent, w1)" by fastforce
  have 1: "busy w1" by (rule sends [OF less.prems(2) s])
  show ?case
  proof (cases "unsent = [] \<or> sent \<le> 0")
    case True
    then show ?thesis using less.prems s 1 by (auto simp: send_all.simps [of net unsent w] split: if_splits)
  next
    case False
    then have "send_all net (drop (nat sent) unsent) w1 = (ok, w')"
      using less.prems(1) s by (simp add: send_all.simps [of net unsent w])
    then show ?thesis using less.hyps [of "drop (nat sent) unsent"] False 1 by simp
  qed
qed

lemma recv_account: "recv net want w = (answer, w') \<Longrightarrow> busy w \<Longrightarrow> busy w'"
  using receives [of w want "fst (net_recv net want w)" "snd (net_recv net want w)"]
  by (auto simp: recv_def split: prod.splits recv_answer.splits)

lemma recv_head_account:
  assumes "recv_head net buffer w = (r, w')" and "busy w"
  shows "busy w'"
  using assms
proof (induction "max_head + 1 - length buffer" arbitrary: buffer w rule: less_induct)
  case less
  obtain answer w1 where a: "recv net 4096 w = (answer, w1)" by fastforce
  have 1: "busy w1" by (rule recv_account [OF a less.prems(2)])
  show ?case
  proof (cases "\<exists>data. answer = Received data \<and> data \<noteq> [] \<and> find_sub head_end (buffer @ data) = None \<and>
      length (buffer @ data) \<le> max_head")
    case True
    then obtain data where d: "answer = Received data" "data \<noteq> []" "find_sub head_end (buffer @ data) = None"
      "length (buffer @ data) \<le> max_head" by blast
    then have step: "recv_head net (buffer @ data) w1 = (r, w')"
      using less.prems(1) a by (simp add: recv_head.simps [of net buffer w])
    have "max_head + 1 - length (buffer @ data) < max_head + 1 - length buffer" using d(2,4) by (cases data) auto
    then show ?thesis using less.hyps [OF _ step 1] by blast
  next
    case False
    then show ?thesis
      using less.prems(1) a 1 by (auto simp: recv_head.simps [of net buffer w] split: recv_answer.splits if_splits)
  qed
qed

lemma recv_body_account:
  assumes "recv_body net len have_n dest w = (st, n, dest', w')" and "busy w"
  shows "busy w'"
  using assms
proof (induction "len - have_n" arbitrary: have_n dest w rule: less_induct)
  case less
  obtain answer w1 where a: "recv net (min 4096 (len - have_n)) w = (answer, w1)" by fastforce
  have 1: "busy w1" by (rule recv_account [OF a less.prems(2)])
  show ?case
  proof (cases "have_n < len \<and> (\<exists>data. answer = Received data \<and> data \<noteq> [])")
    case True
    then obtain data where d: "have_n < len" "answer = Received data" "data \<noteq> []" by blast
    then have step: "recv_body net len (have_n + length data) (put_at dest have_n (str_bytes data)) w1 = (st, n, dest', w')"
      using less.prems(1) a by (simp add: recv_body.simps [of net len have_n dest w])
    have "len - (have_n + length data) < len - have_n" using d(1,3) by (cases data) auto
    then show ?thesis using less.hyps [OF _ step 1] by blast
  next
    case False
    then show ?thesis
      using less.prems a 1
      by (auto simp: recv_body.simps [of net len have_n dest w] split: recv_answer.splits if_splits)
  qed
qed

lemma exchange_account:
  assumes "exchange net t request w = (result, dest, w')" and "busy w"
  shows "busy w'"
proof -
  obtain sent w1 where s: "send_all net (request_text t request) w = (sent, w1)" by fastforce
  obtain r w2 where h: "recv_head net [] w1 = (r, w2)" by fastforce
  have 1: "busy w1" by (rule send_all_account [OF s assms(2)])
  have 2: "busy w2" by (rule recv_head_account [OF h 1])
  show ?thesis using assms(1) s h 1 2 recv_body_account [OF _ 2]
    by (auto simp: exchange_def Let_def split: bool.splits sum.splits prod.splits if_splits)
qed

lemma fetch_once_account:
  assumes "fetch_once net t request w = (result, dest, w')" and "idle w"
  shows "idle w'"
proof -
  obtain ok w1 where c: "open_connection net t w = (ok, w1)" by fastforce
  obtain r d w2 where x: "exchange net t request w1 = (r, d, w2)" by (metis prod_cases3)
  show ?thesis
    using assms(1) c x open_connection_account [OF c assms(2)] closes [OF exchange_account [OF x]]
    by (cases ok) (auto simp: fetch_once_def)
qed

lemma fetch_loop_account:
  assumes "fetch_loop net t left retries request w = (result, dest, w')" and "idle w"
  shows "idle w'"
  using assms
proof (induction left arbitrary: retries request w)
  case 0
  obtain r d w1 where once: "fetch_once net t request w = (r, d, w1)" by (metis prod_cases3)
  show ?case using 0 once fetch_once_account [OF once] by (auto simp: Let_def split: if_splits)
next
  case (Suc left)
  obtain r d w1 where once: "fetch_once net t request w = (r, d, w1)" by (metis prod_cases3)
  have 1: "idle w1" by (rule fetch_once_account [OF once Suc.prems(2)])
  show ?case
  proof (cases "fr_status r = R_Ok \<or> \<not> is_transient (fr_status r)")
    case True
    then show ?thesis using Suc.prems(1) once 1 by (auto simp: Let_def)
  next
    case False
    then show ?thesis
      using Suc.prems(1) once Suc.IH [OF _ sleeps [OF 1]] by (simp add: Let_def)
  qed
qed

lemma fetch_range_account:
  "fetch_range net t request w = (result, dest, w') \<Longrightarrow> idle w \<Longrightarrow> idle w'"
  using fetch_loop_account by (auto simp: fetch_range_def split: if_splits)

end


section \<open>POSIX sockets\<close>

text \<open>
  What POSIX says of the calls the client makes, with \<open>live w\<close> the descriptors open in \<open>w\<close>: \<open>socket\<close> returns a descriptor
  that was not open, \<open>close\<close> closes its argument, and nothing else opens or closes a descriptor.
\<close>

definition posix_ok :: "'w posix \<Rightarrow> ('w \<Rightarrow> int set) \<Rightarrow> bool" where
  "posix_ok px live \<longleftrightarrow>
     (\<forall>ai w fd w'. px_socket px ai w = (fd, w') \<longrightarrow>
        (if fd = INVALID_SOCKET then live w' = live w else fd \<notin> live w \<and> live w' = insert fd (live w))) \<and>
     (\<forall>fd w. live (px_close px fd w) = live w - {fd}) \<and>
     (\<forall>host port w. live (snd (px_getaddrinfo px host port w)) = live w) \<and>
     (\<forall>fd w. live (snd (px_getfl px fd w)) = live w) \<and> (\<forall>fd flags w. live (px_setfl px fd flags w) = live w) \<and>
     (\<forall>fd ai w. live (snd (px_connect px fd ai w)) = live w) \<and> (\<forall>n fd tv w. live (snd (px_select px n fd tv w)) = live w) \<and>
     (\<forall>fd w. live (snd (px_so_error px fd w)) = live w) \<and> (\<forall>fd tv w. live (px_set_rcvtimeo px fd tv w) = live w) \<and>
     (\<forall>fd data w. live (snd (px_send px fd data w)) = live w) \<and> (\<forall>fd n w. live (snd (px_recv px fd n w)) = live w) \<and>
     (\<forall>n w. live (px_sleep px n w) = live w)"

lemma posix_okD:
  assumes "posix_ok px live"
  shows "px_socket px ai w = (fd, w') \<Longrightarrow>
      (if fd = INVALID_SOCKET then live w' = live w else fd \<notin> live w \<and> live w' = insert fd (live w))"
    and "live (px_close px fd w) = live w - {fd}" and "px_getaddrinfo px host port w = (ais, w') \<Longrightarrow> live w' = live w"
    and "px_getfl px fd w = (flags, w') \<Longrightarrow> live w' = live w" and "live (px_setfl px fd flags w) = live w"
    and "px_connect px fd ai w = (answer, w') \<Longrightarrow> live w' = live w" and "px_select px nfds fd tv w = (sel, w') \<Longrightarrow> live w' = live w"
    and "px_so_error px fd w = (err, w') \<Longrightarrow> live w' = live w" and "live (px_set_rcvtimeo px fd tv w) = live w"
    and "px_send px fd data w = (sent, w') \<Longrightarrow> live w' = live w" and "px_recv px fd n w = (got, w') \<Longrightarrow> live w' = live w"
    and "live (px_sleep px k w) = live w"
  using assms unfolding posix_ok_def by (metis snd_conv)+

definition sockets_idle :: "'w posix \<Rightarrow> ('w \<Rightarrow> int set) \<Rightarrow> int set \<Rightarrow> 'w \<times> int \<Rightarrow> bool" where
  "sockets_idle px live fds = (\<lambda>(w, s). posix_ok px live \<and> s = INVALID_SOCKET \<and> live w = fds)"

definition sockets_busy :: "'w posix \<Rightarrow> ('w \<Rightarrow> int set) \<Rightarrow> int set \<Rightarrow> 'w \<times> int \<Rightarrow> bool" where
  "sockets_busy px live fds = (\<lambda>(w, s). posix_ok px live \<and> s \<noteq> INVALID_SOCKET \<and> s \<notin> fds \<and> live w = insert s fds)"

lemma set_nonblocking_live: "posix_ok px live \<Longrightarrow> live (set_nonblocking px s b w) = live w"
  using posix_okD(4) [of px live s w] posix_okD(5) [of px live]
  by (auto simp: set_nonblocking_def split: prod.split)

interpretation posix: socket_account "posix_net px" "sockets_idle px live fds" "sockets_busy px live fds" for px live fds
proof (unfold_locales, goal_cases)
  case (4 w ai answer w')
  then have ok: "posix_ok px live" by (auto simp: sockets_busy_def)
  show ?case using 4 set_nonblocking_live [OF ok]
    by (auto simp: sockets_busy_def posix_net_def posix_connect_def split: prod.splits if_splits dest!: posix_okD(6) [OF ok])
next
  case (6 w ai ok w')
  then have ok: "posix_ok px live" by (auto simp: sockets_busy_def)
  show ?case using 6 set_nonblocking_live [OF ok]
    by (auto simp: sockets_busy_def posix_net_def posix_finish_connect_def connect_succeeded_def
      split: prod.splits if_splits dest!: posix_okD(8) [OF ok])
qed (auto simp: sockets_idle_def sockets_busy_def posix_net_def handle_valid_def handle_reset_def wait_writable_def
    set_recv_timeout_def posix_recv_def posix_okD(2,9,12)
    split: prod.splits if_splits dest: posix_okD(1,3,7,10,11))

text \<open>The waits of the client are the timeouts it was given.\<close>

lemma timeval_of_exact:
  "tv_usec (timeval_of timeout) < 1000000 \<and>
   1000000 * tv_sec (timeval_of timeout) + tv_usec (timeval_of timeout) = 1000 * timeout"
proof -
  have "timeout = 1000 * (timeout div 1000) + timeout mod 1000" by simp
  moreover have "timeout mod 1000 < 1000" by simp
  ultimately show ?thesis unfolding timeval_of_def timeval.simps by linarith
qed

text \<open>
  C34. A fetch leaks no socket. However the connection attempts, the transfer and the retries of a
  \<open>fetch_range\<close> over POSIX sockets end, afterwards exactly those descriptors are open that were open before.
\<close>

theorem fetch_leaks_no_socket:
  assumes "posix_ok px live" and "fetch_range (posix_net px) t request (w, INVALID_SOCKET) = (result, buf, w', s)"
  shows "live w' = live w \<and> s = INVALID_SOCKET"
  using posix.fetch_range_account [where live = live and fds = "live w", OF assms(2)] assms(1) by (simp add: sockets_idle_def)

text \<open>A system with one descriptor, whose peer answers every request with the same response.\<close>

definition sample_posix :: "(bool \<times> string) posix" where
  "sample_posix =
     \<lparr>px_getaddrinfo = (\<lambda>_ _ w. (Some [0], w)),
      px_socket = (\<lambda>_ (busy, inbox). if busy then (-1, busy, inbox) else (3, True, inbox)),
      px_close = (\<lambda>fd (busy, inbox). (busy \<and> fd \<noteq> 3, inbox)),
      px_getfl = (\<lambda>_ w. (2, w)), px_setfl = (\<lambda>_ _ w. w),
      px_connect = (\<lambda>_ _ w. ((-1, EINPROGRESS), w)), px_select = (\<lambda>_ _ _ w. ((1, True), w)), px_so_error = (\<lambda>_ w. (0, w)),
      px_set_rcvtimeo = (\<lambda>_ _ w. w), px_send = (\<lambda>_ data (busy, _). (int (length data), busy, sample_response)),
      px_recv = (\<lambda>_ n (busy, inbox). ((int (length (take n inbox)), take n inbox, EAGAIN), busy, drop n inbox)),
      px_sleep = (\<lambda>_ w. w)\<rparr>"

definition sample_live :: "bool \<times> string \<Rightarrow> int set" where
  "sample_live = (\<lambda>(busy, _). if busy then {3} else {})"

lemma sample_posix_ok: "posix_ok sample_posix sample_live"
  by (auto simp: posix_ok_def sample_posix_def sample_live_def INVALID_SOCKET_def)

theorem fetch_leaks_no_socket_witness:
  "case fetch_range (posix_net sample_posix) sample_transport sample_request ((False, []), INVALID_SOCKET) of
     (result, buf, w', s) \<Rightarrow> sample_live w' = {} \<and> s = INVALID_SOCKET"
  using fetch_leaks_no_socket [OF sample_posix_ok, of sample_transport sample_request "(False, [])"]
  by (auto simp: sample_live_def split: prod.split)

end
