(* ===== verification/Ring_Queue.thy ===== *)
theory Ring_Queue
  imports Cache_Prelude
begin

text \<open>
  The bounded queue that \<open>MirrorBackend\<close> keeps in a fixed ring of cells: the interface as a locale, and the ring.
\<close>

section \<open>The interface\<close>

text \<open>
  A bounded first-in first-out queue: \<open>items\<close> is its contents, oldest first, and \<open>room\<close> the number of items it may
  still take.
\<close>

locale bounded_fifo =
  fixes push :: "'a \<Rightarrow> 'q \<Rightarrow> 'q" and front :: "'q \<Rightarrow> 'a" and pop :: "'q \<Rightarrow> 'q"
    and items :: "'q \<Rightarrow> 'a list" and capacity :: "'q \<Rightarrow> nat" and invar :: "'q \<Rightarrow> bool"
  assumes items_push: "invar q \<Longrightarrow> length (items q) < capacity q \<Longrightarrow> items (push x q) = items q @ [x]"
    and invar_push: "invar q \<Longrightarrow> length (items q) < capacity q \<Longrightarrow> invar (push x q)"
    and capacity_push: "capacity (push x q) = capacity q"
    and items_pop: "invar q \<Longrightarrow> items q \<noteq> [] \<Longrightarrow> items (pop q) = tl (items q)"
    and invar_pop: "invar q \<Longrightarrow> items q \<noteq> [] \<Longrightarrow> invar (pop q)"
    and capacity_pop: "capacity (pop q) = capacity q"
    and front_hd: "invar q \<Longrightarrow> items q \<noteq> [] \<Longrightarrow> front q = hd (items q)"
    and items_bounded: "invar q \<Longrightarrow> length (items q) \<le> capacity q"
begin

lemma front_pop:
  "invar q \<Longrightarrow> items q \<noteq> [] \<Longrightarrow> items q = front q # items (pop q)"
  by (simp add: items_pop front_hd)

lemma push_pop_commute:
  assumes "invar q" and "items q \<noteq> []" and "length (items q) < capacity q"
  shows "items (pop (push x q)) = items (push x (pop q))" and "front (push x q) = front q"
proof -
  have "length (items (pop q)) < capacity (pop q)" using assms by (simp add: items_pop capacity_pop less_imp_diff_less)
  then show "items (pop (push x q)) = items (push x (pop q))"
    using assms by (simp add: items_push items_pop invar_push invar_pop)
  show "front (push x q) = front q"
    using assms by (simp add: front_hd items_push invar_push)
qed

end

section \<open>The ring\<close>

record 'a ring =
  cells :: "'a list"
  ring_head :: nat
  ring_size :: nat

definition ring_new :: "nat \<Rightarrow> 'a \<Rightarrow> 'a ring" where
  "ring_new n blank = \<lparr>cells = replicate n blank, ring_head = 0, ring_size = 0\<rparr>"

definition ring_full :: "'a ring \<Rightarrow> bool" where
  "ring_full r \<longleftrightarrow> ring_size r = length (cells r)"

definition ring_push :: "'a \<Rightarrow> 'a ring \<Rightarrow> 'a ring" where
  "ring_push x r =
     r\<lparr>cells := (cells r)[(ring_head r + ring_size r) mod length (cells r) := x], ring_size := ring_size r + 1\<rparr>"

definition ring_front :: "'a ring \<Rightarrow> 'a" where
  "ring_front r = cells r ! ring_head r"

definition ring_pop :: "'a ring \<Rightarrow> 'a ring" where
  "ring_pop r = r\<lparr>ring_head := (ring_head r + 1) mod length (cells r), ring_size := ring_size r - 1\<rparr>"

definition ring_items :: "'a ring \<Rightarrow> 'a list" where
  "ring_items r = map (\<lambda>i. cells r ! ((ring_head r + i) mod length (cells r))) [0 ..< ring_size r]"

definition ring_ok :: "'a ring \<Rightarrow> bool" where
  "ring_ok r \<longleftrightarrow> 0 < length (cells r) \<and> ring_head r < length (cells r) \<and> ring_size r \<le> length (cells r)"

text \<open>\<open>while (ring_size_ != 0)\<close> of \<open>shutdown\<close>: take everything out, oldest first.\<close>

function ring_drain :: "'a ring \<Rightarrow> 'a list \<times> 'a ring" where
  "ring_drain r =
     (if ring_size r = 0 then ([], r)
      else case ring_drain (ring_pop r) of (queued, r') \<Rightarrow> (ring_front r # queued, r'))"
  by pat_completeness auto
termination
  by (relation "measure ring_size") (auto simp: ring_pop_def)

declare ring_drain.simps [simp del]

lemma length_ring_items [simp]: "length (ring_items r) = ring_size r"
  by (simp add: ring_items_def)

lemma ring_items_Nil: "ring_items r = [] \<longleftrightarrow> ring_size r = 0"
  by (simp add: ring_items_def)

lemma ring_cell_other:
  assumes "i < k" and "k < n" shows "(h + i) mod n \<noteq> (h + k) mod (n :: nat)"
proof
  assume "(h + i) mod n = (h + k) mod n"
  then have "n dvd (h + k) - (h + i)" using assms by (metis mod_eq_dvd_iff_nat add_le_cancel_left less_imp_le_nat)
  then show False using assms by (auto dest: dvd_imp_le)
qed

interpretation ring: bounded_fifo ring_push ring_front ring_pop ring_items "\<lambda>r. length (cells r)" ring_ok
proof
  fix q :: "'a ring" and x
  assume q: "ring_ok q"
  show "ring_ok (ring_push x q)" if "length (ring_items q) < length (cells q)"
    using q that by (simp add: ring_ok_def ring_push_def)
  show "ring_items (ring_push x q) = ring_items q @ [x]" if room: "length (ring_items q) < length (cells q)"
  proof -
    let ?n = "length (cells q)" and ?k = "ring_size q" and ?h = "ring_head q"
    have "(cells q)[(?h + ?k) mod ?n := x] ! ((?h + i) mod ?n) = cells q ! ((?h + i) mod ?n)" if "i < ?k" for i
      using ring_cell_other [OF that, of ?n ?h] room by (metis length_ring_items nth_list_update_neq)
    moreover have "(?h + ?k) mod ?n < ?n" using q by (simp add: ring_ok_def)
    ultimately show ?thesis by (simp add: ring_items_def ring_push_def)
  qed
  show "length (ring_items q) \<le> length (cells q)" using q by (simp add: ring_ok_def)
  assume ne: "ring_items q \<noteq> []"
  then have pos: "0 < ring_size q" by (simp add: ring_items_Nil)
  then have up: "[0 ..< ring_size q] = 0 # map Suc [0 ..< ring_size q - 1]"
    by (metis Suc_pred' map_Suc_upt upt_conv_Cons)
  show "ring_ok (ring_pop q)" using q by (auto simp: ring_ok_def ring_pop_def)
  show "ring_items (ring_pop q) = tl (ring_items q)"
    unfolding ring_items_def up by (simp add: ring_pop_def mod_simps comp_def)
  show "ring_front q = hd (ring_items q)"
    unfolding ring_items_def up using q by (simp add: ring_front_def ring_ok_def)
qed (simp_all add: ring_push_def ring_pop_def)

lemma ring_drain_items:
  "ring_ok r \<Longrightarrow> ring_drain r = (queued, r') \<Longrightarrow> queued = ring_items r \<and> ring_items r' = [] \<and> ring_ok r'"
proof (induction r arbitrary: queued rule: ring_drain.induct)
  case (1 r)
  show ?case
  proof (cases "ring_size r = 0")
    case True
    then show ?thesis using 1(2,3) by (auto simp: ring_drain.simps [of r] ring_items_def)
  next
    case False
    then have ne: "ring_items r \<noteq> []" by (simp add: ring_items_Nil)
    obtain qs where "ring_drain (ring_pop r) = (qs, r')" "queued = ring_front r # qs"
      using 1(3) False by (auto simp: ring_drain.simps [of r] split: prod.splits)
    then show ?thesis
      using 1(1) [OF False ring.invar_pop [OF 1(2) ne]] ring.front_pop [OF 1(2) ne] by simp
  qed
qed

lemma ring_new_ok: "0 < n \<Longrightarrow> ring_ok (ring_new n blank)" "ring_items (ring_new n blank) = []"
  by (simp_all add: ring_ok_def ring_new_def ring_items_def)

end
