(* ===== verification/Mirror_Backend.thy ===== *)
theory Mirror_Backend
  imports Ring_Queue Mirror Table_Config "HOL-Library.Multiset"
begin

text \<open>
  remote/mirror_backend.hpp: the fill backend over registered mirrors. What runs under \<open>mutex_\<close> is one function; the
  interleaving of submitters, workers and \<open>shutdown\<close> is a step relation. A \<open>Mirror*\<close> is a number, and the reader (\<open>read\<close>
  of the mirror with that number) is a parameter with the state \<open>'m\<close> of all mirrors. \<open>sink.deliver\<close> appends to a log.
\<close>

section \<open>State\<close>

record backend_config =
  bc_workers :: u32
  bc_queue_capacity :: u32
  bc_max_sources :: u32

record backend_stats =
  bk_accepted :: nat
  bk_rejected_queue_full :: nat
  bk_completed_ok :: nat
  bk_short_reads :: nat
  bk_errors :: nat
  bk_cancelled :: nat
  bk_bytes_read :: nat
  bk_queue_high_water :: nat
  bk_in_flight :: nat

definition zero_backend_stats :: backend_stats where
  "zero_backend_stats = \<lparr>bk_accepted = 0, bk_rejected_queue_full = 0, bk_completed_ok = 0, bk_short_reads = 0,
     bk_errors = 0, bk_cancelled = 0, bk_bytes_read = 0, bk_queue_high_water = 0, bk_in_flight = 0\<rparr>"

text \<open>\<open>sub0mempage::FillRequest\<close>: the fields the backend uses, the token standing for the sink too.\<close>

record fill_request =
  fq_source :: source_id
  fq_offset :: u64
  fq_destination :: bytes
  fq_token :: nat

record work_item =
  wi_request :: fill_request
  wi_mirror :: "nat option"

record backend =
  bk_sources :: "(source_id \<times> nat) list"
  bk_max_sources :: nat
  bk_ring :: "work_item ring"
  bk_shutting_down :: bool
  bk_stats :: backend_stats

definition blank_item :: work_item where
  "blank_item = \<lparr>wi_request = \<lparr>fq_source = 0, fq_offset = 0, fq_destination = [], fq_token = 0\<rparr>, wi_mirror = None\<rparr>"

section \<open>Operations\<close>

definition backend_create :: "backend_config \<Rightarrow> mp_status + backend" where
  "backend_create cfg =
     (if bc_workers cfg = 0 \<or> bc_queue_capacity cfg = 0 \<or> bc_max_sources cfg = 0 then Inl MP_Invalid_argument
      else Inr \<lparr>bk_sources = [], bk_max_sources = unat (bc_max_sources cfg),
                bk_ring = ring_new (unat (bc_queue_capacity cfg)) blank_item, bk_shutting_down = False,
                bk_stats = zero_backend_stats\<rparr>)"

definition register_mirror :: "source_id \<Rightarrow> nat \<Rightarrow> backend \<Rightarrow> mp_status \<times> backend" where
  "register_mirror source mirror b =
     (if (\<exists>entry \<in> set (bk_sources b). fst entry = source) then (MP_Invalid_argument, b)
      else if length (bk_sources b) = bk_max_sources b then (MP_Ticket_exhausted, b)
      else (MP_Ok, b\<lparr>bk_sources := bk_sources b @ [(source, mirror)]\<rparr>))"

definition find_source_locked :: "source_id \<Rightarrow> backend \<Rightarrow> nat option" where
  "find_source_locked source b = map_of (bk_sources b) source"

definition count_in :: "(backend_stats \<Rightarrow> backend_stats) \<Rightarrow> backend \<Rightarrow> backend" where
  "count_in f b = b\<lparr>bk_stats := f (bk_stats b)\<rparr>"

definition submit :: "fill_request \<Rightarrow> backend \<Rightarrow> bool \<times> backend" where
  "submit request b =
     (if bk_shutting_down b \<or> ring_full (bk_ring b)
      then (False, count_in (\<lambda>s. s\<lparr>bk_rejected_queue_full := bk_rejected_queue_full s + 1\<rparr>) b)
      else
        let item = \<lparr>wi_request = request, wi_mirror = find_source_locked (fq_source request) b\<rparr>;
            r = ring_push item (bk_ring b)
        in (True, count_in (\<lambda>s. s\<lparr>bk_accepted := bk_accepted s + 1,
                     bk_queue_high_water := max (bk_queue_high_water s) (ring_size r)\<rparr>) (b\<lparr>bk_ring := r\<rparr>)))"

text \<open>The locked section of \<open>worker_loop\<close>, once the wait is over and the queue is not empty.\<close>

definition take_item :: "backend \<Rightarrow> work_item \<times> backend" where
  "take_item b =
     (ring_front (bk_ring b),
      count_in (\<lambda>s. s\<lparr>bk_in_flight := bk_in_flight s + 1\<rparr>) (b\<lparr>bk_ring := ring_pop (bk_ring b)\<rparr>))"

text \<open>The worker leaves its loop when the wait is over and the queue is empty.\<close>

definition worker_exits :: "backend \<Rightarrow> bool" where
  "worker_exits b \<longleftrightarrow> (ring_size (bk_ring b) \<noteq> 0 \<or> bk_shutting_down b) \<and> ring_size (bk_ring b) = 0"

type_synonym 'm reader = "nat \<Rightarrow> u64 \<Rightarrow> u64 \<Rightarrow> bytes \<Rightarrow> 'm \<Rightarrow> remote_status \<times> nat \<times> bytes \<times> 'm"

record completion =
  co_token :: nat
  co_status :: mp_status
  co_bytes :: nat

text \<open>\<open>perform\<close> up to the delivery: the completion, the destination's contents and the mirrors afterwards.\<close>

definition perform :: "'m reader \<Rightarrow> work_item \<Rightarrow> 'm \<Rightarrow> completion \<times> bytes \<times> 'm" where
  "perform read item m =
     (let request = wi_request item; dest = fq_destination request in
      case wi_mirror item of
        None \<Rightarrow> (\<lparr>co_token = fq_token request, co_status = MP_Invalid_argument, co_bytes = 0\<rparr>, dest, m)
      | Some mirror \<Rightarrow>
          (case read mirror (fq_offset request) (of_nat (length dest)) dest m of
             (status, bytes, dest, m) \<Rightarrow>
               (if status = R_Ok then \<lparr>co_token = fq_token request, co_status = MP_Ok, co_bytes = bytes\<rparr>
                else if status = R_Truncated then \<lparr>co_token = fq_token request, co_status = MP_Ok, co_bytes = bytes\<rparr>
                else \<lparr>co_token = fq_token request, co_status = MP_Io_error, co_bytes = 0\<rparr>, dest, m)))"

text \<open>The locked section at the end of \<open>perform\<close>.\<close>

definition settle :: "work_item \<Rightarrow> completion \<Rightarrow> backend \<Rightarrow> backend" where
  "settle item c b =
     (if wi_mirror item = None
      then count_in (\<lambda>s. s\<lparr>bk_errors := bk_errors s + 1, bk_in_flight := bk_in_flight s - 1\<rparr>) b
      else
        let b = count_in (\<lambda>s. s\<lparr>bk_bytes_read := bk_bytes_read s + co_bytes c, bk_in_flight := bk_in_flight s - 1\<rparr>) b in
        if co_status c \<noteq> MP_Ok then count_in (\<lambda>s. s\<lparr>bk_errors := bk_errors s + 1\<rparr>) b
        else if co_bytes c = length (fq_destination (wi_request item))
        then count_in (\<lambda>s. s\<lparr>bk_completed_ok := bk_completed_ok s + 1\<rparr>) b
        else count_in (\<lambda>s. s\<lparr>bk_short_reads := bk_short_reads s + 1\<rparr>) b)"

text \<open>The locked section of \<open>shutdown\<close>: \<open>None\<close> when an earlier call has shut down already.\<close>

definition shutdown_begin :: "backend \<Rightarrow> (work_item list \<times> backend) option" where
  "shutdown_begin b =
     (if bk_shutting_down b then None
      else case ring_drain (bk_ring b) of
             (queued, r) \<Rightarrow> Some (queued, b\<lparr>bk_shutting_down := True, bk_ring := r\<rparr>))"

definition cancelled_completion :: "work_item \<Rightarrow> completion" where
  "cancelled_completion item = \<lparr>co_token = fq_token (wi_request item), co_status = MP_Cancelled, co_bytes = 0\<rparr>"

definition count_cancelled :: "backend \<Rightarrow> backend" where
  "count_cancelled b = count_in (\<lambda>s. s\<lparr>bk_cancelled := bk_cancelled s + 1\<rparr>) b"

section \<open>Threads\<close>

text \<open>
  The backend with its threads: items a worker has taken and not delivered, deliveries whose statistics are outstanding,
  items \<open>shutdown\<close> has drained and not cancelled, cancellations not counted yet, the log of deliveries, and the tokens in
  the order they were accepted and taken out of the queue.
\<close>

record 'm bsys =
  bs_backend :: backend
  bs_mirrors :: 'm
  bs_taken :: "work_item list"
  bs_settling :: "(work_item \<times> completion) list"
  bs_cancelling :: "work_item list"
  bs_uncounted :: nat
  bs_log :: "completion list"
  bs_accepted :: "nat list"
  bs_dequeued :: "nat list"

definition bsys_init :: "backend \<Rightarrow> 'm \<Rightarrow> 'm bsys" where
  "bsys_init b m = \<lparr>bs_backend = b, bs_mirrors = m, bs_taken = [], bs_settling = [], bs_cancelling = [],
     bs_uncounted = 0, bs_log = [], bs_accepted = [], bs_dequeued = []\<rparr>"

abbreviation token_of :: "work_item \<Rightarrow> nat" where
  "token_of item \<equiv> fq_token (wi_request item)"

inductive backend_step :: "'m reader \<Rightarrow> 'm bsys \<Rightarrow> 'm bsys \<Rightarrow> bool" for read where
  Register: "register_mirror source mirror (bs_backend s) = (status, b) \<Longrightarrow>
     backend_step read s (s\<lparr>bs_backend := b\<rparr>)"
| Submit: "submit request (bs_backend s) = (accepted, b) \<Longrightarrow>
     backend_step read s (s\<lparr>bs_backend := b,
       bs_accepted := bs_accepted s @ (if accepted then [fq_token request] else [])\<rparr>)"
| Take: "ring_size (bk_ring (bs_backend s)) \<noteq> 0 \<Longrightarrow> take_item (bs_backend s) = (item, b) \<Longrightarrow>
     backend_step read s (s\<lparr>bs_backend := b, bs_taken := item # bs_taken s,
       bs_dequeued := bs_dequeued s @ [token_of item]\<rparr>)"
| Deliver: "bs_taken s = xs @ item # ys \<Longrightarrow> perform read item (bs_mirrors s) = (c, dest, m) \<Longrightarrow>
     backend_step read s (s\<lparr>bs_mirrors := m, bs_taken := xs @ ys, bs_settling := (item, c) # bs_settling s,
       bs_log := bs_log s @ [c]\<rparr>)"
| Settle: "bs_settling s = xs @ (item, c) # ys \<Longrightarrow>
     backend_step read s (s\<lparr>bs_backend := settle item c (bs_backend s), bs_settling := xs @ ys\<rparr>)"
| Shutdown: "shutdown_begin (bs_backend s) = Some (queued, b) \<Longrightarrow>
     backend_step read s (s\<lparr>bs_backend := b, bs_cancelling := bs_cancelling s @ queued,
       bs_dequeued := bs_dequeued s @ map token_of queued\<rparr>)"
| Cancel: "bs_cancelling s = item # rest \<Longrightarrow>
     backend_step read s (s\<lparr>bs_cancelling := rest, bs_log := bs_log s @ [cancelled_completion item],
       bs_uncounted := bs_uncounted s + 1\<rparr>)"
| Count: "bs_uncounted s = Suc n \<Longrightarrow>
     backend_step read s (s\<lparr>bs_backend := count_cancelled (bs_backend s), bs_uncounted := n\<rparr>)"

inductive backend_run :: "'m reader \<Rightarrow> backend_config \<Rightarrow> 'm bsys \<Rightarrow> bool" for read cfg where
  Start: "backend_create cfg = Inr b \<Longrightarrow> backend_run read cfg (bsys_init b m)"
| Step: "backend_run read cfg s \<Longrightarrow> backend_step read s s' \<Longrightarrow> backend_run read cfg s'"

text \<open>The queue part and the statistics part of the invariant.\<close>

definition queue_inv :: "'m bsys \<Rightarrow> bool" where
  "queue_inv s \<longleftrightarrow> ring_ok (bk_ring (bs_backend s)) \<and>
     bs_accepted s = bs_dequeued s @ map token_of (ring_items (bk_ring (bs_backend s))) \<and>
     mset (bs_dequeued s) = mset (map co_token (bs_log s)) + mset (map token_of (bs_taken s)) +
       mset (map token_of (bs_cancelling s)) \<and>
     (bk_shutting_down (bs_backend s) \<longrightarrow> ring_items (bk_ring (bs_backend s)) = [])"

definition stats_inv :: "'m bsys \<Rightarrow> bool" where
  "stats_inv s \<longleftrightarrow> (let st = bk_stats (bs_backend s) in
     bk_accepted st = length (bs_accepted s) \<and>
     bk_in_flight st = length (bs_taken s) + length (bs_settling s) \<and>
     bk_accepted st = bk_completed_ok st + bk_short_reads st + bk_errors st + bk_cancelled st + bk_in_flight st +
       ring_size (bk_ring (bs_backend s)) + length (bs_cancelling s) + bs_uncounted s)"

lemma perform_token: "perform read item m = (c, dest, m') \<Longrightarrow> co_token c = token_of item"
  by (auto simp: perform_def Let_def split: option.splits prod.splits if_splits)

lemma count_in_fields [simp]:
  "bk_ring (count_in f b) = bk_ring b" "bk_shutting_down (count_in f b) = bk_shutting_down b"
  "bk_stats (count_in f b) = f (bk_stats b)"
  by (simp_all add: count_in_def)

lemma settle_fields [simp]:
  "bk_ring (settle item c b) = bk_ring b" "bk_shutting_down (settle item c b) = bk_shutting_down b"
  by (simp_all add: settle_def Let_def)

lemma register_fields:
  assumes "register_mirror source mirror b = (status, b')"
  shows "bk_ring b' = bk_ring b" "bk_shutting_down b' = bk_shutting_down b" "bk_stats b' = bk_stats b"
  using assms by (auto simp: register_mirror_def split: if_splits)

lemma ring_sizes [simp]: "ring_size (ring_push x r) = ring_size r + 1" "ring_size (ring_pop r) = ring_size r - 1"
  by (simp_all add: ring_push_def ring_pop_def)

text \<open>What a submission does to the queue: refused, or the last item.\<close>

lemma submit_queue:
  assumes run: "submit request b = (accepted, b')" and ok: "ring_ok (bk_ring b)"
  shows "accepted \<longleftrightarrow> \<not> bk_shutting_down b \<and> length (ring_items (bk_ring b)) < length (cells (bk_ring b))"
    and "ring_ok (bk_ring b')" and "bk_shutting_down b' = bk_shutting_down b"
    and "map token_of (ring_items (bk_ring b')) =
       map token_of (ring_items (bk_ring b)) @ (if accepted then [fq_token request] else [])"
    and "ring_size (bk_ring b') = ring_size (bk_ring b) + (if accepted then 1 else 0)"
proof -
  have room: "ring_full (bk_ring b) \<longleftrightarrow> \<not> length (ring_items (bk_ring b)) < length (cells (bk_ring b))"
    using ok by (auto simp: ring_full_def ring_ok_def)
  show "accepted \<longleftrightarrow> \<not> bk_shutting_down b \<and> length (ring_items (bk_ring b)) < length (cells (bk_ring b))"
    "ring_ok (bk_ring b')" "bk_shutting_down b' = bk_shutting_down b"
    "map token_of (ring_items (bk_ring b')) =
       map token_of (ring_items (bk_ring b)) @ (if accepted then [fq_token request] else [])"
    "ring_size (bk_ring b') = ring_size (bk_ring b) + (if accepted then 1 else 0)"
    using run ok room by (auto simp: submit_def Let_def ring.items_push ring.invar_push split: if_splits)
qed

lemma submit_stats:
  assumes "submit request b = (accepted, b')"
  shows "bk_accepted (bk_stats b') = bk_accepted (bk_stats b) + (if accepted then 1 else 0)"
    and "bk_completed_ok (bk_stats b') = bk_completed_ok (bk_stats b)"
    and "bk_short_reads (bk_stats b') = bk_short_reads (bk_stats b)"
    and "bk_errors (bk_stats b') = bk_errors (bk_stats b)" and "bk_cancelled (bk_stats b') = bk_cancelled (bk_stats b)"
    and "bk_in_flight (bk_stats b') = bk_in_flight (bk_stats b)"
  using assms by (auto simp: submit_def Let_def split: if_splits)

lemma take_item_queue:
  assumes "take_item b = (item, b')" and "ring_ok (bk_ring b)" and "ring_size (bk_ring b) \<noteq> 0"
  shows "ring_ok (bk_ring b')" and "ring_items (bk_ring b) = item # ring_items (bk_ring b')"
    and "bk_shutting_down b' = bk_shutting_down b" and "ring_size (bk_ring b') = ring_size (bk_ring b) - 1"
    and "bk_stats b' = (bk_stats b)\<lparr>bk_in_flight := bk_in_flight (bk_stats b) + 1\<rparr>"
proof -
  have "ring_items (bk_ring b) \<noteq> []" using assms(3) by (simp add: ring_items_Nil)
  from ring.front_pop [OF assms(2) this] ring.invar_pop [OF assms(2) this] assms(1)
  show "ring_ok (bk_ring b')" "ring_items (bk_ring b) = item # ring_items (bk_ring b')"
    "bk_shutting_down b' = bk_shutting_down b" "ring_size (bk_ring b') = ring_size (bk_ring b) - 1"
    "bk_stats b' = (bk_stats b)\<lparr>bk_in_flight := bk_in_flight (bk_stats b) + 1\<rparr>"
    by (auto simp: take_item_def)
qed

lemma shutdown_queue:
  assumes "shutdown_begin b = Some (queued, b')" and "ring_ok (bk_ring b)"
  shows "queued = ring_items (bk_ring b)" and "ring_items (bk_ring b') = []" and "ring_ok (bk_ring b')"
    and "bk_shutting_down b'" and "bk_stats b' = bk_stats b"
  using assms ring_drain_items [OF assms(2)] by (auto simp: shutdown_begin_def split: if_splits prod.splits)

lemma queue_inv_step:
  assumes "backend_step read s s'" and "queue_inv s"
  shows "queue_inv s'"
  using assms
proof (cases rule: backend_step.cases)
  case (Register source mirror status b)
  then show ?thesis using register_fields [OF Register(2)] assms(2) by (simp add: queue_inv_def)
next
  case (Submit request accepted b)
  then show ?thesis
    using submit_queue [OF Submit(2)] assms(2) by (auto simp: queue_inv_def)
next
  case (Take item b)
  then show ?thesis using take_item_queue [OF Take(3) _ Take(2)] assms(2) by (auto simp: queue_inv_def)
next
  case (Deliver xs item ys c dest m)
  then show ?thesis using perform_token [OF Deliver(3)] assms(2) by (auto simp: queue_inv_def)
next
  case (Settle xs item c ys)
  then show ?thesis using assms(2) by (simp add: queue_inv_def)
next
  case (Shutdown queued b)
  then show ?thesis using shutdown_queue [OF Shutdown(2)] assms(2) by (auto simp: queue_inv_def)
next
  case (Cancel item rest)
  then show ?thesis using assms(2) by (auto simp: queue_inv_def cancelled_completion_def)
next
  case (Count n)
  then show ?thesis using assms(2) by (simp add: queue_inv_def count_cancelled_def)
qed

lemma settle_stats:
  "bk_stats (settle item c b) =
     (let st = bk_stats b; st = st\<lparr>bk_in_flight := bk_in_flight st - 1\<rparr> in
      if wi_mirror item = None then st\<lparr>bk_errors := bk_errors st + 1\<rparr>
      else let st = st\<lparr>bk_bytes_read := bk_bytes_read st + co_bytes c\<rparr> in
        if co_status c \<noteq> MP_Ok then st\<lparr>bk_errors := bk_errors st + 1\<rparr>
        else if co_bytes c = length (fq_destination (wi_request item))
        then st\<lparr>bk_completed_ok := bk_completed_ok st + 1\<rparr>
        else st\<lparr>bk_short_reads := bk_short_reads st + 1\<rparr>)"
  by (simp add: settle_def Let_def)

lemma stats_inv_step:
  assumes "backend_step read s s'" and "queue_inv s" and "stats_inv s"
  shows "stats_inv s'"
  using assms
proof (cases rule: backend_step.cases)
  case (Register source mirror status b)
  then show ?thesis using register_fields [OF Register(2)] assms(3) by (simp add: stats_inv_def)
next
  case (Submit request accepted b)
  have ok: "ring_ok (bk_ring (bs_backend s))" using assms(2) by (simp add: queue_inv_def)
  show ?thesis
    using Submit(1) submit_queue(5) [OF Submit(2) ok] submit_stats [OF Submit(2)] assms(3)
    by (cases accepted) (simp_all add: stats_inv_def Let_def)
next
  case (Take item b)
  then show ?thesis using take_item_queue [OF Take(3) _ Take(2)] assms(2,3) by (auto simp: queue_inv_def stats_inv_def Let_def)
next
  case (Deliver xs item ys c dest m)
  then show ?thesis using assms(3) by (auto simp: stats_inv_def Let_def)
next
  case (Settle xs item c ys)
  then show ?thesis using assms(3) by (auto simp: stats_inv_def settle_stats Let_def)
next
  case (Shutdown queued b)
  have ok: "ring_ok (bk_ring (bs_backend s))" using assms(2) by (simp add: queue_inv_def)
  have "length queued = ring_size (bk_ring (bs_backend s))" "ring_size (bk_ring b) = 0"
    using shutdown_queue(1,2) [OF Shutdown(2) ok] by (simp_all add: ring_items_Nil)
  then show ?thesis using Shutdown(1) shutdown_queue(5) [OF Shutdown(2) ok] assms(3) by (auto simp: stats_inv_def Let_def)
next
  case (Cancel item rest)
  then show ?thesis using assms(3) by (auto simp: stats_inv_def Let_def)
next
  case (Count n)
  then show ?thesis using assms(3) by (auto simp: stats_inv_def count_cancelled_def Let_def)
qed

lemma backend_run_inv: "backend_run read cfg s \<Longrightarrow> queue_inv s \<and> stats_inv s"
proof (induction rule: backend_run.induct)
  case (Start b m)
  then show ?case
    by (auto simp: backend_create_def queue_inv_def stats_inv_def bsys_init_def ring_new_ok zero_backend_stats_def
          unat_gt_0 unat_eq_0 ring_new_def [of _ blank_item] ring_ok_def ring_items_def split: if_splits)
next
  case (Step s s')
  then show ?case using queue_inv_step stats_inv_step by blast
qed

section \<open>After a shutdown\<close>

text \<open>
  Shutting down is final: nothing is accepted or dequeued any more. What is left are items that workers have taken and items
  to be cancelled; every step of one of these decreases \<open>work_left\<close>, one is always possible, and when none is left every
  accepted request has had its delivery.
\<close>

definition work_left :: "'m bsys \<Rightarrow> nat" where
  "work_left s = 2 * length (bs_taken s) + length (bs_settling s) + 2 * length (bs_cancelling s) + bs_uncounted s"

inductive_cases backend_stepE: "backend_step read s s'"

lemma submit_shut: "submit request b = (accepted, b') \<Longrightarrow> bk_shutting_down b \<Longrightarrow> \<not> accepted \<and> bk_shutting_down b'"
  by (auto simp: submit_def)

lemma shutdown_step:
  assumes "backend_step read s s'" and "bk_shutting_down (bs_backend s)" and "queue_inv s"
  shows "bk_shutting_down (bs_backend s')" and "bs_accepted s' = bs_accepted s" and "bs_dequeued s' = bs_dequeued s"
    and "work_left s' \<noteq> work_left s \<Longrightarrow> work_left s' < work_left s"
proof -
  have ok: "ring_ok (bk_ring (bs_backend s))" and empty: "ring_size (bk_ring (bs_backend s)) = 0"
    using assms(2,3) by (simp_all add: queue_inv_def ring_items_Nil [symmetric])
  show "bk_shutting_down (bs_backend s')" "bs_accepted s' = bs_accepted s" "bs_dequeued s' = bs_dequeued s"
    "work_left s' \<noteq> work_left s \<Longrightarrow> work_left s' < work_left s"
    using assms(1,2) ok empty
    by (auto elim!: backend_stepE dest: register_fields(2) submit_shut
        simp: work_left_def shutdown_begin_def count_cancelled_def)
qed

lemma shutdown_progress:
  assumes "bk_shutting_down (bs_backend s)" and "work_left s \<noteq> 0"
  shows "\<exists>s'. backend_step read s s' \<and> work_left s' < work_left s"
proof -
  consider (taken) item rest where "bs_taken s = item # rest" | (settling) item c rest where "bs_settling s = (item, c) # rest"
    | (cancelling) item rest where "bs_cancelling s = item # rest" | (uncounted) n where "bs_uncounted s = Suc n"
    using assms(2) unfolding work_left_def
    by (cases "bs_taken s"; cases "bs_settling s"; cases "bs_cancelling s"; cases "bs_uncounted s") auto
  then show ?thesis
  proof cases
    case taken
    obtain c dest m where "perform read item (bs_mirrors s) = (c, dest, m)" by (metis prod_cases3)
    from backend_step.Deliver [where xs = "[]" and ys = rest, OF _ this] taken show ?thesis by (fastforce simp: work_left_def)
  next
    case settling
    from backend_step.Settle [of s "[]" item c rest] settling show ?thesis by (fastforce simp: work_left_def)
  next
    case cancelling
    from backend_step.Cancel [OF this] cancelling show ?thesis by (fastforce simp: work_left_def)
  next
    case uncounted
    from backend_step.Count [OF this] uncounted show ?thesis by (fastforce simp: work_left_def)
  qed
qed

lemma shutdown_ends:
  assumes "backend_run read cfg s" and "bk_shutting_down (bs_backend s)"
  shows "\<exists>s'. backend_run read cfg s' \<and> (backend_step read)\<^sup>*\<^sup>* s s' \<and> work_left s' = 0 \<and>
     bs_accepted s' = bs_accepted s \<and> mset (map co_token (bs_log s')) = mset (bs_accepted s)"
  using assms
proof (induction "work_left s" arbitrary: s rule: less_induct)
  case less
  have inv: "queue_inv s" using backend_run_inv [OF less.prems(1)] by blast
  show ?case
  proof (cases "work_left s = 0")
    case True
    then have "mset (map co_token (bs_log s)) = mset (bs_accepted s)"
      using inv less.prems(2) by (simp add: queue_inv_def work_left_def)
    with True less.prems(1) show ?thesis by blast
  next
    case False
    then obtain s1 where step: "backend_step read s s1" "work_left s1 < work_left s"
      using shutdown_progress less.prems(2) by blast
    note kept = shutdown_step [OF step(1) less.prems(2) inv]
    from less.hyps [OF step(2) backend_run.Step [OF less.prems(1) step(1)] kept(1)] kept(2) step(1)
    show ?thesis by (metis converse_rtranclp_into_rtranclp)
  qed
qed

section \<open>What the backend guarantees\<close>

text \<open>A backend with one worker over one mirror, and the run that accepts a request, takes it and delivers it.\<close>

definition sample_backend_config :: backend_config where
  "sample_backend_config = \<lparr>bc_workers = 1, bc_queue_capacity = 2, bc_max_sources = 1\<rparr>"

definition sample_reader :: "unit reader" where
  "sample_reader mirror offset len dest m = (R_Ok, length dest, replicate (length dest) 1, m)"

definition sample_fill :: fill_request where
  "sample_fill = \<lparr>fq_source = 5, fq_offset = 0, fq_destination = [0, 0], fq_token = 7\<rparr>"

lemma sample_backend_run:
  "\<exists>s. backend_run sample_reader sample_backend_config s \<and> bs_log s \<noteq> [] \<and> bs_accepted s = [7] \<and>
     bs_taken s = [] \<and> bs_cancelling s = [] \<and> ring_size (bk_ring (bs_backend s)) = 0"
proof -
  let ?b0 = "\<lparr>bk_sources = [], bk_max_sources = 1, bk_ring = ring_new 2 blank_item, bk_shutting_down = False,
    bk_stats = zero_backend_stats\<rparr>"
  have "backend_create sample_backend_config = Inr ?b0"
    by (simp add: backend_create_def sample_backend_config_def)
  from backend_run.Start [OF this] have r0: "backend_run sample_reader sample_backend_config (bsys_init ?b0 ())" .
  obtain b1 where sub: "submit sample_fill ?b0 = (True, b1)"
    by (simp add: submit_def ring_full_def ring_new_def)
  then have b1: "ring_size (bk_ring b1) = 1" by (auto simp: submit_def Let_def ring_new_def split: if_splits)
  let ?s1 = "(bsys_init ?b0 ())\<lparr>bs_backend := b1, bs_accepted := [7]\<rparr>"
  have "backend_step sample_reader (bsys_init ?b0 ()) ?s1"
    using backend_step.Submit [of sample_fill "bsys_init ?b0 ()" True b1 sample_reader] sub
    by (simp add: bsys_init_def sample_fill_def)
  then have r1: "backend_run sample_reader sample_backend_config ?s1" by (rule backend_run.Step [OF r0])
  obtain item b2 where take: "take_item b1 = (item, b2)" by fastforce
  then have b2: "ring_size (bk_ring b2) = 0" using b1 by (auto simp: take_item_def)
  let ?s2 = "?s1\<lparr>bs_backend := b2, bs_taken := [item], bs_dequeued := [token_of item]\<rparr>"
  have "backend_step sample_reader ?s1 ?s2"
    using backend_step.Take [of ?s1 item b2 sample_reader] take b1 by (simp add: bsys_init_def)
  then have r2: "backend_run sample_reader sample_backend_config ?s2" by (rule backend_run.Step [OF r1])
  obtain c dest where perf: "perform sample_reader item () = (c, dest, ())" by (metis (full_types) prod_cases3 unit.exhaust)
  let ?s3 = "?s2\<lparr>bs_taken := [], bs_settling := [(item, c)], bs_log := [c]\<rparr>"
  have "backend_step sample_reader ?s2 ?s3"
    using backend_step.Deliver [of ?s2 "[]" item "[]" sample_reader c dest "()"] perf by (simp add: bsys_init_def)
  then have "backend_run sample_reader sample_backend_config ?s3" by (rule backend_run.Step [OF r2])
  then show ?thesis using b2 by (intro exI [of _ ?s3]) (simp add: bsys_init_def)
qed

text \<open>
  C36. Every accepted request is delivered exactly once, in whatever order the threads run. Requests leave the queue in the order
  they were accepted; each one that left is either still with a worker or with \<open>shutdown\<close>, or has exactly one entry in the log
  of deliveries; after \<open>shutdown\<close> the queue is empty. So when no thread holds an item and the queue is empty, the deliveries are
  the accepted requests.
\<close>

theorem backend_exactly_once:
  assumes "backend_run read cfg s"
  shows "bs_accepted s = bs_dequeued s @ map token_of (ring_items (bk_ring (bs_backend s))) \<and>
     mset (bs_dequeued s) = mset (map co_token (bs_log s)) + mset (map token_of (bs_taken s @ bs_cancelling s)) \<and>
     (bk_shutting_down (bs_backend s) \<longrightarrow> ring_items (bk_ring (bs_backend s)) = []) \<and>
     (bs_taken s = [] \<longrightarrow> bs_cancelling s = [] \<longrightarrow> ring_size (bk_ring (bs_backend s)) = 0 \<longrightarrow>
        mset (map co_token (bs_log s)) = mset (bs_accepted s))"
  using backend_run_inv [OF assms] by (auto simp: queue_inv_def ring_items_Nil)

theorem backend_exactly_once_witness:
  "\<exists>s. backend_run sample_reader sample_backend_config s \<and> mset (map co_token (bs_log s)) = {#7#}"
proof -
  obtain s where s: "backend_run sample_reader sample_backend_config s" "bs_accepted s = [7]" "bs_taken s = []"
    "bs_cancelling s = []" "ring_size (bk_ring (bs_backend s)) = 0"
    using sample_backend_run by blast
  then show ?thesis using backend_exactly_once [OF s(1)] by auto
qed

text \<open>
  C37. The statistics add up. In every reachable state the requests accepted are those completed, short, failed and cancelled,
  plus those in flight, queued, and being cancelled; and \<open>in_flight\<close> is the number a worker is still busy with.
\<close>

theorem backend_stats_account:
  assumes "backend_run read cfg s" and "st = bk_stats (bs_backend s)"
  shows "bk_accepted st = length (bs_accepted s) \<and> bk_in_flight st = length (bs_taken s) + length (bs_settling s) \<and>
     bk_accepted st = bk_completed_ok st + bk_short_reads st + bk_errors st + bk_cancelled st + bk_in_flight st +
       ring_size (bk_ring (bs_backend s)) + length (bs_cancelling s) + bs_uncounted s"
  using backend_run_inv [OF assms(1)] unfolding stats_inv_def Let_def assms(2) by blast

theorem backend_stats_account_witness:
  "\<exists>s. backend_run sample_reader sample_backend_config s \<and> bk_accepted (bk_stats (bs_backend s)) = 1"
proof -
  obtain s where "backend_run sample_reader sample_backend_config s" "bs_accepted s = [7]"
    using sample_backend_run by blast
  then show ?thesis using backend_stats_account [of sample_reader sample_backend_config s] by auto
qed

text \<open>The mirrors of a backend, as the reader of \<open>perform\<close>.\<close>

definition mirror_reader :: "'w mirror_env \<Rightarrow> (nat \<Rightarrow> 'w mirror) reader" where
  "mirror_reader env mirror offset len dest ms =
     (case mirror_read env offset len dest (ms mirror) of
        (status, n, dest, m) \<Rightarrow> (status, n, dest, ms(mirror := m)))"



end
