(* ===== verification/Cache_Dir.thy ===== *)
theory Cache_Dir
  imports Main "HOL-Library.Sublist"
begin

text \<open>
  The default cache directory (remote/cache_dir.hpp) in its two branches for POSIX paths: macOS has one place below the
  home directory, Linux and other systems the XDG variable, then the home directory; both fall back to the working
  directory. The environment is a map from names to values.
\<close>

datatype platform = Apple | Other_posix

type_synonym environment = "string \<Rightarrow> string option"

definition env_path_or_empty :: "environment \<Rightarrow> string \<Rightarrow> string" where
  "env_path_or_empty env name = (case env name of Some v \<Rightarrow> v | None \<Rightarrow> [])"

text \<open>\<open>std::filesystem::path::operator/\<close> on POSIX: an absolute right operand replaces the left one.\<close>

definition is_absolute :: "string \<Rightarrow> bool" where
  "is_absolute p \<longleftrightarrow> p \<noteq> [] \<and> hd p = CHR ''/''"

definition path_append :: "string \<Rightarrow> string \<Rightarrow> string" where
  "path_append base p =
     (if is_absolute p then p
      else if base = [] \<or> last base = CHR ''/'' then base @ p
      else base @ ''/'' @ p)"

definition default_user_cache_dir :: "platform \<Rightarrow> environment \<Rightarrow> string \<Rightarrow> string" where
  "default_user_cache_dir os env subdir =
     (case os of
        Apple \<Rightarrow>
          let home = env_path_or_empty env ''HOME'';
              base = (if home = [] then ''.'' else path_append (path_append home ''Library'') ''Caches'')
          in path_append base subdir
      | Other_posix \<Rightarrow>
          let xdg = env_path_or_empty env ''XDG_CACHE_HOME'' in
          if xdg \<noteq> [] then path_append xdg subdir
          else
            let home = env_path_or_empty env ''HOME'';
                base = (if home = [] then ''.'' else path_append home ''.cache'')
            in path_append base subdir)"

text \<open>
  A relative subdirectory always stays a component of its own below the chosen base, and the directory is
  absolute exactly when the variable it comes from is.
\<close>

lemma path_append_below:
  assumes "\<not> is_absolute p" and "base \<noteq> []"
  shows "\<exists>b. path_append base p = b @ ''/'' @ p \<and> prefix b base"
proof (cases "last base = CHR ''/''")
  case True
  then have "base = butlast base @ ''/''" using assms(2) append_butlast_last_id by metis
  then show ?thesis using True assms(1) by (auto simp: path_append_def intro!: exI [of _ "butlast base"] prefixI)
next
  case False
  then show ?thesis using assms by (auto simp: path_append_def)
qed

lemma path_append_absolute: "base \<noteq> [] \<Longrightarrow> \<not> is_absolute p \<Longrightarrow> is_absolute (path_append base p) \<longleftrightarrow> is_absolute base"
  by (auto simp: path_append_def is_absolute_def)

lemma path_append_not_empty [simp]: "path_append base p \<noteq> [] \<longleftrightarrow> base \<noteq> [] \<or> p \<noteq> []"
  by (auto simp: path_append_def is_absolute_def)

text \<open>The directory the subdirectory is put in, and the variable it comes from.\<close>

definition cache_base :: "platform \<Rightarrow> environment \<Rightarrow> string" where
  "cache_base os env =
     (let xdg = env_path_or_empty env ''XDG_CACHE_HOME''; home = env_path_or_empty env ''HOME'' in
      if os = Other_posix \<and> xdg \<noteq> [] then xdg
      else if home = [] then ''.''
      else if os = Apple then path_append (path_append home ''Library'') ''Caches''
      else path_append home ''.cache'')"

lemma default_user_cache_dir_base: "default_user_cache_dir os env subdir = path_append (cache_base os env) subdir"
  by (cases os) (simp_all add: default_user_cache_dir_def cache_base_def Let_def)

lemma cache_base_not_empty [simp]: "cache_base os env \<noteq> []"
  by (simp add: cache_base_def Let_def)

lemma cache_base_absolute:
  "is_absolute (cache_base os env) \<longleftrightarrow>
     is_absolute (if os = Other_posix \<and> env_path_or_empty env ''XDG_CACHE_HOME'' \<noteq> []
                  then env_path_or_empty env ''XDG_CACHE_HOME'' else env_path_or_empty env ''HOME'')"
proof -
  have names: "\<not> is_absolute ''Library''" "\<not> is_absolute ''Caches''" "\<not> is_absolute ''.cache''" "\<not> is_absolute ''.''" "\<not> is_absolute []"
    by (simp_all add: is_absolute_def)
  show ?thesis by (simp add: cache_base_def Let_def path_append_absolute names)
qed

lemma default_user_cache_dir_below:
  assumes "\<not> is_absolute subdir"
  shows "is_absolute (default_user_cache_dir os env subdir) \<longleftrightarrow> is_absolute (cache_base os env)"
    and "\<exists>b. default_user_cache_dir os env subdir = b @ ''/'' @ subdir \<and> prefix b (cache_base os env)"
  unfolding default_user_cache_dir_base
  using assms path_append_absolute [OF cache_base_not_empty assms] path_append_below [OF assms cache_base_not_empty]
  by blast+

end
