(* ===== verification/Mirror_Session.thy ===== *)
theory Mirror_Session
  imports Mirror Cache_Dir
begin

text \<open>
  The constructor of a mirror (remote/mirror.hpp), with its default directory, and what a cache directory goes through over
  the life of several processes: mirrors are opened over it, read, fetch, crash in the middle of a publication and are
  opened again, and mirrors of other sources publish into it. All of this preserves \<open>serves\<close>, so that a mirror on such a
  directory never reads a byte that is not the source's.
\<close>

section \<open>The constructor\<close>

record mirror_options =
  mo_source :: source_identity
  mo_chunk_size :: u32
  mo_directory :: string

definition sanitize_for_path :: "string \<Rightarrow> string" where
  "sanitize_for_path url = hex16 (fnv1a64 (str_bytes url))"

definition mirror_directory :: "platform \<Rightarrow> environment \<Rightarrow> mirror_options \<Rightarrow> string" where
  "mirror_directory os env options =
     (if mo_directory options = []
      then path_append (default_user_cache_dir os env ''Sub0TieredCache'') (sanitize_for_path (si_url (mo_source options)))
      else mo_directory options)"

text \<open>\<open>created\<close>: whether a directory exists after \<open>create_directories\<close>; \<open>disk\<close>: what is in it; \<open>nonce\<close>: the store's random number.\<close>

definition open_mirror :: "platform \<Rightarrow> environment \<Rightarrow> (string \<Rightarrow> bool) \<Rightarrow> (string \<Rightarrow> files) \<Rightarrow> u64 \<Rightarrow> mirror_options \<Rightarrow>
    'w \<Rightarrow> 'w mirror" where
  "open_mirror os env created disk nonce options w =
     (let directory = mirror_directory os env options in
      \<lparr>mi_source = mo_source options,
       mi_store = open_store directory (mo_chunk_size options) (created directory) nonce (disk directory),
       mi_inflight = {},
       mi_stats = \<lparr>ms_hits = 0, ms_misses = 0, ms_fetches = 0, ms_bytes_fetched = 0, ms_retries = 0,
         ms_validator_mismatches = 0, ms_corrupt_entries_skipped = 0, ms_publish_failures = 0, ms_coalesced = 0\<rparr>,
       mi_world = w\<rparr>)"

section \<open>Where the default directory is\<close>

lemma hex_digit_inj: "i < 16 \<Longrightarrow> j < 16 \<Longrightarrow> hex_digit i = hex_digit j \<longleftrightarrow> i = j"
  unfolding hex_digit_def by (intro nth_eq_iff_index_eq) simp_all

lemma nibble_less: "unat (w AND 15 :: u64) < 16"
  using word_and_le1 [of w 15] by (simp add: word_le_nat_alt)

lemma hex16_inj [simp]: "hex16 a = hex16 b \<longleftrightarrow> a = b"
proof
  assume eq: "hex16 a = hex16 b"
  have nibble: "drop_bit (4 * i) a AND 15 = drop_bit (4 * i) b AND 15" if "i < 16" for i
  proof -
    have "hex16 a ! (15 - i) = hex16 b ! (15 - i)" using eq by simp
    then have "hex_digit (unat (drop_bit (4 * i) a AND 15)) = hex_digit (unat (drop_bit (4 * i) b AND 15))"
      using that nth_upt [of 0 "15 - i" 16] by (simp add: hex16_def del: upt_rec_numeral)
    then show ?thesis by (simp add: hex_digit_inj nibble_less word_unat_eq_iff)
  qed
  have low: "bit (15 :: u64) n \<longleftrightarrow> n < 4" for n
    using bit_mask_iff [of 4 n, where 'a = "64 word"] by (auto simp: mask_eq_exp_minus_1)
  show "a = b"
  proof (rule bit_word_eqI)
    fix n assume n: "n < LENGTH(64)"
    have "bit (drop_bit (4 * (n div 4)) a AND 15) (n mod 4) = bit (drop_bit (4 * (n div 4)) b AND 15) (n mod 4)"
      using nibble [of "n div 4"] n by simp
    then have "bit a (4 * (n div 4) + n mod 4) = bit b (4 * (n div 4) + n mod 4)"
      by (simp only: bit_and_iff bit_drop_bit_eq low comp_apply simp_thms) simp
    then show "bit a n = bit b n" by simp
  qed
qed simp

lemma sanitize_not_absolute: "\<not> is_absolute (sanitize_for_path url)"
proof -
  have "hd (hex16 w) \<noteq> CHR ''/''" for w
  proof -
    have "unat (drop_bit 60 w AND 15) < 16" by (rule nibble_less)
    then have "hex_digit (unat (drop_bit 60 w AND 15)) \<in> set ''0123456789abcdef''"
      unfolding hex_digit_def by (intro nth_mem) simp
    then show ?thesis by (auto simp: hex16_def hd_map)
  qed
  then show ?thesis by (simp add: sanitize_for_path_def is_absolute_def)
qed

text \<open>
  Without a directory of its own a mirror uses one that is named by the hash of its URL, so two mirrors share a default directory
  exactly when their URLs have the same hash; their chunk files carry the hash and the whole identity as well.
\<close>

lemma default_directories_differ:
  assumes "mo_directory o1 = []" and "mo_directory o2 = []"
  shows "mirror_directory os env o1 = mirror_directory os env o2 \<longleftrightarrow>
     fnv1a64 (str_bytes (si_url (mo_source o1))) = fnv1a64 (str_bytes (si_url (mo_source o2)))"
proof -
  let ?base = "default_user_cache_dir os env ''Sub0TieredCache''"
  have "path_append ?base (sanitize_for_path u) = path_append ?base (sanitize_for_path u') \<longleftrightarrow>
      sanitize_for_path u = sanitize_for_path u'" for u u'
    using sanitize_not_absolute [of u] sanitize_not_absolute [of u'] by (auto simp: path_append_def)
  then show ?thesis using assms by (simp add: mirror_directory_def sanitize_for_path_def)
qed

lemma mirror_directory_not_empty: "mirror_directory os env options \<noteq> []"
  by (simp add: mirror_directory_def default_user_cache_dir_base)

lemma open_mirror_valid:
  "mirror_valid (open_mirror os env created disk nonce options w) \<longleftrightarrow>
     created (mirror_directory os env options) \<and> mo_chunk_size options > 0 \<and>
     v_total_size (si_validator (mo_source options)) div ucast (mo_chunk_size options) < 0xFFFFFFFF"
  using mirror_directory_not_empty [of os env options]
  by (auto simp: mirror_valid_def open_mirror_def open_store_def Let_def word_neq_0_conv)

section \<open>What opening a store does to the directory\<close>

lemma chunk_not_temp: "take (length kTempPrefix) (chunk_file_name source i) \<noteq> kTempPrefix"
proof
  assume "take (length kTempPrefix) (chunk_file_name source i) = kTempPrefix"
  then have "hd (take (length kTempPrefix) (chunk_file_name source i)) = CHR ''.''" by (simp add: kTempPrefix_def)
  moreover have "hd (take (length kTempPrefix) (chunk_file_name source i)) = hd (hex16 (fnv1a64 (str_bytes (si_url source))))"
    by (simp add: chunk_file_name_def hd_append hex16_def kTempPrefix_def)
  ultimately show False using hd_hex16 by metis
qed

lemma open_store_keeps_chunks [simp]:
  "st_files (open_store directory cs created nonce fs) (chunk_file_name source i) = fs (chunk_file_name source i)"
  by (simp add: open_store_def Let_def cleanup_stale_temp_files_def chunk_not_temp)

lemma open_store_chunk_size [simp]: "st_chunk_size (open_store directory cs created nonce fs) = cs"
  by (simp add: open_store_def Let_def)

text \<open>
  Two effects of the cleanup. A chunk that was published is read back by a store that is opened over the directory later. And
  a store that is opened while another one is in the middle of a publication removes the temporary file under it: the
  rename that is to follow finds nothing, and that publication fails.
\<close>

lemma publish_reopen_read:
  assumes "publish_chunk fault st source i payload = (R_Ok, st')" and "length payload \<le> length dest"
    and "length (canonical_validator (si_validator source)) < 2 ^ 32" and "length payload \<le> unat cs"
  shows "read_chunk (open_store directory cs created nonce (st_files st')) source i dest =
     (R_Ok, length payload, put_at dest 0 payload)"
  using read_chunk_complete [where st = "open_store directory cs created nonce (st_files st')" and rest = "[]"]
    publish_chunk_files(1) [OF assms(1)] assms(2-4) by simp

lemma temp_is_temp: "take (length kTempPrefix) (temp_name st) = kTempPrefix"
  by (simp add: temp_name_def)

lemma opening_removes_running_publication:
  assumes "fs \<in> set (publish_states st source i payload)" and "fs (temp_name st) \<noteq> None"
    and "directory \<noteq> []" and "cs \<noteq> 0"
  shows "st_files (open_store directory cs True nonce fs) (temp_name st) = None"
  using assms(3,4) by (simp add: open_store_def cleanup_stale_temp_files_def temp_is_temp)

section \<open>The life of a cache directory\<close>

text \<open>
  The states of a mirror over a cache directory. It is first opened over a directory that has no chunk of its source. A
  restart, after a shutdown or a crash, opens it again over whatever is there: the chunk files are those of the last state,
  and of temporary files there may be any. In between it reads, a thread of it fetches and publishes a chunk,
  other threads do what \<open>me_pause\<close> says, and stores of other sources publish into the directory.
\<close>

inductive session :: "'w mirror_env \<Rightarrow> mirror_options \<Rightarrow> 'w mirror \<Rightarrow> bool" for env options where
  Open: "(\<And>i. disk (mirror_directory os vars options) (chunk_file_name (mo_source options) i) = None) \<Longrightarrow>
    session env options (open_mirror os vars created disk nonce options w)"
| Restart: "session env options m \<Longrightarrow>
    (\<And>source i. disk (mirror_directory os vars options) (chunk_file_name source i) =
       st_files (mi_store m) (chunk_file_name source i)) \<Longrightarrow>
    session env options (open_mirror os vars created disk nonce options w)"
| Read: "session env options m \<Longrightarrow> mirror_read env offset len dest m = (status, n, dest', m') \<Longrightarrow> session env options m'"
| Fetch: "session env options m \<Longrightarrow> unat i * chunk_size_of m < total_of m \<Longrightarrow>
    fetch_and_publish env i (min (chunk_size_of m) (total_of m - unat i * chunk_size_of m)) m = (status, m') \<Longrightarrow>
    session env options m'"
| Others: "session env options m \<Longrightarrow> session env options (me_pause env m)"
| Other_source: "session env options m \<Longrightarrow> st_files st = st_files (mi_store m) \<Longrightarrow>
    publish_chunk fault st source i payload = (status, st') \<Longrightarrow>
    length (canonical_validator (si_validator source)) < 2 ^ 32 \<Longrightarrow>
    fnv1a64 (str_bytes (si_url source)) \<noteq> fnv1a64 (str_bytes (si_url (mo_source options))) \<or>
    v_total_size (si_validator source) \<noteq> v_total_size (si_validator (mo_source options)) \<or>
    canonical_validator (si_validator source) \<noteq> canonical_validator (si_validator (mo_source options)) \<Longrightarrow>
    session env options (m\<lparr>mi_store := (mi_store m)\<lparr>st_files := st_files st'\<rparr>\<rparr>)"

lemma open_mirror_simps [simp]:
  "mi_source (open_mirror os vars created disk nonce options w) = mo_source options"
  "st_chunk_size (mi_store (open_mirror os vars created disk nonce options w)) = mo_chunk_size options"
  "st_files (mi_store (open_mirror os vars created disk nonce options w)) (chunk_file_name source i) =
     disk (mirror_directory os vars options) (chunk_file_name source i)"
  by (simp_all add: open_mirror_def Let_def)

text \<open>\<open>serves\<close> only depends on the files of the source's own chunks.\<close>

lemma serves_files_cong:
  assumes "serves data src cs m" and "mi_source m' = src" and "st_chunk_size (mi_store m') = cs"
    and "\<And>i. st_files (mi_store m') (chunk_file_name src i) = st_files (mi_store m) (chunk_file_name src i)"
  shows "serves data src cs m'"
proof -
  have "read_chunk (mi_store m') src i dest = read_chunk (mi_store m) src i dest" for i dest
    by (rule read_chunk_cong) (simp_all add: assms(3,4) servesD(2) [OF assms(1)])
  then show ?thesis using assms(1-3) by (simp add: serves_def)
qed

lemma serves_no_chunks:
  assumes "mi_source m = src" and "st_chunk_size (mi_store m) = cs"
    and "\<And>i. st_files (mi_store m) (chunk_file_name src i) = None"
  shows "serves data src cs m"
  by (simp add: serves_def read_chunk_def assms)

lemma publish_chunk_failed_files:
  assumes "publish_chunk fault st source i payload = (status, st')" and "status \<noteq> R_Ok"
  shows "st_files st' (chunk_file_name source2 j) = st_files st (chunk_file_name source2 j)"
  using assms temp_not_chunk [of st source2 j, symmetric]
  by (auto simp: publish_chunk_def Let_def split: if_splits io_fault.splits)

lemma serves_other_source:
  assumes sv: "serves data src cs m" and files: "st_files st = st_files (mi_store m)"
    and run: "publish_chunk fault st source i payload = (status, st')"
    and vlen: "length (canonical_validator (si_validator source)) < 2 ^ 32" "length (canonical_validator (si_validator src)) < 2 ^ 32"
    and other: "fnv1a64 (str_bytes (si_url source)) \<noteq> fnv1a64 (str_bytes (si_url src)) \<or>
       v_total_size (si_validator source) \<noteq> v_total_size (si_validator src) \<or>
       canonical_validator (si_validator source) \<noteq> canonical_validator (si_validator src)"
  shows "serves data src cs (m\<lparr>mi_store := (mi_store m)\<lparr>st_files := st_files st'\<rparr>\<rparr>)"
proof -
  let ?m = "m\<lparr>mi_store := (mi_store m)\<lparr>st_files := st_files st'\<rparr>\<rparr>"
  have "dest' = put_at dest 0 (chunk_data data (unat cs) (unat j))"
    if j: "unat j * unat cs < length data" and rd: "read_chunk (mi_store ?m) src j dest = (R_Ok, n, dest')" for j dest n dest'
  proof (cases "status = R_Ok \<and> chunk_file_name src j = chunk_file_name source i")
    case True
    then have ok: "publish_chunk fault st source i payload = (R_Ok, st')" using run by simp
    obtain p rest where "st_files (mi_store ?m) (chunk_file_name src j) = Some (chunk_file src j p @ rest)"
      by (rule read_chunk_sound [OF rd vlen(2)])
    then have "chunk_file source i payload = chunk_file src j p @ rest" using publish_chunk_files(1) [OF ok] True by simp
    from chunk_file_eqD [OF this vlen] other show ?thesis by simp
  next
    case False
    then have "st_files st' (chunk_file_name src j) = st_files st (chunk_file_name src j)"
      using publish_chunk_failed_files [OF run] publish_chunk_files(2) [of fault st source i payload st' src j] run by blast
    then have "read_chunk (mi_store m) src j dest = (R_Ok, n, dest')"
      using read_chunk_cong [of "mi_store ?m" src j "mi_store m" dest] rd files by simp
    then show ?thesis using servesD(3) [OF sv] j by blast
  qed
  then show ?thesis using servesD(1,2) [OF sv] by (simp add: serves_def)
qed

text \<open>The invariant: every state of a session serves the source.\<close>

lemma session_serves:
  assumes "session env options m" and env: "keeps data (mo_source options) (mo_chunk_size options) env"
    and total: "length data = unat (v_total_size (si_validator (mo_source options)))"
    and vlen: "length (canonical_validator (si_validator (mo_source options))) < 2 ^ 32"
  shows "serves data (mo_source options) (mo_chunk_size options) m"
  using assms(1)
proof induction
  case (Open disk os vars created nonce w)
  then show ?case by (intro serves_no_chunks) simp_all
next
  case (Restart m disk os vars created nonce w)
  from Restart.IH show ?case by (rule serves_files_cong) (simp_all add: Restart.hyps)
next
  case (Read m offset len dest status n dest' m')
  show ?case using mirror_read_result [OF Read.hyps(2) Read.IH env vlen total] by blast
next
  case (Fetch m i status m')
  have small: "length data < 2 ^ 64" unfolding total by (rule unat_u64)
  show ?case
    by (rule fetch_and_publish_result [OF Fetch.hyps(3) Fetch.IH env _ _ small vlen])
      (use Fetch.hyps(2) servesD(1,2) [OF Fetch.IH] total in \<open>simp_all add: chunk_len_of_def\<close>)
next
  case (Others m)
  then show ?case using env by (simp add: keeps_def)
next
  case (Other_source m st fault source i payload status st')
  show ?case by (rule serves_other_source [OF Other_source.IH Other_source.hyps(2,3,4) vlen Other_source.hyps(5)])
qed

end
