(* ===== verification/Trace_Files.thy ===== *)
theory Trace_Files
  imports Size_Classed Chunk_Store
begin

text \<open>
  The replay benchmark (bench/trace_replay.cpp), without its consumer loop: the two file formats it reads, the resolver
  over the extents, the percentile of the report, and the table configurations that \<open>main\<close> derives. \<open>fail\<close> is an error
  value.
\<close>

section \<open>The file formats\<close>

text \<open>The messages \<open>fail\<close> ends the program with.\<close>

datatype replay_error =
  Cannot_open | Truncated_file | Not_magic | Unsupported_version | Row_past_extents
| Cannot_stat | Backend_failed | Cannot_register | Budget_too_small | Create_failed | Resolve_failed nat

record extent =
  e_offset :: u64
  e_length :: u64

text \<open>\<open>read_pod\<close>: a little-endian value and the rest of the stream.\<close>

definition read_u32 :: "bytes \<Rightarrow> replay_error + u32 \<times> bytes" where
  "read_u32 file = (if length file < 4 then Inl Truncated_file else Inr (u32_of_bytes (take 4 file), drop 4 file))"

definition read_u64 :: "bytes \<Rightarrow> replay_error + u64 \<times> bytes" where
  "read_u64 file = (if length file < 8 then Inl Truncated_file else Inr (u64_of_bytes (take 8 file), drop 8 file))"

definition expect_magic :: "string \<Rightarrow> bytes \<Rightarrow> replay_error + bytes" where
  "expect_magic magic file =
     (if length file < 4 \<or> take 4 file \<noteq> str_bytes magic then Inl Not_magic
      else case read_u32 (drop 4 file) of
        Inl error \<Rightarrow> Inl error
      | Inr (version, file) \<Rightarrow> if version \<noteq> 1 then Inl Unsupported_version else Inr file)"

primrec read_extents :: "nat \<Rightarrow> bytes \<Rightarrow> replay_error + extent list" where
  "read_extents 0 file = Inr []"
| "read_extents (Suc n) file =
     (case read_u64 file of
        Inl error \<Rightarrow> Inl error
      | Inr (off, file) \<Rightarrow>
          (case read_u64 file of
             Inl error \<Rightarrow> Inl error
           | Inr (len, file) \<Rightarrow> map_sum id (\<lambda>es. \<lparr>e_offset = off, e_length = len\<rparr> # es) (read_extents n file)))"

text \<open>A file that cannot be opened is \<open>None\<close>.\<close>

definition load_extents :: "bytes option \<Rightarrow> replay_error + extent list" where
  "load_extents file =
     (case file of
        None \<Rightarrow> Inl Cannot_open
      | Some file \<Rightarrow>
          (case expect_magic ''S0RX'' file of
             Inl error \<Rightarrow> Inl error
           | Inr file \<Rightarrow>
               (case read_u64 file of
                  Inl error \<Rightarrow> Inl error
                | Inr (rows, file) \<Rightarrow> read_extents (unat rows) file)))"

text \<open>\<open>Trace\<close>: batch \<open>b\<close> is \<open>rows[starts[b]]\<close> up to \<open>rows[starts[b + 1]]\<close>.\<close>

record trace =
  tr_rows :: "u64 list"
  tr_starts :: "nat list"

primrec read_rows :: "nat \<Rightarrow> u64 \<Rightarrow> bytes \<Rightarrow> u64 list \<Rightarrow> replay_error + u64 list \<times> bytes" where
  "read_rows 0 row_count file rows = Inr (rows, file)"
| "read_rows (Suc n) row_count file rows =
     (case read_u64 file of
        Inl error \<Rightarrow> Inl error
      | Inr (row, file) \<Rightarrow>
          if row \<ge> row_count then Inl Row_past_extents else read_rows n row_count file (rows @ [row]))"

primrec read_batches :: "nat \<Rightarrow> u64 \<Rightarrow> bytes \<Rightarrow> trace \<Rightarrow> replay_error + trace" where
  "read_batches 0 row_count file t = Inr (t\<lparr>tr_starts := tr_starts t @ [length (tr_rows t)]\<rparr>)"
| "read_batches (Suc b) row_count file t =
     (case read_u32 file of
        Inl error \<Rightarrow> Inl error
      | Inr (n, file) \<Rightarrow>
          (case read_rows (unat n) row_count file (tr_rows t) of
             Inl error \<Rightarrow> Inl error
           | Inr (rows, file) \<Rightarrow>
               read_batches b row_count file \<lparr>tr_rows = rows, tr_starts = tr_starts t @ [length (tr_rows t)]\<rparr>))"

definition load_trace :: "bytes option \<Rightarrow> u64 \<Rightarrow> replay_error + trace" where
  "load_trace file row_count =
     (case file of
        None \<Rightarrow> Inl Cannot_open
      | Some file \<Rightarrow>
          (case expect_magic ''S0RT'' file of
             Inl error \<Rightarrow> Inl error
           | Inr file \<Rightarrow>
               (case read_u64 file of
                  Inl error \<Rightarrow> Inl error
                | Inr (batches, file) \<Rightarrow> read_batches (unat batches) row_count file \<lparr>tr_rows = [], tr_starts = []\<rparr>)))"

definition batch_rows :: "trace \<Rightarrow> nat \<Rightarrow> u64 list" where
  "batch_rows trace b = slice (tr_rows trace) (tr_starts trace ! b) (tr_starts trace ! (b + 1) - tr_starts trace ! b)"

text \<open>\<open>Resolver::resolve_extent\<close>.\<close>

definition extent_resolver :: "extent list \<Rightarrow> resolver" where
  "extent_resolver extents row =
     (if unat row \<ge> length extents then Inl Out_of_range
      else let e = extents ! unat row
           in Inr \<lparr>loc_shard = 0, loc_range = \<lparr>br_offset = e_offset e, br_length = e_length e\<rparr>\<rparr>)"

text \<open>\<open>percentile\<close> of a sorted vector, with \<open>p\<close> between 0 and 1.\<close>

definition percentile :: "rat list \<Rightarrow> rat \<Rightarrow> rat" where
  "percentile sorted_xs p =
     (if sorted_xs = [] then 0
      else
        let k = nat \<lfloor>to_double (to_double (p * to_double (of_nat (length sorted_xs - 1))) + 1 / 2)\<rfloor>
        in sorted_xs ! min k (length sorted_xs - 1))"

section \<open>What main derives from its options\<close>

text \<open>The options that take part in the configuration. \<open>align\<close> is MemPage's \<open>kUncachedAlignment\<close>.\<close>

record options =
  o_budget_mib :: u64
  o_readers :: u32
  o_chunk_kib :: u64
  o_limit_batches :: u64
  o_uncached :: bool
  o_size_classed :: bool

definition row_bytes_of :: "extent list \<Rightarrow> u64" where
  "row_bytes_of extents = foldl (\<lambda>row_bytes e. max row_bytes (e_length e)) 0 extents"

definition batch_count :: "trace \<Rightarrow> nat" where
  "batch_count trace = length (tr_starts trace) - 1"

definition max_batch_of :: "trace \<Rightarrow> u32" where
  "max_batch_of trace =
     foldl (\<lambda>max_batch b. max max_batch (of_nat (tr_starts trace ! (b + 1) - tr_starts trace ! b))) 1 [0 ..< batch_count trace]"

definition slot_bytes_of :: "u64 \<Rightarrow> options \<Rightarrow> extent list \<Rightarrow> u64" where
  "slot_bytes_of align opts extents =
     (if o_uncached opts then aligned_slot_bytes (row_bytes_of extents) align else row_bytes_of extents)"

definition storage_bytes_of :: "u64 \<Rightarrow> options \<Rightarrow> extent list \<Rightarrow> u64" where
  "storage_bytes_of align opts extents =
     min (push_bit 20 (o_budget_mib opts)) (slot_bytes_of align opts extents * of_nat (length extents)) div align * align"

definition chunk_bytes_of :: "options \<Rightarrow> u64" where
  "chunk_bytes_of opts = push_bit 10 (o_chunk_kib opts)"

definition queue_capacity_of :: "u64 \<Rightarrow> options \<Rightarrow> extent list \<Rightarrow> u32 \<Rightarrow> u32" where
  "queue_capacity_of align opts extents max_batch =
     (let chunk_bytes = chunk_bytes_of opts; slot_bytes = slot_bytes_of align opts extents;
          chunks_per_row = ucast (if chunk_bytes \<noteq> 0 \<and> chunk_bytes < slot_bytes
                                  then (slot_bytes + chunk_bytes - 1) div chunk_bytes else 1)
      in 4 * max_batch * chunks_per_row)"

text \<open>The storage starts at the first aligned address of an allocation at \<open>base\<close>.\<close>

definition storage_addr_of :: "u64 \<Rightarrow> u64 \<Rightarrow> u64" where
  "storage_addr_of align base = base + (align - base mod align) mod align"

definition batches_of :: "options \<Rightarrow> trace \<Rightarrow> nat" where
  "batches_of opts trace =
     (if o_limit_batches opts \<noteq> 0 then min (batch_count trace) (unat (o_limit_batches opts)) else batch_count trace)"

definition kSource :: source_id where "kSource = 1"

text \<open>The configuration of the padded table; \<open>None\<close> is the division by a slot width of zero.\<close>

definition replay_table_config :: "u64 \<Rightarrow> options \<Rightarrow> extent list \<Rightarrow> u32 \<Rightarrow> u64 \<Rightarrow> u64 \<Rightarrow> (replay_error + table_config) option" where
  "replay_table_config align opts extents max_batch file_bytes base =
     (let slot_bytes = slot_bytes_of align opts extents in
      if slot_bytes = 0 then None
      else
        let budget_rows = storage_bytes_of align opts extents div slot_bytes;
            used_bytes = budget_rows * slot_bytes
        in if budget_rows < 2 * ucast max_batch then Some (Inl Budget_too_small)
           else Some (Inr
             \<lparr>c_row_count = of_nat (length extents), c_source_row_bytes = row_bytes_of extents, c_row_extent = Bounded,
              c_fill_chunk_bytes = chunk_bytes_of opts, c_fill_alignment = (if o_uncached opts then align else 0),
              c_output_row_bytes = slot_bytes, c_representation = Identity, c_codec = None,
              c_sources = single_source kSource file_bytes, c_generation = 1,
              c_resolve_extent = Some (extent_resolver extents), c_output_addr = storage_addr_of align base,
              c_output_size = used_bytes, c_budget_rows = ucast budget_rows, c_scratch_size = 0, c_scratch_rows = 0,
              c_max_tickets = 4, c_max_batch_rows = max_batch\<rparr>))"

definition replay_classed_config :: "u64 \<Rightarrow> options \<Rightarrow> extent list \<Rightarrow> u32 \<Rightarrow> u64 \<Rightarrow> u64 \<Rightarrow> size_classed_config" where
  "replay_classed_config align opts extents max_batch file_bytes base =
     \<lparr>z_row_count = of_nat (length extents), z_sources = single_source kSource file_bytes, z_generation = 1,
      z_resolve_extent = Some (extent_resolver extents), z_output_addr = storage_addr_of align base,
      z_output_size = storage_bytes_of align opts extents, z_max_tickets = 4, z_max_batch_rows = max_batch,
      z_fill_chunk_bytes = chunk_bytes_of opts, z_fill_alignment = (if o_uncached opts then align else 0),
      z_max_classes = 8\<rparr>"


section \<open>Reading back what was recorded\<close>

text \<open>The layout of the two files (docs/trace-replay.md), for the statements below.\<close>

definition extents_file :: "extent list \<Rightarrow> bytes" where
  "extents_file es = str_bytes ''S0RX'' @ bytes_of_u32 1 @ bytes_of_u64 (of_nat (length es)) @
     concat (map (\<lambda>e. bytes_of_u64 (e_offset e) @ bytes_of_u64 (e_length e)) es)"

definition batch_bytes :: "u64 list \<Rightarrow> bytes" where
  "batch_bytes rows = bytes_of_u32 (of_nat (length rows)) @ concat (map bytes_of_u64 rows)"

definition trace_file :: "u64 list list \<Rightarrow> bytes" where
  "trace_file batches = str_bytes ''S0RT'' @ bytes_of_u32 1 @ bytes_of_u64 (of_nat (length batches)) @
     concat (map batch_bytes batches)"

lemma read_u32_append [simp]: "read_u32 (bytes_of_u32 w @ rest) = Inr (w, rest)"
  by (simp add: read_u32_def)

lemma read_u64_append [simp]: "read_u64 (bytes_of_u64 w @ rest) = Inr (w, rest)"
  by (simp add: read_u64_def)

lemma expect_magic_append [simp]:
  "length magic = 4 \<Longrightarrow> expect_magic magic (str_bytes magic @ bytes_of_u32 1 @ rest) = Inr rest"
  by (simp add: expect_magic_def)

lemma read_extents_append:
  "read_extents (length es) (concat (map (\<lambda>e. bytes_of_u64 (e_offset e) @ bytes_of_u64 (e_length e)) es) @ rest) = Inr es"
  by (induction es) simp_all

lemma read_rows_append:
  "\<forall>row \<in> set rows. row < row_count \<Longrightarrow>
     read_rows (length rows) row_count (concat (map bytes_of_u64 rows) @ rest) before = Inr (before @ rows, rest)"
  by (induction rows arbitrary: before) (simp_all add: not_le)

text \<open>The starts of consecutive batches.\<close>

fun starts_from :: "nat \<Rightarrow> u64 list list \<Rightarrow> nat list" where
  "starts_from pos [] = [pos]"
| "starts_from pos (rows # batches) = pos # starts_from (pos + length rows) batches"

lemma length_starts_from [simp]: "length (starts_from pos batches) = Suc (length batches)"
  by (induction batches arbitrary: pos) simp_all

lemma starts_from_nth: "b \<le> length batches \<Longrightarrow> starts_from pos batches ! b = pos + length (concat (take b batches))"
  by (induction batches arbitrary: pos b) (auto simp: nth_Cons' gr0_conv_Suc split: if_splits)

lemma read_batches_append:
  assumes "\<forall>rows \<in> set batches. length rows < 2 ^ 32 \<and> (\<forall>row \<in> set rows. row < row_count)"
  shows "read_batches (length batches) row_count (concat (map batch_bytes batches) @ rest) t =
    Inr \<lparr>tr_rows = tr_rows t @ concat batches, tr_starts = tr_starts t @ starts_from (length (tr_rows t)) batches\<rparr>"
  using assms
  by (induction batches arbitrary: t) (simp_all add: batch_bytes_def read_rows_append unat_of_nat32)

lemma load_extents_roundtrip:
  assumes "length es < 2 ^ 64"
  shows "load_extents (Some (extents_file es @ rest)) = Inr es"
  using assms read_extents_append by (simp add: load_extents_def extents_file_def unat_of_nat64)

lemma load_trace_file:
  assumes "length batches < 2 ^ 64"
    and "\<forall>rows \<in> set batches. length rows < 2 ^ 32 \<and> (\<forall>row \<in> set rows. row < row_count)"
  shows "load_trace (Some (trace_file batches @ rest)) row_count =
    Inr \<lparr>tr_rows = concat batches, tr_starts = starts_from 0 batches\<rparr>"
  using assms(1) read_batches_append [OF assms(2)] by (simp add: load_trace_def trace_file_def unat_of_nat64)

lemma batch_rows_starts_from:
  assumes "b < length batches"
  shows "batch_rows \<lparr>tr_rows = concat batches, tr_starts = starts_from 0 batches\<rparr> b = batches ! b"
proof -
  have "concat batches = concat (take b batches) @ batches ! b @ concat (drop (Suc b) batches)"
    using id_take_nth_drop [OF assms] by (metis concat.simps(2) concat_append)
  then show ?thesis
    using assms by (simp add: batch_rows_def slice_def starts_from_nth take_Suc_conv_app_nth)
qed

text \<open>A recorded trace is read back batch by batch, whatever follows it in the file.\<close>

lemma load_trace_roundtrip:
  assumes "length batches < 2 ^ 64"
    and "\<forall>rows \<in> set batches. length rows < 2 ^ 32 \<and> (\<forall>row \<in> set rows. row < row_count)"
  shows "\<exists>t. load_trace (Some (trace_file batches @ rest)) row_count = Inr t \<and> batch_count t = length batches \<and>
    map (batch_rows t) [0 ..< batch_count t] = batches"
  using load_trace_file [OF assms]
  by (auto simp: batch_count_def batch_rows_starts_from intro!: nth_equalityI [of _ batches])

section \<open>What a loaded trace satisfies\<close>

text \<open>The starts are in order and end with the number of rows; a batch has fewer than \<open>2 ^ 32\<close> rows, all within the extents.\<close>

definition trace_ok :: "u64 \<Rightarrow> trace \<Rightarrow> bool" where
  "trace_ok row_count t \<longleftrightarrow> tr_starts t \<noteq> [] \<and> last (tr_starts t) = length (tr_rows t) \<and> sorted (tr_starts t) \<and>
     (\<forall>b < batch_count t. tr_starts t ! (b + 1) - tr_starts t ! b < 2 ^ 32) \<and> (\<forall>row \<in> set (tr_rows t). row < row_count)"


lemma read_rows_range:
  assumes "read_rows n row_count bs rows = Inr (rows', file')" and "\<forall>row \<in> set rows. row < row_count"
  shows "(\<forall>row \<in> set rows'. row < row_count) \<and> length rows' = length rows + n"
  using assms
proof (induction n arbitrary: bs rows)
  case (Suc n)
  obtain row bs1 where "\<not> row \<ge> row_count" and step: "read_rows n row_count bs1 (rows @ [row]) = Inr (rows', file')"
    using Suc.prems(1) by (auto split: sum.splits prod.splits if_splits)
  then show ?case using Suc.IH [OF step] Suc.prems(2) by auto
qed simp

lemma read_batches_ok:
  assumes "read_batches n row_count bs t = Inr t'"
    and "trace_ok row_count (t\<lparr>tr_starts := tr_starts t @ [length (tr_rows t)]\<rparr>)"
  shows "trace_ok row_count t'"
  using assms
proof (induction n arbitrary: bs t)
  case (Suc n)
  obtain k file1 rows file2 where r: "read_rows (unat (k :: u32)) row_count file1 (tr_rows t) = Inr (rows, file2)"
    and step: "read_batches n row_count file2 \<lparr>tr_rows = rows, tr_starts = tr_starts t @ [length (tr_rows t)]\<rparr> = Inr t'"
    using Suc.prems(1) by (auto split: sum.splits prod.splits)
  have rr: "\<forall>row \<in> set rows. row < row_count" "length rows = length (tr_rows t) + unat k"
    using read_rows_range [OF r] Suc.prems(2) by (simp_all add: trace_ok_def)
  have "tr_starts t ! b < 2 ^ 32 + tr_starts t ! b" for b by simp
  have "trace_ok row_count \<lparr>tr_rows = rows, tr_starts = (tr_starts t @ [length (tr_rows t)]) @ [length rows]\<rparr>"
    using Suc.prems(2) rr unat_u32 [of k]
    by (auto simp: trace_ok_def batch_count_def sorted_append nth_append less_Suc_eq split: if_splits)
  then show ?case using Suc.IH [OF step] by simp
qed simp

lemma load_trace_ok:
  assumes "load_trace file row_count = Inr t"
  shows "trace_ok row_count t"
proof -
  obtain n file1 where "read_batches n row_count file1 \<lparr>tr_rows = [], tr_starts = []\<rparr> = Inr t"
    using assms by (auto simp: load_trace_def split: option.splits sum.splits prod.splits)
  then show ?thesis by (rule read_batches_ok) (simp add: trace_ok_def batch_count_def)
qed

lemma foldl_max_ge: "x \<in> set xs \<Longrightarrow> f x \<le> foldl (\<lambda>m y. max m (f y)) m0 xs" for f :: "'a \<Rightarrow> 'b :: linorder"
proof -
  have mono: "m0 \<le> foldl (\<lambda>m y. max m (f y)) m0 ys" for m0 ys
    by (induction ys arbitrary: m0) (auto intro: order_trans [OF max.cobounded1])
  show "x \<in> set xs \<Longrightarrow> ?thesis"
    by (induction xs arbitrary: m0) (auto intro: order_trans [OF max.cobounded2 mono])
qed

lemma foldl_max_start: "m0 \<le> foldl (\<lambda>m y. max m (f y)) m0 xs" for f :: "'a \<Rightarrow> 'b :: linorder"
  by (induction xs arbitrary: m0) (auto intro: order_trans [OF max.cobounded1])

text \<open>The lease vector of the replay has room for every batch, and every row of a batch has an extent.\<close>

lemma batch_fits:
  assumes "trace_ok row_count t" and "b < batch_count t"
  shows "length (batch_rows t b) \<le> unat (max_batch_of t)" and "\<forall>row \<in> set (batch_rows t b). row < row_count"
proof -
  let ?n = "tr_starts t ! (b + 1) - tr_starts t ! b"
  have "(of_nat ?n :: u32) \<le> max_batch_of t"
    unfolding max_batch_of_def by (rule foldl_max_ge) (use assms(2) in simp)
  then have "?n \<le> unat (max_batch_of t)"
    using assms by (simp add: trace_ok_def word_le_nat_alt unat_of_nat32)
  then show "length (batch_rows t b) \<le> unat (max_batch_of t)" by (simp add: batch_rows_def slice_def)
  show "\<forall>row \<in> set (batch_rows t b). row < row_count"
    using assms(1) by (auto simp: trace_ok_def batch_rows_def slice_def dest!: in_set_takeD in_set_dropD)
qed

lemma max_batch_pos: "max_batch_of t \<noteq> 0"
proof -
  have "1 \<le> max_batch_of t" unfolding max_batch_of_def by (rule foldl_max_start)
  then show ?thesis by auto
qed

section \<open>The percentile\<close>

lemma percentile_in: "xs \<noteq> [] \<Longrightarrow> percentile xs p \<in> set xs"
  by (simp add: percentile_def Let_def nth_mem min_less_iff_disj)


section \<open>The derived configuration is accepted\<close>

lemma storage_addr_aligned:
  assumes "align \<noteq> 0" and "unat base + unat align \<le> 2 ^ 64"
  shows "storage_addr_of align base mod align = 0"
proof -
  let ?a = "unat align" and ?b = "unat base"
  have a: "0 < ?a" using assms(1) by (simp add: unat_gt_0)
  have le: "base mod align \<le> align" using a by (simp add: word_le_nat_alt unat_mod less_imp_le)
  have pad: "unat ((align - base mod align) mod align) = (?a - ?b mod ?a) mod ?a"
    using le by (simp add: unat_mod unat_sub)
  have small: "?b + (?a - ?b mod ?a) mod ?a < 2 ^ 64" using a assms(2) mod_less_divisor [OF a] by (meson add_le_less_mono le_trans less_le_trans nat_add_left_cancel_less)
  have "unat (storage_addr_of align base) = ?b + (?a - ?b mod ?a) mod ?a"
    unfolding storage_addr_of_def using small pad by (simp add: unat_word_ariths)
  moreover have "(?b + (?a - ?b mod ?a) mod ?a) mod ?a = 0"
  proof -
    have "?b + (?a - ?b mod ?a) = ?b div ?a * ?a + ?a"
      using mod_less_divisor [OF a, of ?b] div_mult_mod_eq [of ?b ?a] by linarith
    then show ?thesis by (simp add: mod_add_right_eq)
  qed
  ultimately show ?thesis by (simp add: word_unat_eq_iff unat_mod)
qed


text \<open>
  The padded table's configuration is one that \<open>create\<close> accepts, if the sizes stay below the wrap-around, the data file is
  not empty, and a chunk size given with uncached fills is a multiple of the alignment.
\<close>

lemma replay_table_config_accepted:
  assumes cfg: "replay_table_config align opts extents (max_batch_of trace) file_bytes base = Some (Inr cfg)"
    and align: "has_single_bit align" and base: "unat base + unat align \<le> 2 ^ 64"
    and rows: "of_nat (length extents) \<noteq> (0 :: u64)" "row_bytes_of extents \<noteq> 0" and data: "file_bytes \<noteq> 0"
    and budget: "unat (storage_bytes_of align opts extents div slot_bytes_of align opts extents) < 2 ^ 32 - 1"
    and batch: "4 * unat (max_batch_of trace) < 2 ^ 32 - 1"
    and chunk: "o_uncached opts \<Longrightarrow> chunk_bytes_of opts mod align = 0"
  shows "create_check cfg = None"
proof -
  let ?slot = "slot_bytes_of align opts extents" and ?mb = "max_batch_of trace"
  let ?rows = "storage_bytes_of align opts extents div ?slot"
  have slot: "?slot \<noteq> 0" and enough: "2 * ucast ?mb \<le> ?rows" and sel:
    "c_row_count cfg = of_nat (length extents)" "c_source_row_bytes cfg = row_bytes_of extents"
    "c_output_row_bytes cfg = ?slot" "c_sources cfg = single_source kSource file_bytes" "c_budget_rows cfg = ucast ?rows"
    "c_max_tickets cfg = 4" "c_max_batch_rows cfg = ?mb" "c_resolve_extent cfg = Some (extent_resolver extents)"
    "c_representation cfg = Identity" "c_output_size cfg = ?rows * ?slot" "c_output_addr cfg = storage_addr_of align base"
    "c_fill_alignment cfg = (if o_uncached opts then align else 0)" "c_fill_chunk_bytes cfg = chunk_bytes_of opts"
    using cfg by (auto simp: replay_table_config_def Let_def not_less split: if_splits)
  have mb: "0 < unat ?mb" using max_batch_pos [of trace] by (simp add: unat_gt_0)
  have twice: "unat (2 * ucast ?mb :: u64) = 2 * unat ?mb" using batch by (simp add: unat_word_ariths)
  then have pos: "0 < unat ?rows" using enough mb by (simp add: word_le_nat_alt)
  have narrow: "unat (ucast ?rows :: u32) = unat ?rows"
    using budget by (simp add: unsigned_ucast_eq take_bit_nat_eq_self)
  then have wide: "(ucast (ucast ?rows :: u32) :: u64) = ?rows" by (simp add: word_unat_eq_iff)
  have b: "(ucast ?rows :: u32) \<noteq> 0" "(ucast ?rows :: u32) < NONE"
    using pos narrow budget by (auto simp: NONE_def word_less_nat_alt simp flip: unat_gt_0)
  have fits: "unat ?rows * unat ?slot \<le> 2 ^ 64 - 1"
    using div_times_less_eq_dividend [of "unat (storage_bytes_of align opts extents)" "unat ?slot"]
      unat_u64 [of "storage_bytes_of align opts extents"] unfolding unat_div_distrib by linarith
  then have guard: "?slot \<le> SIZE_MAX div ?rows"
    using pos by (simp add: word_le_nat_alt unat_div_distrib unat_SIZE_MAX less_eq_div_iff_mult_less_eq mult.commute)
  have four: "unat (ucast ?mb * 4 :: u64) = 4 * unat ?mb" using batch by (simp add: unat_word_ariths)
  have tickets: "(ucast ?mb :: u64) \<le> SIZE_MAX div ucast (4 :: u32)" "(ucast ?mb :: u64) * ucast (4 :: u32) < ucast NONE"
    using batch four by (simp_all add: word_le_nat_alt word_less_nat_alt unat_div_distrib unat_SIZE_MAX NONE_def)
  have aligned: "storage_addr_of align base mod align = 0"
    by (rule storage_addr_aligned [OF _ base]) (use align in \<open>simp add: has_single_bit_def\<close>)
  have rep: "representation_check cfg = None"
    using align by (simp add: representation_check_def sel slot_bytes_of_def has_single_bit_def)
  show ?thesis
    unfolding create_check_None sel
    using rep rows slot max_batch_pos [of trace] b guard wide tickets aligned align chunk data
    by (simp add: single_source_def mult.commute NONE_def)
qed

text \<open>If every extent is empty, or there are none, a buffered replay divides by zero.\<close>

lemma empty_extents_divide_by_zero:
  assumes "\<forall>e \<in> set extents. e_length e = 0" and "\<not> o_uncached opts"
  shows "replay_table_config align opts extents max_batch file_bytes base = None"
proof -
  have "foldl (\<lambda>row_bytes e. max row_bytes (e_length e)) 0 extents = 0" using assms(1) by (induction extents) auto
  then show ?thesis using assms(2) by (simp add: replay_table_config_def slot_bytes_of_def row_bytes_of_def)
qed

end
