(* ===== verification/Trace_Options.thy ===== *)
theory Trace_Options
  imports Trace_Files Http_Parse
begin

text \<open>
  The command line of the replay benchmark (\<open>parse\<close> in bench/trace_replay.cpp). The arguments are the strings after the
  program's name. \<open>None\<close> is the end of the process by an exception of \<open>std::stoull\<close> or \<open>std::stod\<close>, which nothing catches;
  \<open>std::stod\<close> is a parameter, since its value is only used for a delay.
\<close>

record 'd arguments = options +
  o_data :: string
  o_extents :: string
  o_trace :: string
  o_compute_us :: 'd

datatype argument_error = Missing_value string | Unknown_argument string | Usage

text \<open>
  \<open>std::stoull\<close> in base ten, after \<open>strtoull\<close>: white space, a sign, the longest run of digits; what follows is ignored. It
  throws when there is no digit or the magnitude does not fit, and a minus sign negates the result in 64 bits.
\<close>

definition is_space :: "char \<Rightarrow> bool" where
  "is_space c \<longleftrightarrow> of_char c = (32 :: nat) \<or> (9 :: nat) \<le> of_char c \<and> of_char c \<le> (13 :: nat)"

definition stoull :: "string \<Rightarrow> u64 option" where
  "stoull s =
     (let s = dropWhile is_space s;
          minus = (s \<noteq> [] \<and> hd s = CHR ''-''); plus = (s \<noteq> [] \<and> hd s = CHR ''+'');
          ds = takeWhile is_digit (if minus \<or> plus then drop 1 s else s)
      in if ds = [] \<or> digits_value ds \<ge> 2 ^ 64 then None
         else Some (if minus then - of_nat (digits_value ds) else of_nat (digits_value ds)))"

definition default_arguments :: "'d \<Rightarrow> 'd arguments" where
  "default_arguments zero = \<lparr>o_budget_mib = 1024, o_readers = 8, o_chunk_kib = 0, o_limit_batches = 0, o_uncached = False,
     o_size_classed = False, o_data = [], o_extents = [], o_trace = [], o_compute_us = zero\<rparr>"

text \<open>The arguments that have a value, and what each does with it.\<close>

definition valued :: "string \<Rightarrow> bool" where
  "valued a \<longleftrightarrow> a \<in> {''--data'', ''--extents'', ''--trace'', ''--budget-mib'', ''--readers'', ''--compute-us'',
     ''--limit-batches'', ''--chunk-kib''}"

definition set_argument :: "(string \<Rightarrow> 'd option) \<Rightarrow> string \<Rightarrow> string \<Rightarrow> 'd arguments \<Rightarrow> 'd arguments option" where
  "set_argument stod a v o1 =
     (if a = ''--data'' then Some (o1\<lparr>o_data := v\<rparr>)
      else if a = ''--extents'' then Some (o1\<lparr>o_extents := v\<rparr>)
      else if a = ''--trace'' then Some (o1\<lparr>o_trace := v\<rparr>)
      else if a = ''--budget-mib'' then map_option (\<lambda>n. o1\<lparr>o_budget_mib := n\<rparr>) (stoull v)
      else if a = ''--readers'' then map_option (\<lambda>n. o1\<lparr>o_readers := ucast n\<rparr>) (stoull v)
      else if a = ''--compute-us'' then map_option (\<lambda>x. o1\<lparr>o_compute_us := x\<rparr>) (stod v)
      else if a = ''--limit-batches'' then map_option (\<lambda>n. o1\<lparr>o_limit_batches := n\<rparr>) (stoull v)
      else map_option (\<lambda>n. o1\<lparr>o_chunk_kib := n\<rparr>) (stoull v))"

fun parse_loop :: "(string \<Rightarrow> 'd option) \<Rightarrow> string list \<Rightarrow> 'd arguments \<Rightarrow> (argument_error + 'd arguments) option" where
  "parse_loop stod [] o1 = Some (Inr o1)"
| "parse_loop stod (a # rest) o1 =
     (if valued a then
        (case rest of
           [] \<Rightarrow> Some (Inl (Missing_value a))
         | v # rest \<Rightarrow>
             (case set_argument stod a v o1 of
                None \<Rightarrow> None
              | Some o1 \<Rightarrow> parse_loop stod rest o1))
      else if a = ''--size-classed'' then parse_loop stod rest (o1\<lparr>o_size_classed := True\<rparr>)
      else if a = ''--uncached'' then parse_loop stod rest (o1\<lparr>o_uncached := True\<rparr>)
      else Some (Inl (Unknown_argument a)))"

definition parse :: "(string \<Rightarrow> 'd option) \<Rightarrow> 'd \<Rightarrow> string list \<Rightarrow> (argument_error + 'd arguments) option" where
  "parse stod zero argv =
     (case parse_loop stod argv (default_arguments zero) of
        None \<Rightarrow> None
      | Some (Inl error) \<Rightarrow> Some (Inl error)
      | Some (Inr o1) \<Rightarrow>
          Some (if o_data o1 = [] \<or> o_extents o1 = [] \<or> o_trace o1 = [] then Inl Usage else Inr o1))"

section \<open>Printing and parsing\<close>

text \<open>A command line for given options: parsing it gives them back, whatever they are.\<close>

definition show_arguments :: "('d \<Rightarrow> string) \<Rightarrow> 'd arguments \<Rightarrow> string list" where
  "show_arguments show_d o1 =
     [''--data'', o_data o1, ''--extents'', o_extents o1, ''--trace'', o_trace o1,
      ''--budget-mib'', to_string (unat (o_budget_mib o1)), ''--readers'', to_string (unat (o_readers o1)),
      ''--compute-us'', show_d (o_compute_us o1), ''--limit-batches'', to_string (unat (o_limit_batches o1)),
      ''--chunk-kib'', to_string (unat (o_chunk_kib o1))] @
     (if o_size_classed o1 then [''--size-classed''] else []) @ (if o_uncached o1 then [''--uncached''] else [])"

lemma space_not_digit: "is_digit c \<Longrightarrow> \<not> is_space c"
  by (auto simp: is_space_def is_digit_def)

lemma stoull_to_string:
  assumes "n < 2 ^ 64"
  shows "stoull (to_string n) = Some (of_nat n)"
proof -
  obtain c s where s: "to_string n = c # s" using to_string_nonempty list.exhaust by metis
  then have c: "is_digit c" using to_string_digits [of n] by simp
  then have "c \<noteq> CHR ''-''" "c \<noteq> CHR ''+''" by (auto simp: is_digit_def)
  moreover have "dropWhile is_space (to_string n) = to_string n" using s space_not_digit [OF c] by simp
  ultimately show ?thesis
    using s assms takeWhile_all_digits [of n] digits_value_to_string [of n] by (simp add: stoull_def Let_def)
qed

lemma stoull_unat [simp]: "stoull (to_string (unat w)) = Some w" for w :: u64
  using stoull_to_string [OF unat_u64 [of w]] by simp

lemma stoull_readers [simp]: "stoull (to_string (unat r)) = Some (ucast r)" for r :: u32
proof -
  have "unat r < 2 ^ 64" using unat_u32 [of r] by simp
  moreover have "(of_nat (unat r) :: u64) = ucast r" by simp
  ultimately show ?thesis using stoull_to_string by metis
qed

lemma valued_simps [simp]:
  "valued ''--data''" "valued ''--extents''" "valued ''--trace''" "valued ''--budget-mib''" "valued ''--readers''"
  "valued ''--compute-us''" "valued ''--limit-batches''" "valued ''--chunk-kib''"
  "\<not> valued ''--size-classed''" "\<not> valued ''--uncached''"
  by (simp_all add: valued_def)

lemma parse_show_arguments:
  assumes "o_data o1 \<noteq> []" and "o_extents o1 \<noteq> []" and "o_trace o1 \<noteq> []"
    and "stod (show_d (o_compute_us o1)) = Some (o_compute_us o1)"
  shows "parse stod zero (show_arguments show_d o1) = Some (Inr o1)"
proof -
  have "ucast (ucast r :: u64) = r" for r :: u32 by (rule ucast_up_ucast_id) (simp add: is_up)
  with assms show ?thesis
    by (cases o1) (simp add: parse_def show_arguments_def set_argument_def default_arguments_def)
qed

text \<open>What the number arguments let through: a negative number, and a number of readers that does not fit.\<close>

lemma negative_budget_accepted: "stoull ''-1'' = Some 0xFFFFFFFFFFFFFFFF"
  by (simp add: stoull_def is_space_def is_digit_def digits_value_def digit_value_def)

lemma no_number_terminates:
  "parse stod zero [''--data'', d, ''--budget-mib'', ''x''] = None"
  by (simp add: parse_def set_argument_def stoull_def is_space_def is_digit_def)

end
