(* ===== verification/Trace_Replay.thy ===== *)
theory Trace_Replay
  imports Size_Classed_Calls Trace_Files
begin

text \<open>
  The consumer loop of the replay benchmark (bench/trace_replay.cpp). \<open>replay\<close> is a template over the table type: here it takes
  the table's operations as a record, and the locale \<open>cache_client\<close> says what the loop needs of them. Both instances the
  program uses, \<open>Table\<close> and \<open>SizeClassedTable\<close>, keep that contract. Times are not modelled.
\<close>

section \<open>The operations the loop calls\<close>

text \<open>
  \<open>op_prefetch\<close> drops the ticket at once. \<open>op_resolve b i\<close> is \<open>resolve_into\<close> for entry \<open>i\<close> of batch \<open>b\<close>, with the lease variable
  it writes; its first component is the error. \<open>None\<close> is a call that does not return or terminates the process.
\<close>

record ('s, 'l) cache_ops =
  op_prefetch :: "nat \<Rightarrow> u64 list \<Rightarrow> 's \<Rightarrow> 's option"
  op_try_get :: "u64 \<Rightarrow> 's \<Rightarrow> 'l option \<times> 's"
  op_resolve :: "nat \<Rightarrow> nat \<Rightarrow> u64 \<Rightarrow> 'l option \<Rightarrow> 's \<Rightarrow> (status option \<times> 'l option \<times> 's) option"
  op_reset :: "'l option \<Rightarrow> 's \<Rightarrow> 's option"
  op_drain :: "'s \<Rightarrow> 's option"
  op_stats :: "'s \<Rightarrow> table_stats"

definition failure :: "status + nat \<Rightarrow> status option" where
  "failure r = (case r of Inl error \<Rightarrow> Some error | Inr _ \<Rightarrow> None)"

text \<open>\<open>Table\<close>: \<open>others b i\<close> is what the other threads do during the call for entry \<open>i\<close> of batch \<open>b\<close>.\<close>

definition table_ops :: "'m transport \<Rightarrow> (nat \<Rightarrow> nat \<Rightarrow> nat \<Rightarrow> 'm table \<Rightarrow> 'm table) \<Rightarrow> ('m table \<Rightarrow> 'm table) \<Rightarrow>
    ('m table, lease) cache_ops" where
  "table_ops tp others draining =
     \<lparr>op_prefetch = (\<lambda>b rows t.
        case prefetch tp rows t of
          (Inl _, t) \<Rightarrow> Some t
        | (Inr ticket, t) \<Rightarrow> discard_ticket (pt_record ticket) (pt_generation ticket) t),
      op_try_get = try_get,
      op_resolve = (\<lambda>b i row v t.
        map_option (\<lambda>(r, out, t). (failure r, hd out, t)) (resolve_into tp (\<lambda>_. others b i) [row] [v] t)),
      op_reset = (\<lambda>v. release_leases [v]),
      op_drain = (\<lambda>t. map_option snd (drain draining None t)),
      op_stats = stats\<rparr>"

text \<open>\<open>SizeClassedTable\<close>: \<open>draining c\<close> is for the table of class \<open>c\<close>.\<close>

definition classed_ops :: "'m transport \<Rightarrow> (nat \<Rightarrow> nat \<Rightarrow> nat \<Rightarrow> 'm table \<Rightarrow> 'm table) \<Rightarrow> (nat \<Rightarrow> 'm table \<Rightarrow> 'm table) \<Rightarrow>
    ('m size_classed, nat \<times> lease) cache_ops" where
  "classed_ops tp others draining =
     \<lparr>op_prefetch = (\<lambda>b rows z. map_option snd (size_classed_prefetch tp rows z)),
      op_try_get = size_classed_try_get,
      op_resolve = (\<lambda>b i row v z.
        map_option (\<lambda>(r, out, z). (failure r, hd out, z)) (size_classed_resolve_into tp (\<lambda>_. others b i) [row] [v] z)),
      op_reset = (\<lambda>v z. map_option (\<lambda>ts. z\<lparr>z_tables := ts\<rparr>) (reset_lease v (z_tables z))),
      op_drain = (\<lambda>z. map_option snd (size_classed_drain draining None z)),
      op_stats = size_classed_stats\<rparr>"

section \<open>The loop\<close>

record replay =
  rp_accesses :: u64
  rp_misses :: u64
  rp_miss_bytes :: u64

text \<open>One access: a hit is moved into the lease variable, a miss is resolved into it.\<close>

definition replay_row :: "('s, 'l) cache_ops \<Rightarrow> extent list \<Rightarrow> nat \<Rightarrow> nat \<Rightarrow> u64 \<Rightarrow>
    'l option list \<times> 's \<times> replay \<Rightarrow> (replay_error + 'l option list \<times> 's \<times> replay) option" where
  "replay_row ops extents b i row = (\<lambda>(leases, s, r).
     (let r = r\<lparr>rp_accesses := rp_accesses r + 1\<rparr> in
      case op_try_get ops row s of
        (Some l, s) \<Rightarrow>
          map_option (\<lambda>s. Inr (leases[i := Some l], s, r)) (op_reset ops (leases ! i) s)
      | (None, s) \<Rightarrow>
          let r = r\<lparr>rp_misses := rp_misses r + 1,
                    rp_miss_bytes := rp_miss_bytes r + e_length (extents ! unat row)\<rparr>
          in case op_resolve ops b i row (leases ! i) s of
               None \<Rightarrow> None
             | Some (Some _, _, _) \<Rightarrow> Some (Inl (Resolve_failed b))
             | Some (None, v, s) \<Rightarrow> Some (Inr (leases[i := v], s, r))))"

fun replay_rows :: "('s, 'l) cache_ops \<Rightarrow> extent list \<Rightarrow> nat \<Rightarrow> nat \<Rightarrow> u64 list \<Rightarrow>
    'l option list \<times> 's \<times> replay \<Rightarrow> (replay_error + 'l option list \<times> 's \<times> replay) option" where
  "replay_rows ops extents b i [] state = Some (Inr state)"
| "replay_rows ops extents b i (row # rows) state =
     (case replay_row ops extents b i row state of
        None \<Rightarrow> None
      | Some (Inl error) \<Rightarrow> Some (Inl error)
      | Some (Inr state) \<Rightarrow> replay_rows ops extents b (i + 1) rows state)"

fun reset_all :: "('s, 'l) cache_ops \<Rightarrow> 'l option list \<Rightarrow> 's \<Rightarrow> 's option" where
  "reset_all ops [] s = Some s"
| "reset_all ops (v # vs) s = Option.bind (op_reset ops v s) (reset_all ops vs)"

text \<open>One batch: the leases of the last one are released, the rows prefetched, then accessed.\<close>

definition replay_batch :: "('s, 'l) cache_ops \<Rightarrow> extent list \<Rightarrow> nat \<Rightarrow> u64 list \<Rightarrow>
    'l option list \<times> 's \<times> replay \<Rightarrow> (replay_error + 'l option list \<times> 's \<times> replay) option" where
  "replay_batch ops extents b rows = (\<lambda>(leases, s, r).
     (case Option.bind (reset_all ops leases s) (op_prefetch ops b rows) of
        None \<Rightarrow> None
      | Some s \<Rightarrow> replay_rows ops extents b 0 rows (replicate (length leases) None, s, r)))"

fun replay_batches :: "('s, 'l) cache_ops \<Rightarrow> extent list \<Rightarrow> trace \<Rightarrow> nat list \<Rightarrow>
    'l option list \<times> 's \<times> replay \<Rightarrow> (replay_error + 'l option list \<times> 's \<times> replay) option" where
  "replay_batches ops extents trace [] state = Some (Inr state)"
| "replay_batches ops extents trace (b # bs) state =
     (case replay_batch ops extents b (batch_rows trace b) state of
        None \<Rightarrow> None
      | Some (Inl error) \<Rightarrow> Some (Inl error)
      | Some (Inr state) \<Rightarrow> replay_batches ops extents trace bs state)"

text \<open>The whole replay: at the end every lease is released, the table drained and its statistics read.\<close>

definition replay_run :: "('s, 'l) cache_ops \<Rightarrow> trace \<Rightarrow> extent list \<Rightarrow> nat \<Rightarrow> u32 \<Rightarrow> 's \<Rightarrow>
    (replay_error + replay \<times> table_stats \<times> 's) option" where
  "replay_run ops trace extents batches max_batch s =
     (case replay_batches ops extents trace [0 ..< batches]
             (replicate (unat max_batch) None, s, \<lparr>rp_accesses = 0, rp_misses = 0, rp_miss_bytes = 0\<rparr>) of
        None \<Rightarrow> None
      | Some (Inl error) \<Rightarrow> Some (Inl error)
      | Some (Inr (leases, s, r)) \<Rightarrow>
          map_option (\<lambda>s. Inr (r, op_stats ops s, s)) (Option.bind (reset_all ops leases s) (op_drain ops)))"

section \<open>main\<close>

text \<open>
  \<open>main\<close> from its options on: the two files, the size of the data file, whether the backend could be created (with this many
  workers and this queue capacity) and the file registered, and where the storage was allocated. The table goes out of scope
  at the end, where its destructor checks that nothing is outstanding.
\<close>

definition replay_sized :: "'m transport \<Rightarrow> (nat \<Rightarrow> nat \<Rightarrow> nat \<Rightarrow> 'm table \<Rightarrow> 'm table) \<Rightarrow> (nat \<Rightarrow> 'm table \<Rightarrow> 'm table) \<Rightarrow>
    (nat \<Rightarrow> 'm) \<Rightarrow> size_classed_config \<Rightarrow> trace \<Rightarrow> extent list \<Rightarrow> nat \<Rightarrow> u32 \<Rightarrow>
    (replay_error + replay \<times> table_stats) option" where
  "replay_sized tp others draining mems cfg trace extents batches max_batch =
     (case size_classed_create tp mems cfg of
        None \<Rightarrow> None
      | Some (Inl _) \<Rightarrow> Some (Inl Create_failed)
      | Some (Inr z) \<Rightarrow>
          (case replay_run (classed_ops tp others draining) trace extents batches max_batch z of
             None \<Rightarrow> None
           | Some (Inl error) \<Rightarrow> Some (Inl error)
           | Some (Inr (r, s, z)) \<Rightarrow>
               if \<exists>t \<in> set (z_tables z). destroy t = None then None else Some (Inr (r, s))))"

definition replay_padded :: "'m transport \<Rightarrow> (nat \<Rightarrow> nat \<Rightarrow> nat \<Rightarrow> 'm table \<Rightarrow> 'm table) \<Rightarrow> ('m table \<Rightarrow> 'm table) \<Rightarrow>
    'm \<Rightarrow> table_config \<Rightarrow> trace \<Rightarrow> extent list \<Rightarrow> nat \<Rightarrow> u32 \<Rightarrow> (replay_error + replay \<times> table_stats) option" where
  "replay_padded tp others draining m cfg trace extents batches max_batch =
     (case create tp cfg m of
        Inl _ \<Rightarrow> Some (Inl Create_failed)
      | Inr t \<Rightarrow>
          (case replay_run (table_ops tp others draining) trace extents batches max_batch t of
             None \<Rightarrow> None
           | Some (Inl error) \<Rightarrow> Some (Inl error)
           | Some (Inr (r, s, t)) \<Rightarrow> map_option (\<lambda>_. Inr (r, s)) (destroy t)))"

definition replay_main :: "u64 \<Rightarrow> 'm transport \<Rightarrow> (nat \<Rightarrow> nat \<Rightarrow> nat \<Rightarrow> 'm table \<Rightarrow> 'm table) \<Rightarrow> (nat \<Rightarrow> 'm table \<Rightarrow> 'm table) \<Rightarrow>
    (nat \<Rightarrow> 'm) \<Rightarrow> (u32 \<Rightarrow> u32 \<Rightarrow> bool) \<Rightarrow> bool \<Rightarrow> u64 \<Rightarrow> options \<Rightarrow> bytes option \<Rightarrow> bytes option \<Rightarrow> u64 option \<Rightarrow>
    (replay_error + replay \<times> table_stats) option" where
  "replay_main align tp others draining mems backend_ok registered base opts extents_bytes trace_bytes data_size =
     (case load_extents extents_bytes of
        Inl error \<Rightarrow> Some (Inl error)
      | Inr extents \<Rightarrow>
     (case load_trace trace_bytes (of_nat (length extents)) of
        Inl error \<Rightarrow> Some (Inl error)
      | Inr trace \<Rightarrow>
        let max_batch = max_batch_of trace; batches = batches_of opts trace in
     (case data_size of
        None \<Rightarrow> Some (Inl Cannot_stat)
      | Some file_bytes \<Rightarrow>
        if \<not> backend_ok (o_readers opts) (queue_capacity_of align opts extents max_batch) then Some (Inl Backend_failed)
        else if \<not> registered then Some (Inl Cannot_register)
        else if o_size_classed opts then
          replay_sized tp others draining mems (replay_classed_config align opts extents max_batch file_bytes base)
            trace extents batches max_batch
        else
          (case replay_table_config align opts extents max_batch file_bytes base of
             None \<Rightarrow> None
           | Some (Inl error) \<Rightarrow> Some (Inl error)
           | Some (Inr cfg) \<Rightarrow> replay_padded tp others (draining 0) (mems 0) cfg trace extents batches max_batch))))"

section \<open>The contract of the loop\<close>

text \<open>
  \<open>good s ls\<close>: in state \<open>s\<close> exactly the leases \<open>ls\<close> are out. \<open>has s row l\<close>: \<open>l\<close> is a usable lease on \<open>row\<close>. Every call
  returns, leaves the leases that stay out usable, and accounts for the lease it takes or gives. A failing \<open>resolve_into\<close>
  ends the program, so nothing is asked of the state it leaves.
\<close>

definition retains :: "('s \<Rightarrow> u64 \<Rightarrow> 'l \<Rightarrow> bool) \<Rightarrow> 's \<Rightarrow> 's \<Rightarrow> 'l list \<Rightarrow> bool" where
  "retains has s s' ls \<longleftrightarrow> (\<forall>l \<in> set ls. \<forall>row. has s row l \<longrightarrow> has s' row l)"

lemma retains_list: "retains has s s' ls \<Longrightarrow> list_all2 (has s) rows ls \<Longrightarrow> list_all2 (has s') rows ls"
  by (auto simp: retains_def list_all2_conv_all_nth)

text \<open>The call returns, with an error of the first kind or a value of the second.\<close>

definition outcome :: "('e \<Rightarrow> bool) \<Rightarrow> ('a \<Rightarrow> bool) \<Rightarrow> ('e + 'a) option \<Rightarrow> bool" where
  "outcome E P r = (case r of None \<Rightarrow> False | Some (Inl e) \<Rightarrow> E e | Some (Inr x) \<Rightarrow> P x)"

lemma outcome_simps [simp]:
  "outcome E P None = False" "outcome E P (Some (Inl e)) = E e" "outcome E P (Some (Inr x)) = P x"
  by (simp_all add: outcome_def)

lemma outcomeE:
  assumes "outcome E P r"
  obtains (error) e where "r = Some (Inl e)" and "E e" | (result) x where "r = Some (Inr x)" and "P x"
  using assms by (auto simp: outcome_def split: option.splits sum.splits)

lemma outcome_mono: "outcome E P r \<Longrightarrow> (\<And>e. E e \<Longrightarrow> E' e) \<Longrightarrow> (\<And>x. P x \<Longrightarrow> P' x) \<Longrightarrow> outcome E' P' r"
  by (erule outcomeE) simp_all

locale cache_client =
  fixes ops :: "('s, 'l) cache_ops" and good :: "'s \<Rightarrow> 'l list \<Rightarrow> bool" and has :: "'s \<Rightarrow> u64 \<Rightarrow> 'l \<Rightarrow> bool"
  assumes good_mset: "mset ls = mset ls' \<Longrightarrow> good s ls \<Longrightarrow> good s ls'"
    and reset_None: "op_reset ops None s = Some s"
    and reset_Some: "good s (l # ls) \<Longrightarrow> \<exists>s'. op_reset ops (Some l) s = Some s' \<and> good s' ls \<and> retains has s s' ls"
    and prefetch_law: "good s ls \<Longrightarrow> \<exists>s'. op_prefetch ops b rows s = Some s' \<and> good s' ls \<and> retains has s s' ls"
    and try_get_None: "good s ls \<Longrightarrow> op_try_get ops row s = (None, s') \<Longrightarrow> good s' ls \<and> retains has s s' ls"
    and try_get_Some: "good s ls \<Longrightarrow> op_try_get ops row s = (Some l, s') \<Longrightarrow>
      good s' (l # ls) \<and> has s' row l \<and> retains has s s' ls"
    and resolve_law: "good s ls \<Longrightarrow> \<exists>e v s'. op_resolve ops b i row None s = Some (e, v, s') \<and>
      (e = None \<longrightarrow> (\<exists>l. v = Some l \<and> good s' (l # ls) \<and> has s' row l \<and> retains has s s' ls))"
    and drain_law: "good s ls \<Longrightarrow> \<exists>s'. op_drain ops s = Some s' \<and> good s' ls"
begin

lemma replay_row_result:
  assumes good: "good s ls" and earlier: "list_all2 (has s) before ls"
  shows "outcome (\<lambda>e. e = Resolve_failed b)
    (\<lambda>(leases, s', r'). \<exists>l. leases = map Some (ls @ [l]) @ rest \<and> good s' (ls @ [l]) \<and>
       list_all2 (has s') (before @ [row]) (ls @ [l]) \<and> rp_accesses r' = rp_accesses r + 1)
    (replay_row ops extents b (length ls) row (map Some ls @ None # rest, s, r))"
proof -
  have upd: "(map Some ls @ None # rest)[length ls := v] = map Some ls @ v # rest" for v
    using list_update_length [of "map Some ls"] by simp
  have nth: "(map Some ls @ None # rest) ! length ls = None"
    using nth_append_length [of "map Some ls"] by simp
  have snoc: "good s' (ls @ [l])" "list_all2 (has s') (before @ [row]) (ls @ [l])"
    if "good s' (l # ls)" "has s' row l" "retains has s1 s' ls" "list_all2 (has s1) before ls" for s1 s' l
    by (rule good_mset [OF _ that(1)], simp)
      (rule list_all2_appendI [OF retains_list [OF that(3,4)]], simp add: that(2))
  obtain hit s1 where get: "op_try_get ops row s = (hit, s1)" by fastforce
  show ?thesis
  proof (cases hit)
    case (Some l)
    note g = try_get_Some [OF good get [unfolded Some]]
    have sn: "good s1 (ls @ [l])" "list_all2 (has s1) (before @ [row]) (ls @ [l])"
      using snoc [of s1 l s] g earlier by blast+
    have run: "replay_row ops extents b (length ls) row (map Some ls @ None # rest, s, r) =
        Some (Inr (map Some (ls @ [l]) @ rest, s1, r\<lparr>rp_accesses := rp_accesses r + 1\<rparr>))"
      unfolding replay_row_def by (simp add: get Some nth reset_None upd)
    show ?thesis unfolding run outcome_simps prod.case using sn by (intro exI [of _ l]) simp
  next
    case None
    note g = try_get_None [OF good get [unfolded None]]
    have earlier1: "list_all2 (has s1) before ls" by (rule retains_list [OF conjunct2 [OF g] earlier])
    obtain e v s2 where res: "op_resolve ops b (length ls) row None s1 = Some (e, v, s2)"
      and ok: "e = None \<longrightarrow> (\<exists>l. v = Some l \<and> good s2 (l # ls) \<and> has s2 row l \<and> retains has s1 s2 ls)"
      using resolve_law g by blast
    show ?thesis
    proof (cases e)
      case e: None
      then obtain l where l: "v = Some l" "good s2 (l # ls)" "has s2 row l" "retains has s1 s2 ls" using ok by blast
      note sn = snoc [OF l(2,3,4) earlier1]
      obtain r' where run: "replay_row ops extents b (length ls) row (map Some ls @ None # rest, s, r) =
          Some (Inr (map Some (ls @ [l]) @ rest, s2, r'))" and "rp_accesses r' = rp_accesses r + 1"
        unfolding replay_row_def by (simp add: get None nth res e upd l(1))
      with sn show ?thesis unfolding run outcome_simps prod.case by (intro exI [of _ l]) simp
    qed (simp add: replay_row_def get None nth res)
  qed
qed

lemma replay_rows_result:
  assumes "good s ls" and "list_all2 (has s) before ls" and "length rows \<le> m"
  shows "outcome (\<lambda>e. e = Resolve_failed b)
    (\<lambda>(leases, s', r'). \<exists>ls'. leases = map Some ls' @ replicate (m - length rows) None \<and> good s' ls' \<and>
       list_all2 (has s') (before @ rows) ls' \<and> rp_accesses r' = rp_accesses r + of_nat (length rows))
    (replay_rows ops extents b (length ls) rows (map Some ls @ replicate m None, s, r))"
  using assms
proof (induction rows arbitrary: s ls before m r)
  case (Cons row rows)
  obtain m1 where m1: "m = Suc m1" using Cons.prems(3) by (cases m) auto
  from replay_row_result [OF Cons.prems(1,2), of b "replicate m1 None" row r extents] show ?case
  proof (cases rule: outcomeE)
    case (result state)
    then obtain l s1 r1 where st: "state = (map Some (ls @ [l]) @ replicate m1 None, s1, r1)" and g: "good s1 (ls @ [l])"
      and d: "list_all2 (has s1) (before @ [row]) (ls @ [l])" and r1: "rp_accesses r1 = rp_accesses r + 1"
      by (cases state) auto
    show ?thesis using Cons.IH [OF g d, of m1 r1] Cons.prems(3) result(1) r1
      by (simp add: m1 st) (simp add: algebra_simps)
  qed (simp add: m1)
qed simp

lemma reset_all_result:
  assumes "good s (ls @ keep)"
  shows "\<exists>s'. reset_all ops (map Some ls @ replicate m None) s = Some s' \<and> good s' keep \<and> retains has s s' keep"
  using assms
proof (induction ls arbitrary: s)
  case Nil
  have "reset_all ops (replicate m None) s = Some s" by (induction m) (simp_all add: reset_None)
  then show ?case using Nil by (simp add: retains_def)
next
  case (Cons l ls)
  then obtain s1 where s1: "op_reset ops (Some l) s = Some s1" "good s1 (ls @ keep)" "retains has s s1 (ls @ keep)"
    using reset_Some by fastforce
  show ?case using Cons.IH [OF s1(2)] s1(1,3) by (auto simp: retains_def)
qed

lemma replay_batch_result:
  assumes "good s ls" and "length rows \<le> length ls + m"
  shows "outcome (\<lambda>e. e = Resolve_failed b)
    (\<lambda>(leases, s', r'). \<exists>ls'. leases = map Some ls' @ replicate (length ls + m - length rows) None \<and> good s' ls' \<and>
       list_all2 (has s') rows ls' \<and> rp_accesses r' = rp_accesses r + of_nat (length rows))
    (replay_batch ops extents b rows (map Some ls @ replicate m None, s, r))"
proof -
  obtain s1 where s1: "reset_all ops (map Some ls @ replicate m None) s = Some s1" "good s1 []"
    using reset_all_result [of s ls "[]"] assms(1) by auto
  obtain s2 where s2: "op_prefetch ops b rows s1 = Some s2" "good s2 []" using prefetch_law [OF s1(2)] by blast
  show ?thesis
    using replay_rows_result [OF s2(2), of "[]" rows "length ls + m" b r extents] assms(2)
    by (simp add: replay_batch_def s1 s2)
qed

lemma replay_batches_result:
  assumes "good s ls" and "length ls + m = n" and "\<forall>b \<in> set bs. length (batch_rows trace b) \<le> n"
  shows "outcome (\<lambda>e. \<exists>b \<in> set bs. e = Resolve_failed b)
    (\<lambda>(leases, s', r'). \<exists>ls' m'. leases = map Some ls' @ replicate m' None \<and> length ls' + m' = n \<and> good s' ls' \<and>
       rp_accesses r' = rp_accesses r + of_nat (length (concat (map (batch_rows trace) bs))))
    (replay_batches ops extents trace bs (map Some ls @ replicate m None, s, r))"
  using assms
proof (induction bs arbitrary: s ls m r)
  case (Cons b bs)
  have fits: "length (batch_rows trace b) \<le> length ls + m" using Cons.prems(2,3) by simp
  from replay_batch_result [OF Cons.prems(1) fits, of b r extents] show ?case
  proof (cases rule: outcomeE)
    case (result state)
    let ?m = "length ls + m - length (batch_rows trace b)"
    obtain ls1 s1 r1 where st: "state = (map Some ls1 @ replicate ?m None, s1, r1)"
      and g: "good s1 ls1" and d: "list_all2 (has s1) (batch_rows trace b) ls1"
      and r1: "rp_accesses r1 = rp_accesses r + of_nat (length (batch_rows trace b))"
      using result(2) by (cases state) auto
    have "length ls1 + ?m = n" using list_all2_lengthD [OF d] fits Cons.prems(2) by simp
    then have "outcome (\<lambda>e. \<exists>b \<in> set bs. e = Resolve_failed b)
      (\<lambda>(leases, s', r'). \<exists>ls' m'. leases = map Some ls' @ replicate m' None \<and> length ls' + m' = n \<and> good s' ls' \<and>
         rp_accesses r' = rp_accesses r1 + of_nat (length (concat (map (batch_rows trace) bs))))
      (replay_batches ops extents trace bs state)"
      unfolding st using Cons.IH [OF g] Cons.prems(3) by simp
    then show ?thesis using result(1) r1 by (auto simp: algebra_simps elim!: outcome_mono)
  qed simp
qed auto

text \<open>The replay returns; without a failed \<open>resolve_into\<close> it has accessed every row and left no lease out.\<close>

lemma replay_run_result:
  assumes "good s []" and "\<forall>b < batches. length (batch_rows trace b) \<le> unat max_batch"
  shows "outcome (\<lambda>e. \<exists>b < batches. e = Resolve_failed b)
    (\<lambda>(r, st, s'). good s' [] \<and> st = op_stats ops s' \<and> (\<exists>u. good u [] \<and> op_drain ops u = Some s') \<and>
       rp_accesses r = of_nat (length (concat (map (batch_rows trace) [0 ..< batches]))))
    (replay_run ops trace extents batches max_batch s)"
proof -
  let ?r = "\<lparr>rp_accesses = 0, rp_misses = 0, rp_miss_bytes = 0\<rparr>"
  have fits: "\<forall>b \<in> set [0 ..< batches]. length (batch_rows trace b) \<le> unat max_batch" using assms(2) by simp
  have none: "length ([] :: 'l list) + unat max_batch = unat max_batch" by simp
  from replay_batches_result [OF assms(1) none fits, of ?r extents] show ?thesis
  proof (cases rule: outcomeE)
    case (result state)
    from result(2) obtain ls m s1 r1 where st: "state = (map Some ls @ replicate m None, s1, r1)" and g: "good s1 ls"
      and r1: "rp_accesses r1 = of_nat (length (concat (map (batch_rows trace) [0 ..< batches])))"
      by (cases state) auto
    obtain s2 where s2: "reset_all ops (map Some ls @ replicate m None) s1 = Some s2" "good s2 []"
      using reset_all_result [of s1 ls "[]"] g by auto
    obtain s3 where s3: "op_drain ops s2 = Some s3" "good s3 []" using drain_law [OF s2(2)] by blast
    show ?thesis using result(1) st s2 s3 r1 by (auto simp: replay_run_def)
  qed (auto simp: replay_run_def)
qed

end

end
