(* ===== verification/Trace_Tables.thy ===== *)
theory Trace_Tables
  imports Trace_Replay
begin

text \<open>
  The two tables keep the contract of the replay loop: every lease and every ticket is accounted for, so that the replay
  ends with a table its destructor accepts.
\<close>

section \<open>The environment\<close>

text \<open>
  The replay has one consumer; beside it only the table's completion worker runs. It touches no pin and no ticket, leaves
  leased slots and claimed fills alone, finishes what it has claimed, and ends every fill once nobody starts new ones.
\<close>

definition keeps_tickets :: "(nat \<Rightarrow> 'm table \<Rightarrow> 'm table) \<Rightarrow> bool" where
  "keeps_tickets others \<longleftrightarrow> (\<forall>k t. tickets_held (others k t) = tickets_held t)"

definition drains :: "('m table \<Rightarrow> 'm table) \<Rightarrow> bool" where
  "drains draining \<longleftrightarrow> (\<forall>t. table_inv t \<longrightarrow>
     (\<forall>ls. held_ok t ls \<longrightarrow> interferes (pins_of ls) t (draining t)) \<and> same_pins t (draining t) \<and>
     tickets_held (draining t) = tickets_held t \<and> in_flight (draining t) = 0)"

definition worker_only :: "'m transport \<Rightarrow> (nat \<Rightarrow> nat \<Rightarrow> nat \<Rightarrow> 'm table \<Rightarrow> 'm table) \<Rightarrow> bool" where
  "worker_only tp others \<longleftrightarrow> waits_out tp \<and>
     (\<forall>b i. waits_settle (others b i) \<and> keeps_pins (others b i) \<and> keeps_tickets (others b i) \<and>
        (\<forall>ls j. relies ls j (others b i)))"

section \<open>Tickets\<close>

lemma admit_row_tickets:
  assumes inv: "table_inv t" and run: "admit_row tp row t = (r, t')"
  shows "tickets_held t' = tickets_held t"
proof (cases "table_find t row (current_generation t)")
  case (Some i)
  then show ?thesis using run by (auto simp: admit_row_def Let_def pin_slot_def upd_slot_def split: if_splits)
next
  case None
  obtain w u where vict: "claim_victim tp t = (w, u)" by fastforce
  have u: "tickets_held u = tickets_held t" using claim_victim_result(1) [OF vict inv] by (simp add: evicts_def env_of_eq)
  show ?thesis
  proof (cases w)
    case None
    then show ?thesis using run \<open>table_find t row (current_generation t) = None\<close> vict u by (simp add: admit_row_def)
  next
    case (Some i)
    obtain st v where start: "start_fill_locked tp i row u = (st, v)" by fastforce
    have "tickets_held v = tickets_held t" by (rule miss_result(13) [OF inv None vict [unfolded Some] start])
    then show ?thesis using run None vict Some start
      by (auto simp: admit_row_def Let_def pin_slot_def upd_slot_def split: if_splits)
  qed
qed

lemma publish_fill_tickets: "tickets_held (publish_fill tp i scratch result t) = tickets_held t"
  by (simp add: publish_fill_def Let_def upd_slot_def count_def unindex_locked_def release_scratch_def leave_binding_def
    split: option.split)

lemma convert_fill_tickets: "tickets_held (snd (convert_fill tp i raw t)) = tickets_held t"
  by (simp add: convert_fill_def Let_def split: option.split prod.split)

lemma finish_fill_tickets:
  assumes "keeps_tickets others"
  shows "tickets_held (finish_fill tp (others 1) i None t) = tickets_held t"
proof -
  obtain raw m where w: "await_fill tp (slots t ! i) None (mem t) = (raw, m)" by fastforce
  let ?u = "others 1 (t\<lparr>mem := m\<rparr>)"
  have u: "tickets_held ?u = tickets_held t" using assms by (simp add: keeps_tickets_def)
  obtain result v where c: "convert_fill tp i raw ?u = (result, v)" by fastforce
  then have "tickets_held v = tickets_held t" using convert_fill_tickets [of tp i raw ?u] u by simp
  then show ?thesis
    using u by (simp add: finish_fill_def Let_def w c publish_fill_tickets relinquish_fill_def upd_slot_def del: One_nat_def)
qed

lemma drive_row_tickets:
  assumes "drive_row tp others l t = Some (st, l', t')" and keep: "keeps_tickets others"
  shows "tickets_held t' = tickets_held t"
  using assms(1) finish_fill_tickets [OF keep] keep
  by (auto simp: drive_row_def Let_def keeps_tickets_def upd_slot_def split: if_splits)

lemma resolve_single_tickets:
  assumes run: "resolve_into tp (\<lambda>_. others) [row] [None] t = Some (r, out', t')" and inv: "table_inv t"
    and batch: "c_max_batch_rows (config t) \<noteq> 0" and keep: "keeps_tickets others"
  shows "tickets_held t' = tickets_held t"
proof (cases "row < c_row_count (config t)")
  case False
  then show ?thesis using run batch_pos [OF batch] by (auto simp: resolve_into_def not_less)
next
  case True
  note single = run [unfolded resolve_into_single [OF True batch]]
  obtain a t1 where adm: "admit_row tp row t = (a, t1)" by fastforce
  note t1 = admit_row_tickets [OF inv adm]
  show ?thesis
  proof (cases a)
    case (Inl e)
    then show ?thesis using single adm t1 by (auto split: if_splits)
  next
    case (Inr l)
    then obtain st l' t2 where dr: "drive_row tp others l t1 = Some (st, l', t2)"
      using single adm by (auto split: option.splits)
    have "tickets_held t' = tickets_held t2"
      using single adm Inr dr by (auto simp: release_lease_def unpin_locked_def upd_slot_def split: if_splits)
    then show ?thesis using drive_row_tickets [OF dr keep] t1 by simp
  qed
qed

section \<open>The padded table\<close>

definition exact_pins :: "'m table \<Rightarrow> lease list \<Rightarrow> bool" where
  "exact_pins t ls \<longleftrightarrow> (\<forall>j < length (slots t). s_pins (slots t ! j) = pins_of ls j)"

definition table_good :: "'m transport \<Rightarrow> (nat \<Rightarrow> nat \<Rightarrow> nat \<Rightarrow> 'm table \<Rightarrow> 'm table) \<Rightarrow> ('m table \<Rightarrow> 'm table) \<Rightarrow>
    table_config \<Rightarrow> 'm table \<Rightarrow> lease list \<Rightarrow> bool" where
  "table_good tp others draining cfg t ls \<longleftrightarrow> worker_only tp others \<and> drains draining \<and> c_max_batch_rows cfg \<noteq> 0 \<and>
     table_inv t \<and> config t = cfg \<and> held_ok t ls \<and> exact_pins t ls \<and> tickets_held t = 0"

lemma held_ok_pins:
  assumes "held_ok t ls" and "length (slots t') = length (slots t)" and "exact_pins t' ls"
    and "\<And>l. l \<in> set ls \<Longrightarrow> s_epoch (slots t' ! l_slot l) = s_epoch (slots t ! l_slot l)"
  shows "held_ok t' ls"
  using assms by (auto simp: held_ok_def exact_pins_def)

lemma exact_pins_mset: "mset ls = mset ls' \<Longrightarrow> exact_pins t ls \<Longrightarrow> exact_pins t ls'"
proof -
  assume eq: "mset ls = mset ls'"
  have "pins_of ls j = pins_of ls' j" for j
    unfolding pins_of_def tally_def by (simp add: eq flip: sum_mset_sum_list)
  then show "exact_pins t ls \<Longrightarrow> exact_pins t ls'" by (simp add: exact_pins_def)
qed

lemma reset_keeps:
  assumes held: "held_ok t (l # ls)" and inv: "table_inv t" and pins: "exact_pins t (l # ls)"
  shows "\<exists>t'. release_leases [Some l] t = Some t' \<and> table_inv t' \<and> config t' = config t \<and> held_ok t' ls \<and>
    exact_pins t' ls \<and> tickets_held t' = tickets_held t \<and> retains lease_done t t' ls"
proof -
  have l: "l_slot l < length (slots t)" "s_epoch (slots t ! l_slot l) = l_epoch l" "s_pins (slots t ! l_slot l) \<noteq> 0"
    using held by (auto simp: held_ok_def)
  obtain u where u: "release_lease (l_slot l) (l_epoch l) t = Some u" "releases (\<lambda>j. of_bool (l_slot l = j)) t u"
    by (rule release_lease_result [OF inv l])
  have held': "held_ok u ls" by (rule held_ok_release [OF held u(2)])
  have "tickets_held u = tickets_held t" using u(1) by (auto simp: release_lease_def unpin_locked_def upd_slot_def split: if_splits)
  moreover have "exact_pins u ls" using pins u(2) by (auto simp: exact_pins_def releases_def)
  moreover have "retains lease_done t u ls"
    using lease_done_releases [OF _ u(2) held'] by (auto simp: retains_def)
  ultimately show ?thesis using u held' by (simp add: releases_def)
qed

lemma admits_held:
  assumes "admits t t'" and "held_ok t ls"
  shows "held_ok t' ls" and "retains lease_done t t' ls"
proof -
  have same: "l_slot l < length (slots t')" "s_epoch (slots t' ! l_slot l) = l_epoch l" if "l \<in> set ls" for l
  proof -
    have "l_slot l < length (slots t)" "s_epoch (slots t ! l_slot l) = l_epoch l" "blocked (slots t ! l_slot l)"
      using assms(2) that pins_of_pos [OF that] by (auto simp: held_ok_def blocked_def)
    then show "l_slot l < length (slots t')" "s_epoch (slots t' ! l_slot l) = l_epoch l"
      using assms(1) same_fillD(2) by (auto simp: admits_def)
  qed
  have "pins_of ls j \<le> s_pins (slots t' ! j)" if j: "j < length (slots t')" for j
  proof (cases "s_pins (slots t ! j) = 0")
    case True
    then show ?thesis using assms j by (auto simp: held_ok_def admits_def)
  next
    case False
    then have "s_pins (slots t ! j) \<le> s_pins (slots t' ! j)" using assms(1) j by (simp add: admits_def blocked_def)
    then show ?thesis using assms j by (force simp: held_ok_def admits_def)
  qed
  then show "held_ok t' ls" using same by (simp add: held_ok_def)
  show "retains lease_done t t' ls" using lease_done_admits [OF _ assms(1)] by (simp add: retains_def)
qed


lemma prefetch_keeps:
  assumes inv: "table_inv t" and held: "held_ok t ls" and pins: "exact_pins t ls"
  shows "\<exists>t'. (case prefetch tp rows t of
      (Inl _, t) \<Rightarrow> Some t
    | (Inr ticket, t) \<Rightarrow> discard_ticket (pt_record ticket) (pt_generation ticket) t) = Some t' \<and>
    table_inv t' \<and> config t' = config t \<and> held_ok t' ls \<and> exact_pins t' ls \<and> tickets_held t' = tickets_held t \<and>
    retains lease_done t t' ls"
proof -
  obtain r u where run: "prefetch tp rows t = (r, u)" by fastforce
  note p = prefetch_result [OF inv run]
  have u: "table_inv u" "config u = config t" "held_ok u ls" "exact_pins u ls" "retains lease_done t u ls"
    using p(1,2) admits_held [OF p(1) held] pins by (auto simp: admits_def exact_pins_def)
  show ?thesis
  proof (cases r)
    case (Inl e)
    then show ?thesis using u p(3) run by auto
  next
    case (Inr tk)
    note tk = p(4) [OF Inr]
    obtain t' where d: "discard_ticket (pt_record tk) (pt_generation tk) u = Some t'"
      and t': "config t' = config u" "slots t' = slots u" "tickets_held t' = tickets_held t"
      using tk by (auto simp: discard_ticket_def Let_def)
    have "table_inv t'" using inv_discard_ticket(1) [OF u(1) _ d] tk by simp
    moreover have "retains lease_done t t' ls"
      using u(5) t' by (auto simp: retains_def lease_done_def lease_ok_def published_span_def output_span_def)
    moreover have "held_ok t' ls" "exact_pins t' ls" using u(3,4) t' by (simp_all add: held_ok_def exact_pins_def)
    ultimately show ?thesis using run Inr d t' u(2) by auto
  qed
qed

lemma try_get_keeps:
  assumes inv: "table_inv t" and held: "held_ok t ls" and pins: "exact_pins t ls" and run: "try_get row t = (r, t')"
  shows "table_inv t' \<and> config t' = config t \<and> tickets_held t' = tickets_held t \<and> retains lease_done t t' ls \<and>
    (case r of None \<Rightarrow> held_ok t' ls \<and> exact_pins t' ls
     | Some l \<Rightarrow> held_ok t' (l # ls) \<and> exact_pins t' (l # ls) \<and> lease_done t' row l)"
proof -
  note g = try_get_result [OF inv run]
  have t: "table_inv t'" "config t' = config t" "length (slots t') = length (slots t)" using g(1) by (simp_all add: admits_def)
  have "tickets_held t' = tickets_held t"
    using run by (auto simp: try_get_def Let_def pin_slot_def upd_slot_def split: if_splits option.splits)
  moreover have "case r of None \<Rightarrow> held_ok t' ls \<and> exact_pins t' ls
     | Some l \<Rightarrow> held_ok t' (l # ls) \<and> exact_pins t' (l # ls) \<and> lease_done t' row l"
  proof (cases r)
    case None
    then show ?thesis using g(5) held pins by (simp add: held_ok_def exact_pins_def)
  next
    case (Some l)
    note l = g(4) [OF Some]
    have ex: "exact_pins t' (l # ls)" using l pins t(3) by (auto simp: exact_pins_def)
    moreover have "held_ok t' (l # ls)"
      using admits_held(1) [OF g(1) held] l ex by (auto simp: held_ok_def exact_pins_def lease_ok_def)
    ultimately show ?thesis using l Some by (simp add: lease_done_def)
  qed
  ultimately show ?thesis using t admits_held(2) [OF g(1) held] by simp
qed

lemma resolve_keeps:
  assumes env: "worker_only tp others" and inv: "table_inv t" and held: "held_ok t ls" and pins: "exact_pins t ls"
    and batch: "c_max_batch_rows (config t) \<noteq> 0"
  shows "\<exists>r v t'. resolve_into tp (\<lambda>_. others b i) [row] [None] t = Some (r, [v], t') \<and>
    table_inv t' \<and> config t' = config t \<and> tickets_held t' = tickets_held t \<and> retains lease_done t t' ls \<and>
    held_ok t' (leases_in [v] @ ls) \<and> exact_pins t' (leases_in [v] @ ls) \<and>
    (case r of Inl _ \<Rightarrow> v = None | Inr _ \<Rightarrow> \<exists>l. v = Some l \<and> lease_done t' row l)"
proof -
  have e: "waits_out tp" "waits_settle (others b i)" "keeps_pins (others b i)" "keeps_tickets (others b i)"
    and rel: "relies ls j (others b i)" for ls j using env by (simp_all add: worker_only_def)
  have "resolve_into tp (\<lambda>_. others b i) [row] [None] t \<noteq> None"
    by (rule resolve_into_returns) (use inv e rel in \<open>simp_all add: call_relies_def held_ok_def\<close>)
  then obtain r out' t' where run: "resolve_into tp (\<lambda>_. others b i) [row] [None] t = Some (r, out', t')" by auto
  have rely: "\<forall>l t1. admit_row tp row t = (Inr l, t1) \<longrightarrow> relies (l # ls) (l_slot l) (others b i)" using rel by blast
  note s = resolve_single_result [OF run inv held batch rely e(1)]
    and p = resolve_single_pins [OF run inv held batch rely e(1,3)]
    and k = resolve_single_tickets [OF run inv batch e(4)]
  obtain v where v: "out' = [v]" "held_ok t' (leases_in [v] @ ls)"
    "case r of Inl _ \<Rightarrow> v = None | Inr _ \<Rightarrow> \<exists>l. v = Some l \<and> lease_done t' row l" using s by blast
  have "exact_pins t' (leases_in [v] @ ls)" using p pins v(1) by (simp add: exact_pins_def)
  then show ?thesis using run s k v by (simp add: retains_def)
qed

lemma drain_keeps:
  assumes "drains draining" and inv: "table_inv t" and held: "held_ok t ls" and pins: "exact_pins t ls"
  shows "\<exists>t'. drain draining None t = Some (Ok, t') \<and> table_inv t' \<and> config t' = config t \<and> held_ok t' ls \<and>
    exact_pins t' ls \<and> tickets_held t' = tickets_held t \<and> retains lease_done t t' ls \<and> in_flight t' = 0"
proof (cases "in_flight t = 0")
  case True
  then show ?thesis using assms by (simp add: drain_def retains_def)
next
  case False
  have d: "interferes (pins_of ls) t (draining t)" "same_pins t (draining t)" "tickets_held (draining t) = tickets_held t"
    "in_flight (draining t) = 0" using assms by (simp_all add: drains_def)
  have "retains lease_done t (draining t) ls"
    using lease_done_interferes [OF _ d(1)] pins_of_pos by (auto simp: retains_def)
  then show ?thesis using False d interferes_held [OF held d(1)] same_pinsD [OF d(2)] pins
    by (simp add: drain_def interferes_def exact_pins_def)
qed

lemmas table_keeps = reset_keeps prefetch_keeps try_get_keeps resolve_keeps drain_keeps

interpretation padded: cache_client "table_ops tp others draining" "table_good tp others draining cfg" lease_done
  for tp others draining cfg
proof (unfold_locales, goal_cases)
  case (1 ls ls' t)
  show ?case using 1(2) held_ok_mset [OF 1(1), of t] exact_pins_mset [OF 1(1), of t] by (simp add: table_good_def)
next
  case (2 t)
  then show ?case by (simp add: table_ops_def)
next
  case (3 t l ls)
  then show ?case using reset_keeps [of t l ls] by (auto simp: table_good_def table_ops_def)
next
  case (4 t ls b rows)
  then show ?case using prefetch_keeps [of t ls tp rows] by (auto simp: table_good_def table_ops_def)
next
  case (5 t ls row t')
  then show ?case using try_get_keeps [of t ls row None t'] by (simp add: table_good_def table_ops_def)
next
  case (6 t ls row l t')
  then show ?case using try_get_keeps [of t ls row "Some l" t'] by (simp add: table_good_def table_ops_def)
next
  case (7 t ls b i row)
  then obtain r v t' where "resolve_into tp (\<lambda>_. others b i) [row] [None] t = Some (r, [v], t')"
    "table_inv t'" "config t' = config t" "tickets_held t' = tickets_held t" "retains lease_done t t' ls"
    "held_ok t' (leases_in [v] @ ls)" "exact_pins t' (leases_in [v] @ ls)"
    "case r of Inl _ \<Rightarrow> v = None | Inr _ \<Rightarrow> \<exists>l. v = Some l \<and> lease_done t' row l"
    using resolve_keeps [of tp others t ls b i row] by (auto simp: table_good_def)
  then show ?case using 7 by (cases r) (auto simp: table_good_def table_ops_def failure_def)
next
  case (8 t ls)
  then show ?case using drain_keeps [of draining t ls] by (auto simp: table_good_def table_ops_def)
qed

end
