(* ===== verification/Trace_Classed.thy ===== *)
theory Trace_Classed
  imports Trace_Tables
begin

text \<open>
  The size-classed table keeps the contract of the replay loop: each call is a call on the table of one class, and the
  other classes do not move.
\<close>

section \<open>The size-classed table\<close>

definition leases_of_class :: "nat \<Rightarrow> (nat \<times> lease) list \<Rightarrow> lease list" where
  "leases_of_class c vars = leases_on c (map Some vars)"

lemma leases_of_class_simps [simp]:
  "leases_of_class c [] = []"
  "leases_of_class c ((c', l) # vars) = (if c' = c then l # leases_of_class c vars else leases_of_class c vars)"
  by (simp_all add: leases_of_class_def)

lemma leases_of_class_mset: "mset vars = mset vars' \<Longrightarrow> mset (leases_of_class c vars) = mset (leases_of_class c vars')"
  by (simp add: leases_of_class_def leases_on_mset)

lemma leases_of_class_mem: "(c, l) \<in> set vars \<Longrightarrow> l \<in> set (leases_of_class c vars)"
  by (induction vars) auto

definition class_good :: "'m table \<Rightarrow> lease list \<Rightarrow> bool" where
  "class_good t ls \<longleftrightarrow> table_inv t \<and> c_max_batch_rows (config t) \<noteq> 0 \<and> held_ok t ls \<and> exact_pins t ls \<and> tickets_held t = 0"

definition tables_good :: "'m table list \<Rightarrow> (nat \<times> lease) list \<Rightarrow> bool" where
  "tables_good ts vars \<longleftrightarrow> (\<forall>(c, l) \<in> set vars. c < length ts) \<and> (\<forall>c < length ts. class_good (ts ! c) (leases_of_class c vars))"

definition classed_good :: "'m transport \<Rightarrow> (nat \<Rightarrow> nat \<Rightarrow> nat \<Rightarrow> 'm table \<Rightarrow> 'm table) \<Rightarrow> (nat \<Rightarrow> 'm table \<Rightarrow> 'm table) \<Rightarrow>
    'm size_classed \<Rightarrow> 'm size_classed \<Rightarrow> (nat \<times> lease) list \<Rightarrow> bool" where
  "classed_good tp others draining z0 z vars \<longleftrightarrow> worker_only tp others \<and> (\<forall>c. drains (draining c)) \<and>
     (\<forall>row. row < z_row_count (z_config z0) \<longrightarrow> z_class_of z0 ! unat row < length (z_tables z0)) \<and>
     z = z0\<lparr>z_tables := z_tables z\<rparr> \<and> length (z_tables z) = length (z_tables z0) \<and> tables_good (z_tables z) vars"

definition classed_done :: "'m size_classed \<Rightarrow> u64 \<Rightarrow> nat \<times> lease \<Rightarrow> bool" where
  "classed_done z row l \<longleftrightarrow> row_done z (z_tables z) row (Some l)"

lemma tables_goodD: "tables_good ts vars \<Longrightarrow> \<forall>(c, l) \<in> set vars. c < length ts"
  by (simp add: tables_good_def)

text \<open>Leases stay usable when each class keeps its own.\<close>

definition classes_retain :: "'m table list \<Rightarrow> 'm table list \<Rightarrow> (nat \<times> lease) list \<Rightarrow> bool" where
  "classes_retain ts ts' vars \<longleftrightarrow> (\<forall>c < length ts. retains lease_done (ts ! c) (ts' ! c) (leases_of_class c vars))"

lemma classes_retain_refl: "classes_retain ts ts vars"
  by (simp add: classes_retain_def retains_def)

lemma classes_retain_trans:
  "classes_retain ts ts1 vars \<Longrightarrow> classes_retain ts1 ts' vars \<Longrightarrow> length ts1 = length ts \<Longrightarrow> classes_retain ts ts' vars"
  by (simp add: classes_retain_def retains_def)

lemma classes_retain_done:
  assumes "classes_retain (z_tables z) ts' vars" and "\<forall>(c, l) \<in> set vars. c < length (z_tables z)"
  shows "retains classed_done z (z\<lparr>z_tables := ts'\<rparr>) vars"
  unfolding retains_def
proof (intro ballI allI impI)
  fix cl row assume mem: "cl \<in> set vars" and cl_done: "classed_done z row cl"
  obtain c l where "cl = (c, l)" by (cases cl)
  then have cl: "cl = (c, l)" "(c, l) \<in> set vars" using mem by simp_all
  then have "c < length (z_tables z)" using assms(2) by auto
  then show "classed_done (z\<lparr>z_tables := ts'\<rparr>) row cl"
    using cl_done cl assms(1) leases_of_class_mem [OF cl(2)]
    by (auto simp: classed_done_def row_done_def classes_retain_def retains_def)
qed

lemma tables_good_mset: "mset vars = mset vars' \<Longrightarrow> tables_good ts vars \<Longrightarrow> tables_good ts vars'"
  using leases_of_class_mset [of vars vars'] held_ok_mset exact_pins_mset mset_eq_setD [of vars vars']
  unfolding tables_good_def class_good_def by blast

text \<open>Replacing the table of one class, whose leases may change; those of the other classes do not.\<close>

lemma tables_good_update:
  assumes "tables_good ts vars" and "c < length ts" and "class_good t (leases_of_class c vars')"
    and "\<And>c'. c' \<noteq> c \<Longrightarrow> leases_of_class c' vars' = leases_of_class c' vars" and "\<forall>(c', l) \<in> set vars'. c' < length ts"
  shows "tables_good (ts[c := t]) vars'"
  using assms by (auto simp: tables_good_def nth_list_update)

lemma classes_retain_update:
  assumes "c < length ts" and "retains lease_done (ts ! c) t (leases_of_class c vars)"
  shows "classes_retain ts (ts[c := t]) vars"
  using assms by (auto simp: classes_retain_def nth_list_update retains_def)

lemma class_goodD:
  assumes "tables_good ts vars" and "c < length ts"
  shows "table_inv (ts ! c)" and "held_ok (ts ! c) (leases_of_class c vars)" and "exact_pins (ts ! c) (leases_of_class c vars)"
    and "c_max_batch_rows (config (ts ! c)) \<noteq> 0" and "tickets_held (ts ! c) = 0"
  using assms by (simp_all add: tables_good_def class_good_def)

lemma classed_reset:
  assumes good: "tables_good ts ((c, l) # vars)"
  shows "\<exists>ts'. reset_lease (Some (c, l)) ts = Some ts' \<and> tables_good ts' vars \<and> classes_retain ts ts' vars \<and> length ts' = length ts"
proof -
  have c: "c < length ts" using good by (simp add: tables_good_def)
  note g = class_goodD [OF good c]
  obtain t' where t': "release_leases [Some l] (ts ! c) = Some t'" "table_inv t'" "config t' = config (ts ! c)"
    "held_ok t' (leases_of_class c vars)" "exact_pins t' (leases_of_class c vars)" "tickets_held t' = tickets_held (ts ! c)"
    "retains lease_done (ts ! c) t' (leases_of_class c vars)"
    using reset_keeps [of "ts ! c" l "leases_of_class c vars"] g by auto
  have "release_lease (l_slot l) (l_epoch l) (ts ! c) = Some t'" using t'(1) by (auto split: option.splits)
  moreover have "tables_good (ts[c := t']) vars"
    using tables_good_update [OF good c, of t' vars] t' g good by (auto simp: class_good_def tables_good_def)
  ultimately show ?thesis using classes_retain_update [OF c t'(7)] by (simp add: reset_lease_def)
qed

lemma prefetch_classes_keeps:
  assumes "tables_good ts vars" and "\<forall>c \<in> set cs. c < length ts"
  shows "\<exists>st ts'. prefetch_classes tp z rows cs ts = Some (st, ts') \<and> tables_good ts' vars \<and> classes_retain ts ts' vars \<and>
    length ts' = length ts"
  using assms
proof (induction cs arbitrary: ts)
  case Nil
  then show ?case by (simp add: classes_retain_refl)
next
  case (Cons c cs)
  have c: "c < length ts" using Cons.prems(2) by simp
  note g = class_goodD [OF Cons.prems(1) c]
  consider (none) "class_rows z c rows = None" | (empty) "class_rows z c rows = Some []"
    | (some) locals where "class_rows z c rows = Some locals" "locals \<noteq> []" by (cases "class_rows z c rows") auto
  then show ?case
  proof cases
    case none
    then show ?thesis using Cons.prems classes_retain_refl by auto
  next
    case empty
    then show ?thesis using Cons.IH [OF Cons.prems(1)] Cons.prems(2) by simp
  next
    case some
    obtain r u where run: "prefetch tp locals (ts ! c) = (r, u)" by fastforce
    obtain t' where t': "(case r of Inl _ \<Rightarrow> Some u | Inr tk \<Rightarrow> discard_ticket (pt_record tk) (pt_generation tk) u) = Some t'"
      "table_inv t'" "config t' = config (ts ! c)" "held_ok t' (leases_of_class c vars)"
      "exact_pins t' (leases_of_class c vars)" "tickets_held t' = tickets_held (ts ! c)"
      "retains lease_done (ts ! c) t' (leases_of_class c vars)"
      using prefetch_keeps [OF g(1,2,3), of tp locals] run by (auto split: sum.splits)
    have good: "tables_good (ts[c := t']) vars"
      by (rule tables_good_update [OF Cons.prems(1) c]) (use t' g Cons.prems(1) in \<open>auto simp: class_good_def tables_good_def\<close>)
    have keep: "classes_retain ts (ts[c := t']) vars" by (rule classes_retain_update [OF c t'(7)])
    show ?thesis
    proof (cases r)
      case (Inl e)
      then show ?thesis using some run t'(1) good keep by auto
    next
      case (Inr tk)
      obtain st ts' where rest: "prefetch_classes tp z rows cs (ts[c := t']) = Some (st, ts')" "tables_good ts' vars"
        "classes_retain (ts[c := t']) ts' vars" "length ts' = length ts"
        using Cons.IH [OF good] Cons.prems(2) by auto
      have "reset_ticket (Some (c, tk)) (ts[c := u]) = Some (ts[c := t'])"
        using t'(1) Inr c by (simp add: reset_ticket_def)
      then show ?thesis using some run Inr rest classes_retain_trans [OF keep rest(3)] by simp
    qed
  qed
qed


lemma class_step:
  assumes good: "tables_good ts vars" and c: "c < length ts" and t: "table_inv t'" "config t' = config (ts ! c)"
    "tickets_held t' = tickets_held (ts ! c)" "retains lease_done (ts ! c) t' (leases_of_class c vars)"
    and ls: "held_ok t' (leases_in [v] @ leases_of_class c vars)" "exact_pins t' (leases_in [v] @ leases_of_class c vars)"
  shows "tables_good (ts[c := t']) ((case v of None \<Rightarrow> [] | Some l \<Rightarrow> [(c, l)]) @ vars)" and "classes_retain ts (ts[c := t']) vars"
proof -
  show "tables_good (ts[c := t']) ((case v of None \<Rightarrow> [] | Some l \<Rightarrow> [(c, l)]) @ vars)"
    by (rule tables_good_update [OF good c])
      (use class_goodD [OF good c] t ls good c in \<open>auto simp: class_good_def tables_good_def split: option.splits\<close>)
  show "classes_retain ts (ts[c := t']) vars" by (rule classes_retain_update [OF c t(4)])
qed

lemma classed_good_step:
  assumes "classed_good tp others draining z0 z vars" and "tables_good ts' vars'" and "length ts' = length (z_tables z)"
  shows "classed_good tp others draining z0 (z\<lparr>z_tables := ts'\<rparr>) vars'"
proof -
  have "z = z0\<lparr>z_tables := z_tables z\<rparr>" using assms(1) by (simp add: classed_good_def)
  then have "z\<lparr>z_tables := ts'\<rparr> = z0\<lparr>z_tables := ts'\<rparr>" by (cases z; cases z0) auto
  then show ?thesis using assms by (simp add: classed_good_def)
qed

lemma classed_try_get_keeps:
  assumes good: "classed_good tp others draining z0 z vars" and run: "size_classed_try_get row z = (r, z')"
  shows "classed_good tp others draining z0 z' ((case r of None \<Rightarrow> [] | Some cl \<Rightarrow> [cl]) @ vars) \<and>
    retains classed_done z z' vars \<and> (\<forall>cl. r = Some cl \<longrightarrow> classed_done z' row cl)"
proof (cases "row < z_row_count (z_config z)")
  case False
  then show ?thesis using good run by (auto simp: size_classed_try_get_def not_less retains_def)
next
  case True
  let ?c = "z_class_of z ! unat row" and ?l = "ucast (z_local_of z ! unat row) :: u64" and ?ts = "z_tables z"
  have z: "z = z0\<lparr>z_tables := ?ts\<rparr>" and ts: "tables_good ?ts vars" using good by (simp_all add: classed_good_def)
  have "z_config z = z_config z0" "z_class_of z = z_class_of z0" by (subst z, simp)+
  then have c: "?c < length ?ts" using good True by (simp add: classed_good_def)
  note g = class_goodD [OF ts c]
  obtain w t' where get: "try_get ?l (?ts ! ?c) = (w, t')" by fastforce
  have r: "r = map_option (\<lambda>l. (?c, l)) w" and z': "z' = z\<lparr>z_tables := ?ts[?c := t']\<rparr>"
    using run True get by (simp_all add: size_classed_try_get_def Let_def not_less [symmetric])
  note k = try_get_keeps [OF g(1,2,3) get]
  have ls: "held_ok t' (leases_in [w] @ leases_of_class ?c vars)" "exact_pins t' (leases_in [w] @ leases_of_class ?c vars)"
    using k by (simp_all split: option.splits)
  have keep: "table_inv t'" "config t' = config (?ts ! ?c)" "tickets_held t' = tickets_held (?ts ! ?c)"
    "retains lease_done (?ts ! ?c) t' (leases_of_class ?c vars)" using k by simp_all
  note st = class_step [OF ts c keep ls]
  have vars: "(case w of None \<Rightarrow> [] | Some l \<Rightarrow> [(?c, l)]) = (case r of None \<Rightarrow> [] | Some cl \<Rightarrow> [cl])"
    by (simp add: r split: option.split)
  have "classed_good tp others draining z0 z' ((case r of None \<Rightarrow> [] | Some cl \<Rightarrow> [cl]) @ vars)"
    unfolding z' by (rule classed_good_step [OF good st(1) [unfolded vars]]) simp
  moreover have "classed_done z' row cl" if "r = Some cl" for cl
    using that True c k by (auto simp: classed_done_def row_done_def z' r)
  ultimately show ?thesis using classes_retain_done [OF st(2) tables_goodD [OF ts]] z' by simp
qed

lemma classed_resolve_keeps:
  assumes good: "classed_good tp others draining z0 z vars"
  shows "\<exists>r v z'. size_classed_resolve_into tp (\<lambda>_. others b i) [row] [None] z = Some (r, [v], z') \<and>
    (\<forall>n. r = Inr n \<longrightarrow> (\<exists>cl. v = Some cl \<and> classed_good tp others draining z0 z' (cl # vars) \<and> classed_done z' row cl \<and>
       retains classed_done z z' vars))"
proof (cases "row < z_row_count (z_config z)")
  case False
  then show ?thesis by (simp add: size_classed_resolve_into_def not_less)
next
  case True
  let ?c = "z_class_of z ! unat row" and ?l = "ucast (z_local_of z ! unat row) :: u64" and ?ts = "z_tables z"
  have z: "z = z0\<lparr>z_tables := ?ts\<rparr>" and ts: "tables_good ?ts vars" and env: "worker_only tp others"
    using good by (simp_all add: classed_good_def)
  have "z_config z = z_config z0" "z_class_of z = z_class_of z0" by (subst z, simp)+
  then have c: "?c < length ?ts" using good True by (simp add: classed_good_def)
  note g = class_goodD [OF ts c]
  obtain r v t' where run: "resolve_into tp (\<lambda>_. others b i) [?l] [None] (?ts ! ?c) = Some (r, [v], t')"
    and keep: "table_inv t'" "config t' = config (?ts ! ?c)" "tickets_held t' = tickets_held (?ts ! ?c)"
      "retains lease_done (?ts ! ?c) t' (leases_of_class ?c vars)"
    and ls: "held_ok t' (leases_in [v] @ leases_of_class ?c vars)" "exact_pins t' (leases_in [v] @ leases_of_class ?c vars)"
    and ok: "case r of Inl _ \<Rightarrow> v = None | Inr _ \<Rightarrow> \<exists>l. v = Some l \<and> lease_done t' ?l l"
    using resolve_keeps [OF env g(1,2,3,4), of b i ?l] by blast
  note st = class_step [OF ts c keep ls]
  let ?z = "z\<lparr>z_tables := ?ts[?c := t']\<rparr>"
  have cls: "resolve_class tp (others b i) ?c ?l None ?ts = Some (r, map_option (\<lambda>l. (?c, l)) v, ?ts[?c := t'])"
    by (simp add: resolve_class_def run)
  show ?thesis
  proof (cases r)
    case (Inl e)
    then show ?thesis using True cls by (simp add: size_classed_resolve_into_def not_less [symmetric])
  next
    case (Inr n)
    then obtain l where l: "v = Some l" "lease_done t' ?l l" using ok by auto
    have "size_classed_resolve_into tp (\<lambda>_. others b i) [row] [None] z = Some (Inr 1, [Some (?c, l)], ?z)"
      using True cls Inr l(1) by (simp add: size_classed_resolve_into_def not_less [symmetric])
    moreover have "classed_good tp others draining z0 ?z ((?c, l) # vars)"
      by (rule classed_good_step [OF good]) (use st(1) l(1) in simp_all)
    moreover have "classed_done ?z row (?c, l)" using True c l(2) by (simp add: classed_done_def row_done_def)
    ultimately show ?thesis using classes_retain_done [OF st(2) tables_goodD [OF ts]] by auto
  qed
qed

lemma drain_tables_keeps:
  assumes "\<forall>c. drains (draining c)" and "\<forall>c < length ts. class_good (ts ! c) (leases_of_class (k + c) vars)"
  shows "\<exists>ts'. drain_tables draining None k ts = Some (Ok, ts') \<and> length ts' = length ts \<and>
    (\<forall>c < length ts. class_good (ts' ! c) (leases_of_class (k + c) vars) \<and> in_flight (ts' ! c) = 0 \<and>
       retains lease_done (ts ! c) (ts' ! c) (leases_of_class (k + c) vars))"
  using assms(2)
proof (induction ts arbitrary: k)
  case (Cons t ts)
  have g: "class_good t (leases_of_class k vars)" using Cons.prems by fastforce
  obtain t' where t': "drain (draining k) None t = Some (Ok, t')" "class_good t' (leases_of_class k vars)"
    "retains lease_done t t' (leases_of_class k vars)" "in_flight t' = 0"
    using drain_keeps [of "draining k" t "leases_of_class k vars"] assms(1) g by (auto simp: class_good_def)
  have "\<forall>c < length ts. class_good (ts ! c) (leases_of_class (k + 1 + c) vars)" using Cons.prems by fastforce
  then obtain ts' where ts': "drain_tables draining None (k + 1) ts = Some (Ok, ts')" "length ts' = length ts"
    "\<forall>c < length ts. class_good (ts' ! c) (leases_of_class (k + 1 + c) vars) \<and> in_flight (ts' ! c) = 0 \<and>
       retains lease_done (ts ! c) (ts' ! c) (leases_of_class (k + 1 + c) vars)"
    using Cons.IH [of "k + 1"] by blast
  show ?case using t' ts' by (auto simp: less_Suc_eq_0_disj)
qed simp


interpretation sized: cache_client "classed_ops tp others draining" "classed_good tp others draining z0" classed_done
  for tp others draining z0
proof (unfold_locales, goal_cases)
  case (1 ls ls' z)
  show ?case using 1(2) tables_good_mset [OF 1(1), of "z_tables z"] unfolding classed_good_def by blast
next
  case (2 z)
  then show ?case by (simp add: classed_ops_def reset_lease_def)
next
  case (3 z cl ls)
  obtain c l where cl: "cl = (c, l)" by (cases cl)
  have good: "tables_good (z_tables z) ((c, l) # ls)" using 3 cl by (simp add: classed_good_def)
  obtain ts' where ts': "reset_lease (Some (c, l)) (z_tables z) = Some ts'" "tables_good ts' ls"
    "classes_retain (z_tables z) ts' ls" "length ts' = length (z_tables z)" using classed_reset [OF good] by blast
  have "retains classed_done z (z\<lparr>z_tables := ts'\<rparr>) ls"
    by (rule classes_retain_done [OF ts'(3)]) (use good in \<open>simp add: tables_good_def\<close>)
  then show ?case using classed_good_step [OF 3 ts'(2,4)] ts'(1) cl by (simp add: classed_ops_def)
next
  case (4 z ls b rows)
  have good: "tables_good (z_tables z) ls" using 4 by (simp add: classed_good_def)
  show ?case
  proof (cases "length rows > unat (z_max_batch_rows (z_config z))")
    case True
    then show ?thesis using 4 by (simp add: classed_ops_def size_classed_prefetch_def retains_def)
  next
    case False
    obtain st ts' where "prefetch_classes tp z rows [0 ..< length (z_tables z)] (z_tables z) = Some (st, ts')"
      "tables_good ts' ls" "classes_retain (z_tables z) ts' ls" "length ts' = length (z_tables z)"
      using prefetch_classes_keeps [OF good, of "[0 ..< length (z_tables z)]" tp z rows] by auto
    then show ?thesis using False classed_good_step [OF 4] classes_retain_done [OF _ tables_goodD [OF good]]
      by (simp add: classed_ops_def size_classed_prefetch_def)
  qed
next
  case (5 z ls row z')
  then show ?case using classed_try_get_keeps [of tp others draining z0 z ls row None z'] by (simp add: classed_ops_def)
next
  case (6 z ls row l z')
  then show ?case using classed_try_get_keeps [of tp others draining z0 z ls row "Some l" z'] by (simp add: classed_ops_def)
next
  case (7 z ls b i row)
  obtain r v z' where "size_classed_resolve_into tp (\<lambda>_. others b i) [row] [None] z = Some (r, [v], z')"
    "\<forall>n. r = Inr n \<longrightarrow> (\<exists>cl. v = Some cl \<and> classed_good tp others draining z0 z' (cl # ls) \<and> classed_done z' row cl \<and>
       retains classed_done z z' ls)"
    using classed_resolve_keeps [OF 7, of b i row] by (elim exE conjE) (rule that)
  then show ?case by (cases r) (auto simp: classed_ops_def failure_def)
next
  case (8 z ls)
  have good: "tables_good (z_tables z) ls" and dr: "\<forall>c. drains (draining c)" using 8 by (simp_all add: classed_good_def)
  obtain ts' where ts': "drain_tables draining None 0 (z_tables z) = Some (Ok, ts')" "length ts' = length (z_tables z)"
    "\<forall>c < length (z_tables z). class_good (ts' ! c) (leases_of_class c ls) \<and> in_flight (ts' ! c) = 0 \<and>
       retains lease_done (z_tables z ! c) (ts' ! c) (leases_of_class c ls)"
    using drain_tables_keeps [OF dr, of "z_tables z" 0 ls] good by (auto simp: tables_good_def)
  have "tables_good ts' ls" using good ts'(2,3) by (simp add: tables_good_def)
  moreover have "classes_retain (z_tables z) ts' ls" using ts'(3) by (simp add: classes_retain_def)
  ultimately show ?case using ts'(1,2) classed_good_step [OF 8] classes_retain_done [OF _ tables_goodD [OF good]]
    by (simp add: classed_ops_def size_classed_drain_def)
qed

end
