(* ===== verification/Trace_Main.thy ===== *)
theory Trace_Main
  imports Trace_Classed
begin

text \<open>
  The replay benchmark from its files to its report: \<open>main\<close> returns, and what it counted is the trace.
\<close>

section \<open>A new table\<close>

lemma create_good:
  assumes run: "create tp cfg m = Inr t"
  shows "table_inv t" and "config t = cfg" and "c_max_batch_rows cfg \<noteq> 0" and "held_ok t []" and "exact_pins t []"
    and "tickets_held t = 0"
proof -
  note c = create_result [OF run]
  show "table_inv t" "config t = cfg" by (rule c(2,3))+
  show "c_max_batch_rows cfg \<noteq> 0" using c(1) unfolding create_check_None by blast
  show "held_ok t []" by (simp add: held_ok_def)
  show "exact_pins t []" using c(6) by (simp add: exact_pins_def fresh_slot_def)
  show "tickets_held t = 0"
    using run by (auto simp: create_def new_table_def Let_def split: option.splits sum.splits prod.splits)
qed

lemma padded_start:
  assumes "create tp cfg m = Inr t" and "worker_only tp others" and "drains draining"
  shows "table_good tp others draining cfg t []"
  using create_good [OF assms(1)] assms(2,3) by (simp add: table_good_def)

lemma sized_start:
  assumes z: "size_classed_create tp mems cfg = Some (Inr z)" and "worker_only tp others" and "\<forall>c. drains (draining c)"
  shows "classed_good tp others draining z z []"
proof -
  note ok = create_size_classed_ok(1,2) [OF z] and r = created_routes [OF z]
  have "class_good (z_tables z ! c) []" if "c < length (z_tables z)" for c
  proof -
    have "create tp (class_config cfg (the (z_resolve_extent cfg)) (of_nat (slice_start (z_classes z) c)) (z_classes z ! c)
        (z_global_of z ! c)) (mems c) = Inr (z_tables z ! c)"
      using ok that r(1) by (simp add: size_classed_ok_def Let_def)
    note g = create_good [OF this]
    show ?thesis using g by (simp add: class_good_def)
  qed
  then show ?thesis using assms(2,3) r(1,2) ok(2) by (simp add: classed_good_def tables_good_def)
qed

section \<open>The end of the table\<close>

lemma all_back_destroy:
  assumes "table_inv t" and "exact_pins t []" and "tickets_held t = 0" and "in_flight t = 0"
  shows "destroy t = Some ()"
proof -
  have "pins_total t = 0" using assms(1,2) table_invD(5) [OF assms(1)] by (simp add: counts_ok_def tally_eq_0 exact_pins_def)
  then show ?thesis using assms(3,4) by (simp add: destroy_def)
qed

lemma padded_end:
  assumes good: "table_good tp others draining cfg u []" and run: "op_drain (table_ops tp others draining) u = Some t"
  shows "destroy t = Some ()"
proof -
  have "drains draining" "table_inv u" "held_ok u []" "exact_pins u []" "tickets_held u = 0"
    using good by (simp_all add: table_good_def)
  then show ?thesis using drain_keeps [of draining u "[]"] run all_back_destroy by (auto simp: table_ops_def)
qed

lemma sized_end:
  assumes good: "classed_good tp others draining z0 u []" and run: "op_drain (classed_ops tp others draining) u = Some z"
  shows "\<forall>t \<in> set (z_tables z). destroy t = Some ()"
proof -
  have dr: "\<forall>c. drains (draining c)" and ts: "tables_good (z_tables u) []" using good by (simp_all add: classed_good_def)
  obtain ts' where ts': "drain_tables draining None 0 (z_tables u) = Some (Ok, ts')" "length ts' = length (z_tables u)"
    "\<forall>c < length (z_tables u). class_good (ts' ! c) [] \<and> in_flight (ts' ! c) = 0"
    using drain_tables_keeps [OF dr, of "z_tables u" 0 "[]"] ts by (auto simp: tables_good_def)
  have "z_tables z = ts'" using run ts'(1) by (auto simp: classed_ops_def size_classed_drain_def)
  moreover have "destroy (ts' ! c) = Some ()" if "c < length ts'" for c
    by (rule all_back_destroy) (use ts'(2,3) that in \<open>simp_all add: class_good_def\<close>)
  ultimately show ?thesis by (auto simp: in_set_conv_nth)
qed

section \<open>The slot widths\<close>

lemma slot_width_pos:
  assumes "2 \<le> unat align" and "unat w + 2 * unat align < 2 ^ 64"
  shows "aligned_slot_bytes w align \<noteq> 0"
proof -
  have sum: "unat (w + 2 * align - 2) = unat w + 2 * unat align - 2"
  proof -
    have two: "unat (w + 2 * align) = unat w + 2 * unat align" using assms(2) by (simp add: unat_word_ariths)
    then have "2 \<le> w + 2 * align" using assms(1) by (simp add: word_le_nat_alt)
    then show ?thesis by (simp add: unat_sub two)
  qed
  have "unat align \<le> unat w + 2 * unat align - 2" using assms(1) by linarith
  then have "1 \<le> (unat w + 2 * unat align - 2) div unat align"
    using assms(1) by (simp add: Suc_le_eq div_greater_zero_iff)
  then have "0 < unat (aligned_slot_bytes w align)"
    unfolding aligned_slot_bytes_def unat_round_down sum using assms(1) by simp
  then show ?thesis by (simp add: unat_gt_0)
qed

lemma discover_widths:
  assumes "discover resolve m rows ws cs = Inr (ws', cs')" and "\<forall>w \<in> set ws. P w"
    and "\<forall>row loc. resolve row = Inr loc \<longrightarrow> br_length (loc_range loc) \<noteq> 0 \<longrightarrow> P (br_length (loc_range loc))"
  shows "\<forall>w \<in> set ws'. P w"
  using assms
proof (induction resolve m rows ws cs rule: discover.induct)
  case (2 resolve m row rows ws cs)
  obtain loc where loc: "resolve row = Inr loc" and w0: "br_length (loc_range loc) \<noteq> 0"
    using "2.prems"(1) by (auto simp: Let_def split: sum.splits if_splits)
  show ?case
  proof (cases "find_width (br_length (loc_range loc)) ws")
    case None
    then have "length ws \<noteq> m" and run: "discover resolve m rows (ws @ [br_length (loc_range loc)]) (cs @ [length ws]) = Inr (ws', cs')"
      using "2.prems"(1) loc w0 by (auto split: if_splits)
    then show ?thesis using "2.IH"(1) [OF loc refl w0 None _ run] "2.prems"(2,3) loc w0 by simp
  next
    case (Some k)
    then show ?thesis using "2.IH"(2) [OF loc refl w0 Some] "2.prems" loc w0 by simp
  qed
qed simp

lemma class_widths_subset: "set (class_widths ws) \<subseteq> set ws"
proof
  fix w assume "w \<in> set (class_widths ws)"
  then obtain r where r: "r < length ws" "w = class_widths ws ! r"
    by (auto simp: in_set_conv_nth class_widths_def)
  let ?c = "width_order ws ! r"
  have c: "?c < length ws" using r(1) width_order_props(1,2) [of ws] nth_mem [of r "width_order ws"] by auto
  then have "w = ws ! ?c" using class_widths_nth(1) [OF c] rank_of_order [OF r(1)] r(2) by simp
  then show "w \<in> set ws" using c by simp
qed

lemma split_storage_returns:
  "\<forall>cls \<in> set classes. k_slot_bytes cls \<noteq> 0 \<Longrightarrow> split_storage cfg total_bytes classes used \<noteq> None"
proof (induction classes arbitrary: used)
  case (Cons cls classes)
  have ih: "(split_storage cfg total_bytes classes u = None) = False" for u using Cons by simp
  show ?case using Cons.prems by (simp add: Let_def ih split: option.split sum.split prod.split)
qed simp

text \<open>The construction divides by no slot width of zero.\<close>

lemma size_classed_create_returns:
  assumes "\<And>resolve row loc. z_resolve_extent cfg = Some resolve \<Longrightarrow> resolve row = Inr loc \<Longrightarrow>
      br_length (loc_range loc) \<noteq> 0 \<Longrightarrow> z_fill_alignment cfg \<noteq> 0 \<Longrightarrow>
      2 \<le> unat (z_fill_alignment cfg) \<and> unat (br_length (loc_range loc)) + 2 * unat (z_fill_alignment cfg) < 2 ^ 64"
  shows "size_classed_create tp mems cfg \<noteq> None"
proof (cases "z_resolve_extent cfg")
  case (Some resolve)
  let ?rows = "map of_nat [0 ..< unat (z_row_count cfg)] :: u64 list"
  let ?P = "\<lambda>w. w \<noteq> 0 \<and> (z_fill_alignment cfg \<noteq> 0 \<longrightarrow> 2 \<le> unat (z_fill_alignment cfg) \<and>
      unat w + 2 * unat (z_fill_alignment cfg) < 2 ^ 64)"
  have slots: "split_storage cfg total_bytes (map2 (sized_class cfg) (class_widths widths) gs) used \<noteq> None"
    if d: "discover resolve (unat (z_max_classes cfg)) ?rows [] [] = Inr (widths, ks)" for total_bytes widths ks gs used
  proof (rule split_storage_returns, rule ballI)
    have "\<forall>w \<in> set widths. ?P w" by (rule discover_widths [OF d]) (use assms [OF Some] in simp_all)
    then have "\<forall>w \<in> set (class_widths widths). ?P w" using class_widths_subset by blast
    moreover fix cls assume "cls \<in> set (map2 (sized_class cfg) (class_widths widths) gs)"
    ultimately show "k_slot_bytes cls \<noteq> 0"
      using slot_width_pos by (auto simp: sized_class_def split: if_splits dest!: set_zip_leftD)
  qed
  show ?thesis
  proof (cases "discover resolve (unat (z_max_classes cfg)) ?rows [] []")
    case (Inr d)
    obtain widths ks where d: "d = (widths, ks)" by (cases d)
    have never: "(split_storage cfg total_bytes (map2 (sized_class cfg) (class_widths widths) gs) used = None) = False" for total_bytes gs used
      using slots [OF Inr [unfolded d]] by simp
    show ?thesis
      by (simp add: size_classed_create_def Some Let_def Inr d never split: option.split sum.split prod.split)
  qed (simp add: size_classed_create_def Some)
qed (simp add: size_classed_create_def)
section \<open>An environment for the witness\<close>

text \<open>\<open>finisher\<close> of \<open>Table_Calls\<close> keeps tickets too; and a thread that finishes every fill drains a table.\<close>

lemma publish_claimed_tickets: "tickets_held (publish_claimed tp i t) = tickets_held t"
  by (simp add: publish_claimed_def publish_fill_tickets)

lemma finisher_tickets: "keeps_tickets (finisher tp)"
proof -
  have "tickets_held (fold (publish_claimed tp) is t) = tickets_held t" for "is" and t :: "'a table"
    by (induction "is" arbitrary: t) (simp_all add: publish_claimed_tickets)
  then show ?thesis by (simp add: keeps_tickets_def finisher_def publish_all_def)
qed

lemma finisher_worker_only: "waits_out tp \<Longrightarrow> worker_only tp (\<lambda>_ _. finisher tp)"
  by (simp add: worker_only_def finisher_tickets finisher_pins finisher_settles finisher_relies)

definition finish_one :: "'m transport \<Rightarrow> nat \<Rightarrow> 'm table \<Rightarrow> 'm table" where
  "finish_one tp i t =
     (if i < length (slots t) \<and> filling (slots t ! i) then publish_fill tp i (s_scratch_slot (slots t ! i)) Ok t else t)"

definition finish_every :: "'m transport \<Rightarrow> 'm table \<Rightarrow> 'm table" where
  "finish_every tp t = fold (finish_one tp) [0 ..< length (slots t)] t"

lemma finish_one_result:
  assumes inv: "table_inv t" and t'_def: "t' = finish_one tp i t"
  shows "table_inv t' \<and> (\<forall>ls. held_ok t ls \<longrightarrow> interferes (pins_of ls) t t') \<and> same_pins t t' \<and>
    tickets_held t' = tickets_held t \<and> (\<forall>j. filling (slots t' ! j) \<longrightarrow> filling (slots t ! j)) \<and>
    (i < length (slots t) \<longrightarrow> \<not> filling (slots t' ! i))"
proof (cases "i < length (slots t) \<and> filling (slots t ! i)")
  case True
  then have ix: "s_indexed (slots t ! i)" using table_invD(3) [OF inv] by (simp add: slot_ok_def)
  have t': "t' = publish_fill tp i (s_scratch_slot (slots t ! i)) Ok t" using True by (simp add: t'_def finish_one_def)
  have inv': "table_inv t'" unfolding t' using inv_publish_fill [OF inv] True by simp
  note f = publish_fill_fields [OF conjunct1 [OF True] ix t']
  have nth: "slots t' ! j = (if j = i then published_slot (active_codec t \<noteq> None) Ok (slots t ! i) else slots t ! j)" for j
    using f(1) True by simp
  have len: "length (slots t') = length (slots t)" using f(1) by simp
  have "\<forall>ls. held_ok t ls \<longrightarrow> interferes (pins_of ls) t t'"
    using inv' True f(11,13) len unfolding interferes_def held_ok_def nth by (auto simp: published_slot_def)
  moreover have "same_pins t t'" by (rule same_pinsI [OF len]) (simp add: nth published_slot_def)
  ultimately show ?thesis using inv' f(9) nth by (simp add: published_slot_def)
next
  case False
  then have "t' = t" by (auto simp: t'_def finish_one_def)
  then show ?thesis using inv False interferes_refl by auto
qed

lemma finish_every_drains: "drains (finish_every tp)"
proof -
  have all: "table_inv (fold (finish_one tp) is t) \<and>
      (\<forall>ls. held_ok t ls \<longrightarrow> interferes (pins_of ls) t (fold (finish_one tp) is t)) \<and> same_pins t (fold (finish_one tp) is t) \<and>
      tickets_held (fold (finish_one tp) is t) = tickets_held t \<and>
      (\<forall>j < length (slots t). filling (slots (fold (finish_one tp) is t) ! j) \<longrightarrow> filling (slots t ! j) \<and> j \<notin> set is)"
    if "table_inv t" for "is" and t :: "'a table"
    using that
  proof (induction "is" arbitrary: t)
    case Nil
    then show ?case by (simp add: interferes_refl)
  next
    case (Cons i "is")
    note p = finish_one_result [OF Cons.prems refl, of tp i]
    let ?u = "finish_one tp i t"
    note ih = Cons.IH [OF conjunct1 [OF p]]
    have len: "length (slots ?u) = length (slots t)" using p same_pinsD(1) by blast
    have "interferes (pins_of ls) t (fold (finish_one tp) is ?u)" if "held_ok t ls" for ls
      using interferes_trans interferes_held [OF that] p ih that by blast
    moreover have "same_pins t (fold (finish_one tp) is ?u)" using same_pins_trans p ih by blast
    moreover have "filling (slots t ! j) \<and> j \<notin> set (i # is)"
      if "j < length (slots t)" "filling (slots (fold (finish_one tp) is ?u) ! j)" for j
      using that ih p len by auto
    ultimately show ?case using ih p by auto
  qed
  have "in_flight (finish_every tp t) = 0" if "table_inv t" for t :: "'a table"
  proof -
    note a = all [OF that, of "[0 ..< length (slots t)]"]
    have "length (slots (finish_every tp t)) = length (slots t)" using a same_pinsD(1) unfolding finish_every_def by blast
    then have "\<forall>j < length (slots (finish_every tp t)). \<not> filling (slots (finish_every tp t) ! j)"
      using a by (auto simp: finish_every_def)
    moreover have "table_inv (finish_every tp t)" using a unfolding finish_every_def by blast
    ultimately show ?thesis using in_flight_0 by blast
  qed
  then show ?thesis using all by (simp add: drains_def finish_every_def)
qed

section \<open>main\<close>

lemma foldl_max_row_bytes: "e \<in> set extents \<Longrightarrow> e_length e \<le> row_bytes_of extents"
  unfolding row_bytes_of_def by (rule foldl_max_ge)

text \<open>The sizes for which no alignment arithmetic wraps and the padded table's slot is not empty.\<close>

definition sizes_ok :: "u64 \<Rightarrow> options \<Rightarrow> extent list \<Rightarrow> bool" where
  "sizes_ok align opts extents \<longleftrightarrow> 2 \<le> unat align \<and> unat (row_bytes_of extents) + 2 * unat align < 2 ^ 64 \<and>
     (o_uncached opts \<or> o_size_classed opts \<or> row_bytes_of extents \<noteq> 0)"

lemma replay_table_config_returns:
  assumes "sizes_ok align opts extents" and "\<not> o_size_classed opts"
  shows "replay_table_config align opts extents max_batch file_bytes base \<noteq> None"
  using assms slot_width_pos [of align "row_bytes_of extents"]
  by (auto simp: replay_table_config_def sizes_ok_def slot_bytes_of_def Let_def)

lemma replay_classed_create_returns:
  assumes "sizes_ok align opts extents"
  shows "size_classed_create tp mems (replay_classed_config align opts extents max_batch file_bytes base) \<noteq> None"
proof (rule size_classed_create_returns)
  fix resolve row loc
  assume "z_resolve_extent (replay_classed_config align opts extents max_batch file_bytes base) = Some resolve"
    and "resolve row = Inr loc"
  then have loc: "extent_resolver extents row = Inr loc" by (simp add: replay_classed_config_def)
  then have row: "unat row < length extents" by (simp add: extent_resolver_def split: if_splits)
  have "br_length (loc_range loc) = e_length (extents ! unat row)" using loc row by (auto simp: extent_resolver_def Let_def)
  then have "unat (br_length (loc_range loc)) \<le> unat (row_bytes_of extents)"
    using foldl_max_row_bytes [OF nth_mem [OF row]] by (simp add: word_le_nat_alt)
  moreover assume "z_fill_alignment (replay_classed_config align opts extents max_batch file_bytes base) \<noteq> 0"
  ultimately show "2 \<le> unat (z_fill_alignment (replay_classed_config align opts extents max_batch file_bytes base)) \<and>
      unat (br_length (loc_range loc)) + 2 * unat (z_fill_alignment (replay_classed_config align opts extents max_batch file_bytes base)) < 2 ^ 64"
    using assms by (simp add: replay_classed_config_def sizes_ok_def split: if_splits)
qed


definition replayed :: "options \<Rightarrow> trace \<Rightarrow> replay \<times> table_stats \<Rightarrow> bool" where
  "replayed opts trace = (\<lambda>(r, st). rp_accesses r =
     of_nat (length (concat (map (batch_rows trace) [0 ..< batches_of opts trace]))))"

lemma batches_fit:
  assumes "trace_ok n trace"
  shows "\<forall>b < batches_of opts trace. length (batch_rows trace b) \<le> unat (max_batch_of trace)"
  using batch_fits(1) [OF assms] by (simp add: batches_of_def)

lemma replay_padded_returns:
  assumes env: "worker_only tp others" "drains draining" and trace: "trace_ok n trace"
  shows "outcome (\<lambda>_. True) (replayed opts trace)
    (replay_padded tp others draining m cfg trace extents (batches_of opts trace) (max_batch_of trace))"
proof (cases "create tp cfg m")
  case (Inr t)
  show ?thesis
    by (rule outcomeE [OF padded.replay_run_result
          [where extents = extents, OF padded_start [OF Inr env] batches_fit [OF trace, of opts]]])
      (auto simp: replay_padded_def Inr replayed_def padded_end)
qed (simp add: replay_padded_def)

lemma replay_sized_returns:
  assumes env: "worker_only tp others" "\<forall>c. drains (draining c)" and trace: "trace_ok n trace"
    and made: "size_classed_create tp mems cfg \<noteq> None"
  shows "outcome (\<lambda>_. True) (replayed opts trace)
    (replay_sized tp others draining mems cfg trace extents (batches_of opts trace) (max_batch_of trace))"
proof -
  obtain c where c: "size_classed_create tp mems cfg = Some c" using made by blast
  show ?thesis
  proof (cases c)
    case (Inr z)
    show ?thesis
    proof (rule outcomeE [OF sized.replay_run_result
        [where extents = extents, OF sized_start [OF c [unfolded Inr] env] batches_fit [OF trace, of opts]]])
      fix x assume run: "replay_run (classed_ops tp others draining) trace extents (batches_of opts trace) (max_batch_of trace) z =
          Some (Inr x)"
        and x: "case x of (r, st, s') \<Rightarrow> classed_good tp others draining z s' [] \<and> st = op_stats (classed_ops tp others draining) s' \<and>
          (\<exists>u. classed_good tp others draining z u [] \<and> op_drain (classed_ops tp others draining) u = Some s') \<and>
          rp_accesses r = of_nat (length (concat (map (batch_rows trace) [0 ..< batches_of opts trace])))"
      obtain r st z' where "x = (r, st, z')" by (cases x)
      then show ?thesis using run x sized_end by (fastforce simp: replay_sized_def c Inr replayed_def)
    qed (simp add: replay_sized_def c Inr)
  qed (simp add: replay_sized_def c)
qed



definition sample_extents :: "extent list" where
  "sample_extents = [\<lparr>e_offset = 0, e_length = 8\<rparr>, \<lparr>e_offset = 8, e_length = 8\<rparr>]"

definition sample_options :: options where
  "sample_options = \<lparr>o_budget_mib = 1, o_readers = 1, o_chunk_kib = 0, o_limit_batches = 0, o_uncached = False, o_size_classed = False\<rparr>"


end
