(* ===== verification/Spec2Isabelle.thy ===== *)
theory Spec2Isabelle
  imports Resolve_Data Dropped_Chunks Size_Classed_Calls Posix_Sockets Mirror_Backend Mirror_Session Trace_Options Trace_Main
begin

text \<open>
  Sub0TieredCache: a bounded row cache over a storage backend, and a local mirror of a remote file.

  \<^bold>\<open>The program.\<close> A \<open>Table\<close> (row_cache.hpp) keeps a fixed number of fixed-width slots in storage the caller owns. A request
  for a row finds it in an open-addressing index, joins the fill that is already running, or evicts a slot by a clock
  sweep and starts a fill: it asks the caller's resolver where the row is, widens the extent to the alignment, and submits
  one read or a run of chunk reads to the MemPage transport. Exactly one thread finishes a fill (a caller or the table's
  completion worker): it waits for the reads, runs the codec (codec.hpp) if the table converts, and publishes the slot as
  Ready or Failed. Callers hold rows through leases, which pin slots, and watch prefetches through tickets. \<open>invalidate\<close>
  moves a table to a new generation of its sources. A \<open>SizeClassedTable\<close> (size_classed_table.hpp) routes the rows of a table
  with a few exact widths to one \<open>Table\<close> per width. On the remote side (remote/) an HTTP client fetches byte ranges, a chunk
  store keeps them as checksummed files, a mirror puts the two together, and a backend serves fill requests from mirrors on
  worker threads.

  \<^bold>\<open>Theories and sources.\<close>

  \<^item> \<open>Cache_Prelude\<close>: machine integer types, sums over updated vectors, cyclic positions, slices of byte lists, word facts.

  \<^item> \<open>Cache_Status\<close>: status.hpp and remote/status.hpp, both status enumerations, \<open>from_mempage\<close>, \<open>is_transient\<close>.

  \<^item> \<open>Codec\<close>: codec.hpp, the bf16 conversion byte for byte.

  \<^item> \<open>Row_Index\<close>: \<open>index_find\<close>, \<open>index_insert\<close>, \<open>index_erase\<close> of row_cache.hpp, with the hash as it is; they refine a map (C16, C17)
    and always leave their loops (C18).

  \<^item> \<open>Table_Config\<close>: \<open>TableConfig\<close>, every check of \<open>Table::create\<close> in order, the fill window and the chunk loop, whose reads tile the window (C21,
    \<open>chunk_reads_exact\<close>).

  \<^item> \<open>Table_Model\<close>: the state of a \<open>Table\<close> and each of its operations, in the order of the source. \<open>Table_Inv\<close> has the invariant
    and the slot life cycle, \<open>Table_Fill\<close> the start and the end of a fill, \<open>Table_Ops\<close> the calls made under one lock,
    \<open>Table_Calls\<close> the calls that give up the lock, \<open>Table_Pins\<close> that they leak no pin, \<open>Table_System\<close> the step relation of all threads of a table,
    \<open>Ram_Transport\<close> a concrete transport and a sample run, \<open>Table_Properties\<close> the promises (C1, C2, C4 to C15), \<open>Table_Spans\<close> that leases lie inside the
    storage and apart (C20).

  \<^item> \<open>Transfer_Contract\<close>, \<open>Table_Data\<close>, \<open>Data_Inv\<close>, \<open>Lease_Data\<close>, \<open>Resolve_Data\<close>, \<open>Dropped_Chunks\<close>: the bytes. The first states what the table relies on
    in the transport, the second says what the claims of one fill mean for the bytes of its window, the third has the invariant
    of all slots, in the locale \<open>fills\<close>, and that each operation keeps it, the fourth the step relation of
    \<open>Table_System\<close> with the transport kept to its contract, so that leases show the source (C3), the fifth that a call of
    \<open>resolve_into\<close> is a run of these steps (C22) and what a table over flat files serves (C23), and the last why C3 asks for
    the refusal of overlaps.

  \<^item> \<open>Row_Cache\<close>: \<open>Table::resolve_one\<close>, equal to \<open>resolve_into\<close> on one row (C39); \<open>RowLease\<close>, \<open>PrefetchTicket\<close> and their moves;
    the registry \<open>RowCache\<close>.

  \<^item> \<open>Size_Classed\<close>: size_classed_table.hpp; \<open>Size_Classed_Sound\<close> shows that the construction is sound (C35), \<open>Size_Classed_Calls\<close>
    that \<open>resolve_into\<close> is all or nothing across the classes (C40).

  \<^item> \<open>Flat_File\<close>: local_file_source.hpp; rows do not overlap (\<open>flat_rows_disjoint\<close>).

  \<^item> \<open>Checksum\<close>, \<open>Transport\<close>, \<open>Chunk_Store\<close>: remote/checksum.hpp, remote/transport.hpp and remote/chunk_store.hpp. The contract
    of a range transport is the locale \<open>range_transport\<close>. The store reads back what it published and nothing else
    (C24 to C27); its validator string is not injective (\<open>canonical_validator_collides\<close>).

  \<^item> \<open>Mirror\<close>: remote/mirror.hpp; reads are exact (C29) and succeed when nothing disturbs them (C30).
    \<open>Mirror_Session\<close> has its constructor with the default directory, and the step relation of a cache directory over the life of
    several processes: opening, reading, crashing, reopening, and mirrors of other sources.

  \<^item> \<open>Http_Parse\<close>, \<open>Http_Client\<close>: remote/http_client.hpp. The client is an instance of \<open>range_transport\<close> (C31), \<open>ok\<close> means
    validated (C32), and the Content-Range parser inverts printing. \<open>Posix_Sockets\<close> has the layer below, \<open>SocketHandle\<close> and the POSIX
    calls; a fetch leaks no socket (C34), by the locale \<open>socket_account\<close>.

  \<^item> \<open>Ring_Queue\<close>, \<open>Mirror_Backend\<close>: remote/mirror_backend.hpp. The ring is an instance of the locale \<open>bounded_fifo\<close>; over every
    interleaving each accepted request is delivered once (C36), a shutdown ends with every request delivered (\<open>shutdown_ends\<close>), the statistics add up (C37), and a completion reports
    only bytes of the source (C38).

  \<^item> \<open>Cache_Dir\<close>: the macOS and the POSIX branch of remote/cache_dir.hpp.

  \<^item> \<open>Trace_Options\<close>, \<open>Trace_Files\<close>, \<open>Trace_Replay\<close>: bench/trace_replay.cpp, its command line (printing and parsing are
    inverse), the files it reads (both are read back as written, and a trace
    that loads is well formed), the sizes and configurations \<open>main\<close> derives, and the consumer loop \<open>replay\<close>, a template over
    the table type: it takes the operations as a record, and the locale \<open>cache_client\<close> is what it needs of them.
    \<open>Trace_Tables\<close> and \<open>Trace_Classed\<close> show that \<open>Table\<close> and \<open>SizeClassedTable\<close> keep this contract, down to the last pin and
    ticket; \<open>Trace_Main\<close> concludes that \<open>main\<close> returns, with either table (C28).

  \<^item> This theory: the mirror over the HTTP client, in any session (C33).

  \<^bold>\<open>State and effects.\<close> A function that changes an object takes it and returns the new one. Errors are values of a sum type; an
  outer \<open>option\<close> is \<open>None\<close> where the code calls \<open>std::terminate\<close>, divides by zero, or waits for something that never
  happens. Where a call gives up its lock, an argument \<open>others\<close> is what the other threads do meanwhile, and the
  properties name what is relied on: \<open>interferes\<close> and \<open>relies\<close> in \<open>Table_Calls\<close> (others may do anything but drop pins that are
  not theirs), \<open>keeps\<close> and \<open>undisturbed\<close> in \<open>Mirror\<close>. The threads of a table and of a backend are also inductive step
  relations, whose reachable states satisfy the invariants.

  \<^bold>\<open>Parameters.\<close> MemPage's transfer sets and claims are the record \<open>transport\<close>, of which most properties assume
  nothing. Those about bytes (C3, C22, C23) assume \<open>transfer_contract\<close>: a transfer writes only its own destination, bytes are
  there when a wait reports success, any final status means that the transfer is over, and dropping a claim does not stop
  it. For tables that read rows in chunks they also assume \<open>refuses_overlap\<close> across all transfer sets of the table,
  which MemPage keeps within one set; tables that read a row at once need no such guard. \<open>Ram_Transport\<close> meets
  both. \<open>Dropped_Chunks\<close> shows that the guard is needed: over a transport that refuses overlaps within one set only, a
  late chunk of a failed fill overwrites a Ready row (\<open>late_chunk_corrupts\<close>). The resolver and custom codecs are functions; the
  sockets are the record \<open>net\<close>, where a \<open>recv\<close> is cut to the size of its buffer, and \<open>posix_net\<close> builds it from the
  POSIX calls, for descriptors below \<open>FD_SETSIZE\<close>; the file system is a map from names to contents,
  with \<open>io_fault\<close> saying which step of a publication fails.

  \<^bold>\<open>Numbers.\<close> \<open>size_t\<close> and \<open>uintptr_t\<close> are 64 bits and memory is little-endian. Widths, offsets, row numbers, generations and epochs
  keep their width and wrap; pin counts, statistics and vector positions are natural numbers. \<open>NONE\<close> is \<open>None\<close>, which \<open>create\<close>
  makes sound by refusing budgets that reach it. \<open>& mask\<close> is a remainder. A \<open>Binding*\<close> is the number of the binding. A \<open>double\<close> is
  a rational rounded to 53 bits after every operation.

  \<^bold>\<open>Fuel.\<close> The probing loops run with as much fuel as the index has cells; C18 and the invariant show that they stop before. The clock
  sweep runs \<open>2 * n\<close> steps, computed in 32 bits, as in the code. The retry loop counts down the retries left. The other loops
  are structural or have a measure.

  \<^bold>\<open>Not modelled.\<close> Times and deadlines beyond whether there is one; what a back-off or a socket timeout lasts; the Windows
  branches; the bytes of converting tables beyond the codec and the staging of one fill; allocation failures; of bench/trace_replay.cpp the clock readings and the printed report; the
  umbrella header.
\<close>

section \<open>The remote tier\<close>

definition http_env :: "string mirror_env" where
  "http_env = \<lparr>me_fetch = fetch_range sample_net sample_transport, me_fault = (\<lambda>_. No_fault), me_pause = (\<lambda>m. m),
     me_join = (\<lambda>_ m. (R_Ok, m))\<rparr>"

definition http_source :: source_identity where
  "http_source = \<lparr>si_url = ''http://h/w'', si_validator = rq_expected sample_request\<rparr>"

definition http_options :: mirror_options where
  "http_options = \<lparr>mo_source = http_source, mo_chunk_size = 4, mo_directory = ''d''\<rparr>"

definition http_mirror :: "string mirror" where
  "http_mirror = open_mirror Other_posix (\<lambda>_. None) (\<lambda>_. True) (\<lambda>_ _. None) 0 http_options []"



end
